(* ===== verification/Prelude.thy ===== *)
theory Prelude
  imports Complex_Main "HOL-Library.Word" "HOL-Library.Monad_Syntax" "HOL-Library.Char_ord"
    "HOL-Library.List_Lexorder" "HOL-Library.Product_Lexorder" "HOL-Library.Signed_Division"
begin

text \<open>
  What the component theories share: the reading of assertions, the byte and string types,
  the two ordered containers of the C++ library the code keeps its state in (\<open>std::set\<close> as a
  strictly sorted list, \<open>std::map\<close> as an association list with strictly sorted keys), the
  decimal printing of \<open>snprintf\<close>, and the collections of rewrite rules the component proofs use.
\<close>

unbundle bit_operations_syntax

named_theorems run_simps "unfolding of a run: binds, requirements"
named_theorems inv_intros "introduction rules for component invariants"
named_theorems abs_simps "how an operation acts on the abstraction of a component"

subsection \<open>Runs that may abort\<close>

text \<open>
  The build files define no NDEBUG, so a failing \<open>assert\<close> ends the process. A member function
  that asserts, or that logs with LOG_FATAL, returns an option: None is the aborted process,
  Some the state it leaves. The do-notation of the option monad sequences calls.
\<close>

definition require :: "bool \<Rightarrow> unit option" where
  "require P = (if P then Some () else None)"

lemma require_simps [simp]: "require True = Some ()" "require False = None"
  by (simp_all add: require_def)

lemma require_Some_iff [simp]: "require P = Some u \<longleftrightarrow> P"
  by (simp add: require_def)

lemma require_bind_iff [run_simps]: "(require P \<bind> f) = Some x \<longleftrightarrow> P \<and> f () = Some x"
  by (simp add: require_def)

lemma bind_Some_iff [run_simps]: "(m \<bind> f) = Some x \<longleftrightarrow> (\<exists>y. m = Some y \<and> f y = Some x)"
  by (cases m) auto

lemma require_bind [simp]: "P \<Longrightarrow> require P \<bind> f = f ()"
  by (simp add: require_def)

lemma require_bind_fail [simp]: "\<not> P \<Longrightarrow> require P \<bind> f = None"
  by (simp add: require_def)

subsection \<open>Bytes and fixed-width integers in memory\<close>

type_synonym byte = "8 word"
type_synonym u16 = "16 word"
type_synonym u32 = "32 word"
type_synonym u64 = "64 word"

definition char_of_byte :: "byte \<Rightarrow> char" where
  "char_of_byte b = char_of (unat b)"

definition byte_of_char :: "char \<Rightarrow> byte" where
  "byte_of_char c = of_nat (of_char c)"

lemma byte_of_char_of_byte [simp]: "byte_of_char (char_of_byte b) = b"
proof -
  have "unat b mod 256 = unat b"
    using unsigned_less [where w = b and ?'a = nat] by simp
  then show ?thesis
    by (simp add: byte_of_char_def char_of_byte_def of_char_of)
qed

lemma char_of_byte_of_char [simp]: "char_of_byte (byte_of_char c) = c"
proof -
  have "of_char c < (2 :: nat) ^ 8"
    by simp
  then have "unat (of_nat (of_char c) :: byte) = of_char c"
    by (simp add: unat_of_nat)
  then show ?thesis
    by (simp add: byte_of_char_def char_of_byte_def)
qed

lemma map_byte_char [simp]: "map (byte_of_char \<circ> char_of_byte) bs = bs"
  by (induction bs) simp_all

subsection \<open>Lists read through a window\<close>

definition window :: "nat \<Rightarrow> nat \<Rightarrow> 'a list \<Rightarrow> 'a list" where
  "window i j xs = take (j - i) (drop i xs)"

lemma length_window [simp]: "length (window i j xs) = min (j - i) (length xs - i)"
  by (simp add: window_def min.commute)

lemma window_refl [simp]: "window i i xs = []"
  by (simp add: window_def)

lemma nth_window: "k < j - i \<Longrightarrow> i + k < length xs \<Longrightarrow> window i j xs ! k = xs ! (i + k)"
  by (simp add: window_def)

text \<open>\<open>overwrite i ys xs\<close> is \<open>std::copy\<close> of \<open>ys\<close> to position \<open>i\<close> of the storage \<open>xs\<close>.\<close>

definition overwrite :: "nat \<Rightarrow> 'a list \<Rightarrow> 'a list \<Rightarrow> 'a list" where
  "overwrite i ys xs = take i xs @ ys @ drop (i + length ys) xs"

lemma length_overwrite [simp]:
  "i + length ys \<le> length xs \<Longrightarrow> length (overwrite i ys xs) = length xs"
  by (simp add: overwrite_def)

lemma window_overwrite_same:
  "i + length ys \<le> length xs \<Longrightarrow> window i (i + length ys) (overwrite i ys xs) = ys"
  by (simp add: window_def overwrite_def)

lemma window_overwrite_append:
  "i \<le> j \<Longrightarrow> j + length ys \<le> length xs \<Longrightarrow>
   window i (j + length ys) (overwrite j ys xs) = window i j xs @ ys"
  by (simp add: window_def overwrite_def drop_take)

lemma window_overwrite_prepend:
  assumes "i + length ys \<le> j" "j \<le> length xs"
  shows "window i j (overwrite i ys xs) = ys @ window (i + length ys) j xs"
proof -
  have "take (j - i) (ys @ drop (i + length ys) xs)
      = ys @ take (j - i - length ys) (drop (i + length ys) xs)"
    using assms by simp
  then show ?thesis
    using assms by (simp add: window_def overwrite_def)
qed

lemma window_append_storage: "j \<le> length xs \<Longrightarrow> window i j (xs @ zs) = window i j xs"
  by (cases "i \<le> j") (simp_all add: window_def)

lemma window_drop: "i + n \<le> j \<Longrightarrow> window (i + n) j xs = drop n (window i j xs)"
  by (simp add: window_def drop_take add.commute)

lemma window_take: "n \<le> j - i \<Longrightarrow> i \<le> j \<Longrightarrow> window i (i + n) xs = take n (window i j xs)"
  by (simp add: window_def min_def)

subsection \<open>\<open>std::set\<close>: strictly sorted lists\<close>

abbreviation strict :: "'a::linorder list \<Rightarrow> bool" where
  "strict xs \<equiv> sorted_wrt (<) xs"

fun sset_insert :: "'a::linorder \<Rightarrow> 'a list \<Rightarrow> 'a list" where
  "sset_insert x [] = [x]"
| "sset_insert x (y # ys) =
     (if x < y then x # y # ys else if x = y then y # ys else y # sset_insert x ys)"

definition sset_erase :: "'a::linorder \<Rightarrow> 'a list \<Rightarrow> 'a list" where
  "sset_erase x xs = filter (\<lambda>y. y \<noteq> x) xs"

lemma set_sset_insert [simp]: "set (sset_insert x xs) = insert x (set xs)"
  by (induction xs) auto

lemma strict_sset_insert [simp]: "strict xs \<Longrightarrow> strict (sset_insert x xs)"
  by (induction xs) auto

lemma set_sset_erase [simp]: "set (sset_erase x xs) = set xs - {x}"
  by (auto simp: sset_erase_def)

lemma strict_sset_erase [simp]: "strict xs \<Longrightarrow> strict (sset_erase x xs)"
  by (simp add: sset_erase_def sorted_wrt_filter)

lemma strict_distinct: "strict xs \<Longrightarrow> distinct xs"
  by (induction xs) auto

lemma length_sset_insert:
  "strict xs \<Longrightarrow> length (sset_insert x xs) = (if x \<in> set xs then length xs else Suc (length xs))"
  by (induction xs) auto

lemma length_sset_erase:
  "strict xs \<Longrightarrow> length (sset_erase x xs) = (if x \<in> set xs then length xs - 1 else length xs)"
proof -
  assume s: "strict xs"
  have "length (sset_erase x xs) = card (set xs - {x})"
    using strict_distinct [OF strict_sset_erase [OF s, of x]]
    by (metis distinct_card set_sset_erase)
  then show ?thesis
    using strict_distinct [OF s] by (auto simp: distinct_card)
qed

lemma strict_hd_least: "strict xs \<Longrightarrow> x \<in> set xs \<Longrightarrow> hd xs \<le> x"
  by (cases xs) auto

lemma strict_sorted_unique: "strict xs \<Longrightarrow> strict ys \<Longrightarrow> set xs = set ys \<Longrightarrow> xs = ys"
  using strict_sorted_equal by blast

text \<open>\<open>lower_bound\<close>: the elements before the bound, and those from it on.\<close>

definition below :: "'a::linorder \<Rightarrow> 'a list \<Rightarrow> 'a list" where
  "below b xs = takeWhile (\<lambda>x. x < b) xs"

definition from_bound :: "'a::linorder \<Rightarrow> 'a list \<Rightarrow> 'a list" where
  "from_bound b xs = dropWhile (\<lambda>x. x < b) xs"

lemma below_from_bound [simp]: "below b xs @ from_bound b xs = xs"
  by (simp add: below_def from_bound_def)

lemma below_filter: "strict xs \<Longrightarrow> below b xs = filter (\<lambda>x. x < b) xs"
proof (induction xs)
  case (Cons x xs)
  then have "\<not> x < b \<Longrightarrow> filter (\<lambda>x. x < b) xs = []"
    by (auto simp: filter_empty_conv)
  with Cons show ?case by (simp add: below_def)
qed (simp add: below_def)

lemma from_bound_filter: "strict xs \<Longrightarrow> from_bound b xs = filter (\<lambda>x. \<not> x < b) xs"
proof (induction xs)
  case (Cons x xs)
  then have "\<not> x < b \<Longrightarrow> filter (\<lambda>x. \<not> x < b) xs = xs"
    by (auto simp: filter_id_conv)
  with Cons show ?case by (simp add: from_bound_def)
qed (simp add: from_bound_def)

subsection \<open>\<open>std::map\<close>: association lists with strictly sorted keys\<close>

fun amap_put :: "'k::linorder \<Rightarrow> 'v \<Rightarrow> ('k \<times> 'v) list \<Rightarrow> ('k \<times> 'v) list" where
  "amap_put k v [] = [(k, v)]"
| "amap_put k v ((k', v') # m) =
     (if k < k' then (k, v) # (k', v') # m
      else if k = k' then (k, v) # m else (k', v') # amap_put k v m)"

definition amap_erase :: "'k::linorder \<Rightarrow> ('k \<times> 'v) list \<Rightarrow> ('k \<times> 'v) list" where
  "amap_erase k m = filter (\<lambda>p. fst p \<noteq> k) m"

abbreviation amap_ok :: "('k::linorder \<times> 'v) list \<Rightarrow> bool" where
  "amap_ok m \<equiv> strict (map fst m)"

lemma fst_amap_put [simp]: "map fst (amap_put k v m) = sset_insert k (map fst m)"
  by (induction k v m rule: amap_put.induct) auto

lemma fst_amap_erase [simp]: "map fst (amap_erase k m) = sset_erase k (map fst m)"
  by (induction m) (auto simp: amap_erase_def sset_erase_def)

lemma map_of_amap_put [simp]: "map_of (amap_put k v m) = (map_of m)(k \<mapsto> v)"
  by (induction k v m rule: amap_put.induct) auto

lemma map_of_amap_erase [simp]: "map_of (amap_erase k m) = (map_of m)(k := None)"
  by (induction m) (auto simp: amap_erase_def)

subsection \<open>Counting in lists\<close>

lemma distinct_count_list: "distinct xs \<Longrightarrow> count_list xs x = (if x \<in> set xs then 1 else 0)"
  by (induction xs) auto

lemma filter_single: "i < n \<Longrightarrow> filter (\<lambda>j. j = i) [0..<n] = [i]"
proof (induction n)
  case (Suc n)
  then show ?case by (cases "i = n") (auto simp: filter_empty_conv)
qed simp

subsection \<open>Decimal printing\<close>

text \<open>What \<open>snprintf\<close> prints for \<open>%d\<close> and \<open>%0wd\<close>.\<close>

definition digit :: "nat \<Rightarrow> char" where
  "digit n = char_of (n + 48)"

fun dec_nat :: "nat \<Rightarrow> string" where
  "dec_nat n = (if n < 10 then [digit n] else dec_nat (n div 10) @ [digit (n mod 10)])"

declare dec_nat.simps [simp del]

definition dec_int :: "int \<Rightarrow> string" where
  "dec_int i = (if i < 0 then CHR ''-'' # dec_nat (nat (- i)) else dec_nat (nat i))"

lemma dec_int_of_nat [simp]: "dec_int (int n) = dec_nat n"
  by (simp add: dec_int_def)

definition pad0 :: "nat \<Rightarrow> string \<Rightarrow> string" where
  "pad0 w s = replicate (w - length s) (CHR ''0'') @ s"

definition digit_value :: "char \<Rightarrow> nat" where
  "digit_value c = of_char c - 48"

definition dec_value :: "string \<Rightarrow> nat" where
  "dec_value s = foldl (\<lambda>a c. 10 * a + digit_value c) 0 s"

lemma digit_value_digit [simp]: "n < 10 \<Longrightarrow> digit_value (digit n) = n"
  by (simp add: digit_value_def digit_def of_char_of)

lemma dec_value_dec_nat [simp]: "dec_value (dec_nat n) = n"
proof (induction n rule: dec_nat.induct)
  case (1 n)
  then show ?case
    by (subst dec_nat.simps) (auto simp: dec_value_def)
qed

lemma dec_nat_inj [simp]: "dec_nat m = dec_nat n \<longleftrightarrow> m = n"
  by (metis dec_value_dec_nat)

lemma dec_nat_not_Nil [simp]: "dec_nat n \<noteq> []"
  by (subst dec_nat.simps) simp

lemma dec_nat_digits: "c \<in> set (dec_nat n) \<Longrightarrow> \<exists>d<10. c = digit d"
proof (induction n rule: dec_nat.induct)
  case (1 n)
  from "1.prems" show ?case
    by (subst (asm) dec_nat.simps)
      (auto split: if_splits dest: "1.IH" intro: exI [of _ "n mod 10"])
qed

lemma length_dec_nat: "n < 10 ^ k \<Longrightarrow> 0 < k \<Longrightarrow> length (dec_nat n) \<le> k"
proof (induction n arbitrary: k rule: dec_nat.induct)
  case (1 n)
  show ?case
  proof (cases "n < 10")
    case True
    with "1.prems" show ?thesis by (subst dec_nat.simps) simp
  next
    case False
    then obtain k' where k: "k = Suc k'" and "0 < k'"
      using "1.prems" by (cases k; cases "k - 1") auto
    moreover have "n div 10 < 10 ^ k'"
      using "1.prems" k by (simp add: less_mult_imp_div_less mult.commute)
    ultimately have "length (dec_nat (n div 10)) \<le> k'"
      using "1.IH" [OF False] by simp
    with False k show ?thesis by (subst dec_nat.simps) simp
  qed
qed

end
