(* ===== verification/Endian.thy ===== *)
theory Endian
  imports Prelude
begin

text \<open>
  muduo/net/Endian.h: host and network byte order. The model is the little-endian host the
  build targets (x86-64, \<open>-march=native\<close>): \<open>memory n x\<close> is the \<open>n\<close> bytes that
  \<open>memcpy(p, &x, n)\<close> leaves in memory, lowest byte first, and \<open>load\<close> reads them back. The six conversion
  functions are byte swaps on that host. The lemmas show what every reader of the wire relies
  on: the bytes of a converted value are the big-endian bytes, and reading converts back.
\<close>

definition memory :: "nat \<Rightarrow> 'a::len word \<Rightarrow> byte list" where
  "memory n x = map (\<lambda>i. ucast (drop_bit (8 * i) x)) [0..<n]"

fun load :: "byte list \<Rightarrow> 'a::len word" where
  "load [] = 0"
| "load (b # bs) = ucast b OR push_bit 8 (load bs)"

definition byte_swap :: "nat \<Rightarrow> 'a::len word \<Rightarrow> 'a word" where
  "byte_swap n x = load (rev (memory n x))"

definition hostToNetwork64 :: "u64 \<Rightarrow> u64" where
  "hostToNetwork64 host64 = byte_swap 8 host64"

definition hostToNetwork32 :: "u32 \<Rightarrow> u32" where
  "hostToNetwork32 host32 = byte_swap 4 host32"

definition hostToNetwork16 :: "u16 \<Rightarrow> u16" where
  "hostToNetwork16 host16 = byte_swap 2 host16"

definition networkToHost64 :: "u64 \<Rightarrow> u64" where
  "networkToHost64 net64 = byte_swap 8 net64"

definition networkToHost32 :: "u32 \<Rightarrow> u32" where
  "networkToHost32 net32 = byte_swap 4 net32"

definition networkToHost16 :: "u16 \<Rightarrow> u16" where
  "networkToHost16 net16 = byte_swap 2 net16"

lemma length_memory [simp]: "length (memory n x) = n"
  by (simp add: memory_def)

lemma nth_memory [simp]: "i < n \<Longrightarrow> memory n x ! i = ucast (drop_bit (8 * i) x)"
  by (simp add: memory_def)

lemma bit_load:
  "bit (load bs :: 'a::len word) k \<longleftrightarrow>
     k < LENGTH('a) \<and> k div 8 < length bs \<and> bit (bs ! (k div 8)) (k mod 8)"
proof (induction bs arbitrary: k)
  case Nil
  then show ?case by simp
next
  case (Cons b bs)
  show ?case
  proof (cases "k < 8")
    case True
    then show ?thesis
      by (auto simp: bit_or_iff bit_push_bit_iff bit_ucast_iff)
  next
    case False
    then obtain j where j: "k = j + 8"
      by (metis add.commute le_Suc_ex not_less)
    have "\<not> bit b k"
      using False bit_imp_le_length [of b k] by auto
    with j show ?thesis
      by (auto simp: bit_or_iff bit_push_bit_iff bit_ucast_iff Cons.IH)
  qed
qed

lemma bit_memory:
  "i < n \<Longrightarrow> bit (memory n (x :: 'a::len word) ! i) k \<longleftrightarrow> k < 8 \<and> bit x (8 * i + k)"
  by (auto simp: bit_ucast_iff bit_drop_bit_eq)

lemma load_memory:
  assumes "LENGTH('a::len) = 8 * n"
  shows "load (memory n (x :: 'a word)) = x"
proof (rule bit_word_eqI)
  fix k
  assume "k < LENGTH('a)"
  with assms have "k div 8 < n" by auto
  with \<open>k < LENGTH('a)\<close> show "bit (load (memory n x) :: 'a word) k = bit x k"
    by (simp add: bit_load bit_memory del: nth_memory)
qed

lemma memory_load:
  assumes "LENGTH('a::len) = 8 * n" "length bs = n"
  shows "memory n (load bs :: 'a word) = bs"
proof (rule nth_equalityI)
  show "length (memory n (load bs :: 'a word)) = length bs"
    using assms by simp
next
  fix i
  assume "i < length (memory n (load bs :: 'a word))"
  then have i: "i < n" by simp
  show "memory n (load bs :: 'a word) ! i = bs ! i"
  proof (rule bit_word_eqI)
    fix k :: nat
    assume "k < LENGTH(8)"
    then have "k < 8" by simp
    moreover have "8 * i + k < 8 * n" using i \<open>k < 8\<close> by linarith
    ultimately show "bit (memory n (load bs :: 'a word) ! i) k = bit (bs ! i) k"
      using assms i by (simp add: bit_memory bit_load del: nth_memory)
  qed
qed

lemma memory_byte_swap:
  assumes "LENGTH('a::len) = 8 * n"
  shows "memory n (byte_swap n (x :: 'a word)) = rev (memory n x)"
  unfolding byte_swap_def by (rule memory_load [OF assms]) simp

lemma byte_swap_involution:
  assumes "LENGTH('a::len) = 8 * n"
  shows "byte_swap n (byte_swap n (x :: 'a word)) = x"
  by (simp add: byte_swap_def [of n "byte_swap n x"] memory_byte_swap [OF assms] load_memory [OF assms])

lemma networkToHost_hostToNetwork [simp]:
  "networkToHost64 (hostToNetwork64 a) = a"
  "networkToHost32 (hostToNetwork32 b) = b"
  "networkToHost16 (hostToNetwork16 c) = c"
  by (simp_all add: networkToHost64_def hostToNetwork64_def networkToHost32_def hostToNetwork32_def
      networkToHost16_def hostToNetwork16_def byte_swap_involution)

text \<open>The bytes of a value on the wire: most significant byte first.\<close>

definition big_endian :: "nat \<Rightarrow> 'a::len word \<Rightarrow> byte list" where
  "big_endian n x = rev (memory n x)"

lemma memory_hostToNetwork [simp]:
  "memory 8 (hostToNetwork64 a) = big_endian 8 a"
  "memory 4 (hostToNetwork32 b) = big_endian 4 b"
  "memory 2 (hostToNetwork16 c) = big_endian 2 c"
  by (simp_all add: hostToNetwork64_def hostToNetwork32_def hostToNetwork16_def
      memory_byte_swap big_endian_def)

lemma length_big_endian [simp]: "length (big_endian n x) = n"
  by (simp add: big_endian_def)

text \<open>Reading back what the wire holds gives the value that was written.\<close>

lemma network_load [simp]:
  "networkToHost64 (load (big_endian 8 a)) = a"
  "networkToHost32 (load (big_endian 4 b)) = b"
  "networkToHost16 (load (big_endian 2 c)) = c"
proof -
  have "load (big_endian 8 a) = hostToNetwork64 a" "load (big_endian 4 b) = hostToNetwork32 b"
    "load (big_endian 2 c) = hostToNetwork16 c"
    by (simp_all add: big_endian_def hostToNetwork64_def hostToNetwork32_def hostToNetwork16_def
        byte_swap_def)
  then show "networkToHost64 (load (big_endian 8 a)) = a"
    "networkToHost32 (load (big_endian 4 b)) = b"
    "networkToHost16 (load (big_endian 2 c)) = c"
    by simp_all
qed

end
