(* ===== verification/Net_Buffer.thy ===== *)
theory Net_Buffer
  imports Endian
begin

text \<open>
  muduo/net/Buffer.h and Buffer.cc: the byte buffer between a socket and its user. The storage is
  the \<open>vector<char>\<close>, the two indices are \<open>readerIndex_\<close> and \<open>writerIndex_\<close>. A pointer into the
  buffer is its offset from \<open>begin()\<close>; NULL is None. Sizes are naturals: the code's \<open>size_t\<close>
  differences never wrap on a buffer that satisfies \<open>buffer_ok\<close> (which every operation keeps), and
  no storage comes near \<open>2 ^ 64\<close> bytes.

  The abstraction is \<open>contents\<close>, the readable bytes. The lemmas in \<open>abs_simps\<close> say how every
  operation acts on it; the locale \<open>byte_stream\<close> states the first-in-first-out contract the clients
  of the buffer rely on, and the buffer is an interpretation of it.
\<close>

abbreviation NUL :: char where "NUL \<equiv> CHR 0x00"
abbreviation CR :: char where "CR \<equiv> CHR 0x0D"
abbreviation LF :: char where "LF \<equiv> CHR 0x0A"

record buffer =
  storage :: string
  readerIndex :: nat
  writerIndex :: nat

definition kCheapPrepend :: nat where "kCheapPrepend = 8"
definition kInitialSize :: nat where "kInitialSize = 1024"

definition new_Buffer :: "nat \<Rightarrow> buffer" where
  "new_Buffer initialSize =
     \<lparr>storage = replicate (kCheapPrepend + initialSize) NUL,
      readerIndex = kCheapPrepend, writerIndex = kCheapPrepend\<rparr>"

definition readableBytes :: "buffer \<Rightarrow> nat" where
  "readableBytes b = writerIndex b - readerIndex b"

definition writableBytes :: "buffer \<Rightarrow> nat" where
  "writableBytes b = length (storage b) - writerIndex b"

definition prependableBytes :: "buffer \<Rightarrow> nat" where
  "prependableBytes b = readerIndex b"

definition peek :: "buffer \<Rightarrow> nat" where
  "peek b = readerIndex b"

definition beginWrite :: "buffer \<Rightarrow> nat" where
  "beginWrite b = writerIndex b"

definition contents :: "buffer \<Rightarrow> string" where
  "contents b = window (readerIndex b) (writerIndex b) (storage b)"

definition buffer_ok :: "buffer \<Rightarrow> bool" where
  "buffer_ok b \<longleftrightarrow> readerIndex b \<le> writerIndex b \<and> writerIndex b \<le> length (storage b)
     \<and> kCheapPrepend \<le> length (storage b)"

subsection \<open>Searching\<close>

text \<open>\<open>std::search\<close> for the two bytes of \<open>kCRLF\<close> and \<open>memchr\<close>, both from a given offset.\<close>

fun search_crlf :: "nat \<Rightarrow> string \<Rightarrow> nat option" where
  "search_crlf i (a # b # s) =
     (if a = CR \<and> b = LF then Some i else search_crlf (Suc i) (b # s))"
| "search_crlf i s = None"

fun search_char :: "char \<Rightarrow> nat \<Rightarrow> string \<Rightarrow> nat option" where
  "search_char c i [] = None"
| "search_char c i (a # s) = (if a = c then Some i else search_char c (Suc i) s)"

definition findCRLF :: "buffer \<Rightarrow> nat option" where
  "findCRLF b = search_crlf (peek b) (window (peek b) (beginWrite b) (storage b))"

definition findCRLF_from :: "buffer \<Rightarrow> nat \<Rightarrow> nat option option" where
  "findCRLF_from b start = do {
     require (peek b \<le> start);
     require (start \<le> beginWrite b);
     Some (search_crlf start (window start (beginWrite b) (storage b))) }"

definition findEOL :: "buffer \<Rightarrow> nat option" where
  "findEOL b = search_char LF (peek b) (window (peek b) (beginWrite b) (storage b))"

definition findEOL_from :: "buffer \<Rightarrow> nat \<Rightarrow> nat option option" where
  "findEOL_from b start = do {
     require (peek b \<le> start);
     require (start \<le> beginWrite b);
     Some (search_char LF start (window start (beginWrite b) (storage b))) }"

subsection \<open>Retrieving\<close>

definition retrieveAll :: "buffer \<Rightarrow> buffer" where
  "retrieveAll b = b\<lparr>readerIndex := kCheapPrepend, writerIndex := kCheapPrepend\<rparr>"

definition retrieve :: "buffer \<Rightarrow> nat \<Rightarrow> buffer option" where
  "retrieve b len = do {
     require (len \<le> readableBytes b);
     if len < readableBytes b then Some (b\<lparr>readerIndex := readerIndex b + len\<rparr>)
     else Some (retrieveAll b) }"

definition retrieveUntil :: "buffer \<Rightarrow> nat \<Rightarrow> buffer option" where
  "retrieveUntil b end_ptr = do {
     require (peek b \<le> end_ptr);
     require (end_ptr \<le> beginWrite b);
     retrieve b (end_ptr - peek b) }"

definition retrieveAsString :: "buffer \<Rightarrow> nat \<Rightarrow> (string \<times> buffer) option" where
  "retrieveAsString b len = do {
     require (len \<le> readableBytes b);
     let result = window (peek b) (peek b + len) (storage b);
     b' \<leftarrow> retrieve b len;
     Some (result, b') }"

definition retrieveAllAsString :: "buffer \<Rightarrow> (string \<times> buffer) option" where
  "retrieveAllAsString b = retrieveAsString b (readableBytes b)"

definition toStringPiece :: "buffer \<Rightarrow> string" where
  "toStringPiece b = window (peek b) (peek b + readableBytes b) (storage b)"

subsection \<open>Making room and appending\<close>

definition vector_resize :: "nat \<Rightarrow> string \<Rightarrow> string" where
  "vector_resize n v = take n v @ replicate (n - length v) NUL"

definition makeSpace :: "buffer \<Rightarrow> nat \<Rightarrow> buffer option" where
  "makeSpace b len =
     (if writableBytes b + prependableBytes b < len + kCheapPrepend
      then Some (b\<lparr>storage := vector_resize (writerIndex b + len) (storage b)\<rparr>)
      else do {
        require (kCheapPrepend < readerIndex b);
        let readable = readableBytes b;
        let b' = b\<lparr>storage := overwrite kCheapPrepend
                       (window (readerIndex b) (writerIndex b) (storage b)) (storage b),
                   readerIndex := kCheapPrepend, writerIndex := kCheapPrepend + readable\<rparr>;
        require (readable = readableBytes b');
        Some b' })"

definition ensureWritableBytes :: "buffer \<Rightarrow> nat \<Rightarrow> buffer option" where
  "ensureWritableBytes b len = do {
     b' \<leftarrow> (if writableBytes b < len then makeSpace b len else Some b);
     require (len \<le> writableBytes b');
     Some b' }"

definition hasWritten :: "buffer \<Rightarrow> nat \<Rightarrow> buffer option" where
  "hasWritten b len = do {
     require (len \<le> writableBytes b);
     Some (b\<lparr>writerIndex := writerIndex b + len\<rparr>) }"

definition unwrite :: "buffer \<Rightarrow> nat \<Rightarrow> buffer option" where
  "unwrite b len = do {
     require (len \<le> readableBytes b);
     Some (b\<lparr>writerIndex := writerIndex b - len\<rparr>) }"

definition buffer_append :: "buffer \<Rightarrow> string \<Rightarrow> buffer option" where
  "buffer_append b data = do {
     b1 \<leftarrow> ensureWritableBytes b (length data);
     hasWritten (b1\<lparr>storage := overwrite (beginWrite b1) data (storage b1)\<rparr>) (length data) }"

definition prepend :: "buffer \<Rightarrow> string \<Rightarrow> buffer option" where
  "prepend b data = do {
     require (length data \<le> prependableBytes b);
     let r = readerIndex b - length data;
     Some (b\<lparr>readerIndex := r, storage := overwrite r data (storage b)\<rparr>) }"

definition swap_Buffer :: "buffer \<Rightarrow> buffer \<Rightarrow> buffer \<times> buffer" where
  "swap_Buffer b rhs = (rhs, b)"

definition shrink :: "buffer \<Rightarrow> nat \<Rightarrow> buffer option" where
  "shrink b reserve = do {
     other \<leftarrow> ensureWritableBytes (new_Buffer kInitialSize) (readableBytes b + reserve);
     other \<leftarrow> buffer_append other (toStringPiece b);
     Some (fst (swap_Buffer b other)) }"

subsection \<open>Integers on the wire\<close>

definition chars_of :: "byte list \<Rightarrow> string" where
  "chars_of bs = map char_of_byte bs"

definition bytes_of :: "string \<Rightarrow> byte list" where
  "bytes_of s = map byte_of_char s"

definition appendInt64 :: "buffer \<Rightarrow> u64 \<Rightarrow> buffer option" where
  "appendInt64 b x = buffer_append b (chars_of (memory 8 (hostToNetwork64 x)))"

definition appendInt32 :: "buffer \<Rightarrow> u32 \<Rightarrow> buffer option" where
  "appendInt32 b x = buffer_append b (chars_of (memory 4 (hostToNetwork32 x)))"

definition appendInt16 :: "buffer \<Rightarrow> u16 \<Rightarrow> buffer option" where
  "appendInt16 b x = buffer_append b (chars_of (memory 2 (hostToNetwork16 x)))"

definition appendInt8 :: "buffer \<Rightarrow> byte \<Rightarrow> buffer option" where
  "appendInt8 b x = buffer_append b (chars_of [x])"

definition peek_bytes :: "buffer \<Rightarrow> nat \<Rightarrow> byte list" where
  "peek_bytes b n = bytes_of (window (peek b) (peek b + n) (storage b))"

definition peekInt64 :: "buffer \<Rightarrow> u64 option" where
  "peekInt64 b = do {
     require (8 \<le> readableBytes b);
     Some (networkToHost64 (load (peek_bytes b 8))) }"

definition peekInt32 :: "buffer \<Rightarrow> u32 option" where
  "peekInt32 b = do {
     require (4 \<le> readableBytes b);
     Some (networkToHost32 (load (peek_bytes b 4))) }"

definition peekInt16 :: "buffer \<Rightarrow> u16 option" where
  "peekInt16 b = do {
     require (2 \<le> readableBytes b);
     Some (networkToHost16 (load (peek_bytes b 2))) }"

definition peekInt8 :: "buffer \<Rightarrow> byte option" where
  "peekInt8 b = do {
     require (1 \<le> readableBytes b);
     Some (byte_of_char (storage b ! peek b)) }"

text \<open>The added reader of the reserve: the first four bytes of the storage, no assertion.\<close>

definition peekInt32_FromReserve :: "buffer \<Rightarrow> u32" where
  "peekInt32_FromReserve b = networkToHost32 (load (bytes_of (take 4 (storage b))))"

definition readInt64 :: "buffer \<Rightarrow> (u64 \<times> buffer) option" where
  "readInt64 b = do { x \<leftarrow> peekInt64 b; b' \<leftarrow> retrieve b 8; Some (x, b') }"

definition readInt32 :: "buffer \<Rightarrow> (u32 \<times> buffer) option" where
  "readInt32 b = do { x \<leftarrow> peekInt32 b; b' \<leftarrow> retrieve b 4; Some (x, b') }"

definition readInt16 :: "buffer \<Rightarrow> (u16 \<times> buffer) option" where
  "readInt16 b = do { x \<leftarrow> peekInt16 b; b' \<leftarrow> retrieve b 2; Some (x, b') }"

definition readInt8 :: "buffer \<Rightarrow> (byte \<times> buffer) option" where
  "readInt8 b = do { x \<leftarrow> peekInt8 b; b' \<leftarrow> retrieve b 1; Some (x, b') }"

definition prependInt64 :: "buffer \<Rightarrow> u64 \<Rightarrow> buffer option" where
  "prependInt64 b x = prepend b (chars_of (memory 8 (hostToNetwork64 x)))"

definition prependInt32 :: "buffer \<Rightarrow> u32 \<Rightarrow> buffer option" where
  "prependInt32 b x = prepend b (chars_of (memory 4 (hostToNetwork32 x)))"

definition prependInt16 :: "buffer \<Rightarrow> u16 \<Rightarrow> buffer option" where
  "prependInt16 b x = prepend b (chars_of (memory 2 (hostToNetwork16 x)))"

definition prependInt8 :: "buffer \<Rightarrow> byte \<Rightarrow> buffer option" where
  "prependInt8 b x = prepend b (chars_of [x])"

subsection \<open>Reading from a descriptor\<close>

text \<open>
  \<open>readv\<close> fills the writable tail of the storage first and the 64 KiB of \<open>extrabuf\<close> after it.
  Its answer is an argument: an errno, or the bytes it delivered, at most \<open>readv_room\<close> of them.
\<close>

datatype read_answer = Read_Error int | Read_Data string

definition extrabuf_size :: nat where "extrabuf_size = 65536"

definition readv_room :: "buffer \<Rightarrow> nat" where
  "readv_room b =
     (let writable = writableBytes b;
          iovcnt = (if writable < extrabuf_size then 2 else 1 :: nat)
      in if iovcnt = 2 then writable + extrabuf_size else writable)"

text \<open>The result is \<open>n\<close>, the errno saved for the caller (if any) and the buffer.\<close>

fun readFd :: "buffer \<Rightarrow> read_answer \<Rightarrow> (int \<times> int option \<times> buffer) option" where
  "readFd b (Read_Error e) = Some (-1, Some e, b)"
| "readFd b (Read_Data data) =
     (let writable = writableBytes b;
          n = length data;
          b1 = b\<lparr>storage := overwrite (writerIndex b) (take writable data) (storage b)\<rparr>
      in if n \<le> writable
         then Some (int n, None, b1\<lparr>writerIndex := writerIndex b1 + n\<rparr>)
         else do {
           b2 \<leftarrow> buffer_append (b1\<lparr>writerIndex := length (storage b1)\<rparr>) (drop writable data);
           Some (int n, None, b2) })"

subsection \<open>The invariant and the abstraction\<close>

lemma buffer_okD [dest]:
  "buffer_ok b \<Longrightarrow> readerIndex b \<le> writerIndex b"
  "buffer_ok b \<Longrightarrow> writerIndex b \<le> length (storage b)"
  "buffer_ok b \<Longrightarrow> kCheapPrepend \<le> length (storage b)"
  by (simp_all add: buffer_ok_def)

lemma length_contents: "buffer_ok b \<Longrightarrow> length (contents b) = readableBytes b"
  by (auto simp: contents_def readableBytes_def buffer_ok_def min_def)

lemma window_peek: "window (peek b) (beginWrite b) (storage b) = contents b"
  by (simp add: contents_def peek_def beginWrite_def)

lemma take_contents:
  "buffer_ok b \<Longrightarrow> n \<le> readableBytes b \<Longrightarrow>
   window (peek b) (peek b + n) (storage b) = take n (contents b)"
  by (simp add: contents_def peek_def readableBytes_def buffer_ok_def window_take)

lemma toStringPiece_contents [abs_simps]: "buffer_ok b \<Longrightarrow> toStringPiece b = contents b"
  by (simp add: toStringPiece_def take_contents length_contents [symmetric])

lemma new_Buffer_ok [inv_intros, simp]: "buffer_ok (new_Buffer n)"
  by (simp add: buffer_ok_def new_Buffer_def)

lemma contents_new_Buffer [abs_simps, simp]: "contents (new_Buffer n) = []"
  by (simp add: contents_def new_Buffer_def)

text \<open>The three assertions of the constructor.\<close>

lemma new_Buffer_asserts:
  "readableBytes (new_Buffer n) = 0" "writableBytes (new_Buffer n) = n"
  "prependableBytes (new_Buffer n) = kCheapPrepend"
  by (simp_all add: new_Buffer_def readableBytes_def writableBytes_def prependableBytes_def)

lemma retrieveAll_abs [abs_simps]:
  "buffer_ok b \<Longrightarrow> buffer_ok (retrieveAll b) \<and> contents (retrieveAll b) = []"
  by (simp add: retrieveAll_def buffer_ok_def contents_def)

lemma retrieve_abs:
  assumes "buffer_ok b" "n \<le> length (contents b)"
  shows "\<exists>b'. retrieve b n = Some b' \<and> buffer_ok b' \<and> contents b' = drop n (contents b)"
proof (cases "n < readableBytes b")
  case True
  then show ?thesis
    using assms by (auto simp: retrieve_def length_contents contents_def buffer_ok_def
        readableBytes_def window_drop)
next
  case False
  then show ?thesis
    using assms retrieveAll_abs [of b] by (auto simp: retrieve_def length_contents)
qed

lemma retrieve_fails: "buffer_ok b \<Longrightarrow> length (contents b) < n \<Longrightarrow> retrieve b n = None"
  by (simp add: retrieve_def length_contents)

lemma retrieve_Some_iff:
  "buffer_ok b \<Longrightarrow> retrieve b n \<noteq> None \<longleftrightarrow> n \<le> length (contents b)"
  using retrieve_abs retrieve_fails by (metis not_le option.distinct(1))

lemma retrieveUntil_abs:
  assumes "buffer_ok b" "n \<le> length (contents b)"
  shows "\<exists>b'. retrieveUntil b (peek b + n) = Some b' \<and> buffer_ok b' \<and> contents b' = drop n (contents b)"
  using retrieve_abs [OF assms] assms
  by (auto simp: retrieveUntil_def peek_def beginWrite_def length_contents readableBytes_def buffer_ok_def)

lemma retrieveAsString_abs:
  assumes "buffer_ok b" "n \<le> length (contents b)"
  shows "\<exists>b'. retrieveAsString b n = Some (take n (contents b), b') \<and> buffer_ok b'
           \<and> contents b' = drop n (contents b)"
  using retrieve_abs [OF assms] assms
  by (auto simp: retrieveAsString_def length_contents take_contents)

lemma retrieveAllAsString_abs:
  assumes "buffer_ok b"
  shows "\<exists>b'. retrieveAllAsString b = Some (contents b, b') \<and> buffer_ok b' \<and> contents b' = []"
  using retrieveAsString_abs [OF assms order_refl] assms
  by (simp add: retrieveAllAsString_def length_contents)

lemma length_vector_resize [simp]: "length (vector_resize n v) = n"
  by (simp add: vector_resize_def)

lemma window_vector_resize:
  "j \<le> length v \<Longrightarrow> length v \<le> n \<Longrightarrow> window i j (vector_resize n v) = window i j v"
  by (simp add: vector_resize_def window_append_storage)

text \<open>
  \<open>makeSpace\<close> never trips its assertions when it is called (the caller found too little room),
  keeps the readable bytes and makes the room asked for.
\<close>

lemma makeSpace_abs:
  assumes ok: "buffer_ok b" and small: "writableBytes b < len"
  shows "\<exists>b'. makeSpace b len = Some b' \<and> buffer_ok b' \<and> contents b' = contents b
           \<and> len \<le> writableBytes b'"
proof (cases "writableBytes b + prependableBytes b < len + kCheapPrepend")
  case True
  then show ?thesis
    using ok small
    by (auto simp: makeSpace_def buffer_ok_def contents_def writableBytes_def window_vector_resize)
next
  case False
  let ?c = "contents b"
  have gap: "kCheapPrepend < readerIndex b"
    using False small by (simp add: prependableBytes_def)
  have fits: "kCheapPrepend + length ?c \<le> length (storage b)"
    using ok gap by (auto simp: length_contents readableBytes_def buffer_ok_def)
  define b' where "b' = b\<lparr>storage := overwrite kCheapPrepend ?c (storage b),
      readerIndex := kCheapPrepend, writerIndex := kCheapPrepend + readableBytes b\<rparr>"
  have "makeSpace b len = Some b'"
    using False gap by (simp add: makeSpace_def b'_def contents_def Let_def readableBytes_def)
  moreover have "buffer_ok b'"
    using fits length_overwrite [OF fits] ok [THEN buffer_okD(3)]
    by (simp add: b'_def buffer_ok_def length_contents [OF ok])
  moreover have "contents b' = ?c"
    unfolding contents_def [of b']
    using window_overwrite_same [OF fits] ok by (simp add: b'_def length_contents)
  moreover have "len \<le> writableBytes b'"
    using False ok fits by (auto simp: b'_def writableBytes_def prependableBytes_def readableBytes_def
        buffer_ok_def length_contents)
  ultimately show ?thesis by blast
qed

lemma ensureWritableBytes_abs:
  assumes "buffer_ok b"
  shows "\<exists>b'. ensureWritableBytes b len = Some b' \<and> buffer_ok b' \<and> contents b' = contents b
           \<and> len \<le> writableBytes b'"
  using makeSpace_abs [OF assms] assms
  by (cases "writableBytes b < len") (fastforce simp: ensureWritableBytes_def)+

lemma hasWritten_abs:
  assumes "buffer_ok b" "length data \<le> writableBytes b"
  shows "\<exists>b'. hasWritten (b\<lparr>storage := overwrite (writerIndex b) data (storage b)\<rparr>) (length data) = Some b'
           \<and> buffer_ok b' \<and> contents b' = contents b @ data"
  using assms
  by (auto simp: hasWritten_def writableBytes_def buffer_ok_def contents_def window_overwrite_append)

lemma buffer_append_abs:
  assumes "buffer_ok b"
  shows "\<exists>b'. buffer_append b data = Some b' \<and> buffer_ok b' \<and> contents b' = contents b @ data"
proof -
  obtain b1 where b1: "ensureWritableBytes b (length data) = Some b1" "buffer_ok b1"
      "contents b1 = contents b" "length data \<le> writableBytes b1"
    using ensureWritableBytes_abs [OF assms] by blast
  then show ?thesis
    using hasWritten_abs [OF b1(2,4)] by (simp add: buffer_append_def beginWrite_def)
qed

lemma buffer_append_SomeD [dest]:
  "buffer_append b d = Some b' \<Longrightarrow> buffer_ok b \<Longrightarrow> buffer_ok b' \<and> contents b' = contents b @ d"
  using buffer_append_abs [of b d] by auto

lemma unwrite_abs:
  assumes "buffer_ok b" "n \<le> length (contents b)"
  shows "\<exists>b'. unwrite b n = Some b' \<and> buffer_ok b'
           \<and> contents b' = take (length (contents b) - n) (contents b)"
proof -
  have n: "n \<le> writerIndex b - readerIndex b"
    using assms by (simp add: length_contents readableBytes_def)
  have "length (contents b) - n = writerIndex b - n - readerIndex b"
    using assms(1) by (simp add: length_contents readableBytes_def)
  then have "window (readerIndex b) (writerIndex b - n) (storage b)
      = take (length (contents b) - n) (contents b)"
    by (simp add: contents_def window_def)
  with assms n show ?thesis
    by (auto simp: unwrite_def length_contents readableBytes_def buffer_ok_def
        contents_def [of "writerIndex_update _ _"])
qed

lemma prepend_abs:
  assumes "buffer_ok b" "length data \<le> prependableBytes b"
  shows "\<exists>b'. prepend b data = Some b' \<and> buffer_ok b' \<and> contents b' = data @ contents b
           \<and> prependableBytes b' = prependableBytes b - length data"
  using assms
  by (auto simp: prepend_def prependableBytes_def buffer_ok_def contents_def
      window_overwrite_prepend Let_def)

lemma prepend_fails: "prependableBytes b < length data \<Longrightarrow> prepend b data = None"
  by (simp add: prepend_def)

lemma shrink_abs:
  assumes "buffer_ok b"
  shows "\<exists>b'. shrink b r = Some b' \<and> buffer_ok b' \<and> contents b' = contents b
           \<and> prependableBytes b' = kCheapPrepend \<and> r \<le> writableBytes b'"
proof -
  let ?n = "readableBytes b + r"
  obtain o1 where o1: "ensureWritableBytes (new_Buffer kInitialSize) ?n = Some o1" "buffer_ok o1"
      "contents o1 = []" "?n \<le> writableBytes o1"
    using ensureWritableBytes_abs [OF new_Buffer_ok] by fastforce
  have at: "readerIndex o1 = kCheapPrepend"
    using o1(1) by (auto simp: ensureWritableBytes_def makeSpace_def new_Buffer_def run_simps Let_def
        split: if_splits)
  have rb: "readableBytes b \<le> writableBytes o1" using o1(4) by simp
  have "buffer_append o1 (toStringPiece b)
      = hasWritten (o1\<lparr>storage := overwrite (writerIndex o1) (contents b) (storage o1)\<rparr>) (readableBytes b)"
    using assms rb by (simp add: buffer_append_def ensureWritableBytes_def beginWrite_def
        toStringPiece_contents length_contents)
  then show ?thesis
    using o1 at rb assms hasWritten_abs [OF o1(2), of "contents b"]
    by (auto simp: shrink_def swap_Buffer_def length_contents hasWritten_def prependableBytes_def
        writableBytes_def run_simps)
qed

lemma readFd_abs:
  assumes ok: "buffer_ok b" and room: "length data \<le> readv_room b"
  shows "\<exists>b'. readFd b (Read_Data data) = Some (int (length data), None, b') \<and> buffer_ok b'
           \<and> contents b' = contents b @ data"
proof (cases "length data \<le> writableBytes b")
  case True
  then show ?thesis
    using hasWritten_abs [OF ok True] by (auto simp: hasWritten_def Let_def run_simps)
next
  case False
  let ?w = "writableBytes b"
  let ?b1 = "b\<lparr>storage := overwrite (writerIndex b) (take ?w data) (storage b),
               writerIndex := length (storage b)\<rparr>"
  have len: "length (take ?w data) = ?w" using False by simp
  have end1: "writerIndex b + ?w = length (storage b)"
    using ok by (auto simp: writableBytes_def buffer_ok_def)
  have "buffer_ok ?b1"
    using ok len end1 by (auto simp: buffer_ok_def)
  moreover have "contents ?b1 = contents b @ take ?w data"
    using ok len end1 window_overwrite_append [of "readerIndex b" "writerIndex b" "take ?w data" "storage b"]
    by (simp add: contents_def buffer_ok_def)
  ultimately obtain b' where "buffer_append ?b1 (drop ?w data) = Some b'" "buffer_ok b'"
      "contents b' = contents b @ data"
    using buffer_append_abs [of ?b1 "drop ?w data"] by auto
  then show ?thesis
    using False len end1 by (simp add: Let_def)
qed

lemmas buffer_abs = buffer_append_abs retrieve_abs prepend_abs unwrite_abs shrink_abs
  ensureWritableBytes_abs retrieveAll_abs

subsection \<open>Integers: what is appended or prepended is read back\<close>

lemma chars_bytes [simp]: "bytes_of (chars_of bs) = bs" "length (chars_of bs) = length bs"
  by (induction bs) (simp_all add: bytes_of_def chars_of_def)

lemma peek_bytes_contents:
  "buffer_ok b \<Longrightarrow> n \<le> length (contents b) \<Longrightarrow> peek_bytes b n = bytes_of (take n (contents b))"
  by (simp add: peek_bytes_def take_contents length_contents)

text \<open>A buffer that starts with the wire form of a value gives that value and what follows it.\<close>

lemma peekInt_front:
  assumes "buffer_ok b"
  shows "contents b = chars_of (big_endian 8 x) @ rest \<Longrightarrow> peekInt64 b = Some x"
    and "contents b = chars_of (big_endian 4 y) @ rest \<Longrightarrow> peekInt32 b = Some y"
    and "contents b = chars_of (big_endian 2 z) @ rest \<Longrightarrow> peekInt16 b = Some z"
  using assms length_contents [OF assms]
  by (auto simp: peekInt64_def peekInt32_def peekInt16_def peek_bytes_contents)

lemma peekInt8_front:
  assumes "buffer_ok b" "contents b = chars_of [x] @ rest"
  shows "peekInt8 b = Some x"
proof -
  have "0 < readableBytes b" using assms by (simp add: length_contents [symmetric])
  then have "storage b ! peek b = contents b ! 0"
    using assms(1) by (simp add: contents_def peek_def readableBytes_def nth_window buffer_ok_def)
  with assms \<open>0 < readableBytes b\<close> show ?thesis
    by (simp add: peekInt8_def chars_of_def)
qed

lemma readInt_front:
  assumes ok: "buffer_ok b"
  shows "contents b = chars_of (big_endian 8 x) @ rest \<Longrightarrow>
           \<exists>b'. readInt64 b = Some (x, b') \<and> buffer_ok b' \<and> contents b' = rest"
    and "contents b = chars_of (big_endian 4 y) @ rest \<Longrightarrow>
           \<exists>b'. readInt32 b = Some (y, b') \<and> buffer_ok b' \<and> contents b' = rest"
    and "contents b = chars_of (big_endian 2 z) @ rest \<Longrightarrow>
           \<exists>b'. readInt16 b = Some (z, b') \<and> buffer_ok b' \<and> contents b' = rest"
    and "contents b = chars_of [w] @ rest \<Longrightarrow>
           \<exists>b'. readInt8 b = Some (w, b') \<and> buffer_ok b' \<and> contents b' = rest"
  using retrieve_abs [OF ok, of 8] retrieve_abs [OF ok, of 4] retrieve_abs [OF ok, of 2]
    retrieve_abs [OF ok, of 1]
  by (auto simp: readInt64_def readInt32_def readInt16_def readInt8_def
      peekInt_front [OF ok] peekInt8_front [OF ok])

lemma appendInt_abs:
  assumes "buffer_ok b"
  shows "\<exists>b'. appendInt64 b x = Some b' \<and> buffer_ok b' \<and> contents b' = contents b @ chars_of (big_endian 8 x)"
    and "\<exists>b'. appendInt32 b y = Some b' \<and> buffer_ok b' \<and> contents b' = contents b @ chars_of (big_endian 4 y)"
    and "\<exists>b'. appendInt16 b z = Some b' \<and> buffer_ok b' \<and> contents b' = contents b @ chars_of (big_endian 2 z)"
    and "\<exists>b'. appendInt8 b w = Some b' \<and> buffer_ok b' \<and> contents b' = contents b @ chars_of [w]"
  using buffer_append_abs [OF assms]
  by (simp_all add: appendInt64_def appendInt32_def appendInt16_def appendInt8_def)

lemma prependInt_abs:
  assumes "buffer_ok b"
  shows "8 \<le> prependableBytes b \<Longrightarrow> \<exists>b'. prependInt64 b x = Some b' \<and> buffer_ok b'
           \<and> contents b' = chars_of (big_endian 8 x) @ contents b"
    and "4 \<le> prependableBytes b \<Longrightarrow> \<exists>b'. prependInt32 b y = Some b' \<and> buffer_ok b'
           \<and> contents b' = chars_of (big_endian 4 y) @ contents b"
    and "2 \<le> prependableBytes b \<Longrightarrow> \<exists>b'. prependInt16 b z = Some b' \<and> buffer_ok b'
           \<and> contents b' = chars_of (big_endian 2 z) @ contents b"
    and "1 \<le> prependableBytes b \<Longrightarrow> \<exists>b'. prependInt8 b w = Some b' \<and> buffer_ok b'
           \<and> contents b' = chars_of [w] @ contents b"
  using prepend_abs [OF assms, of "chars_of (big_endian 8 x)"]
    prepend_abs [OF assms, of "chars_of (big_endian 4 y)"]
    prepend_abs [OF assms, of "chars_of (big_endian 2 z)"]
    prepend_abs [OF assms, of "chars_of [w]"]
  by (auto simp: prependInt64_def prependInt32_def prependInt16_def prependInt8_def)

subsection \<open>Searching finds the first occurrence\<close>

lemma search_crlf_Some:
  "search_crlf i s = Some k \<Longrightarrow> \<exists>n. k = i + n \<and> Suc n < length s \<and> s ! n = CR \<and> s ! Suc n = LF
     \<and> (\<forall>m<n. \<not> (s ! m = CR \<and> s ! Suc m = LF))"
proof (induction i s rule: search_crlf.induct)
  case (1 i a b s)
  show ?case
  proof (cases "a = CR \<and> b = LF")
    case True
    with "1.prems" show ?thesis by (intro exI [of _ 0]) auto
  next
    case False
    with "1.prems" obtain n where n: "k = Suc i + n" "Suc n < length (b # s)" "(b # s) ! n = CR"
        "(b # s) ! Suc n = LF" "\<forall>m<n. \<not> ((b # s) ! m = CR \<and> (b # s) ! Suc m = LF)"
      using "1.IH" by auto
    have "\<forall>m<Suc n. \<not> ((a # b # s) ! m = CR \<and> (a # b # s) ! Suc m = LF)"
      using n(5) False by (auto simp: less_Suc_eq_0_disj)
    with n(1-4) show ?thesis by (intro exI [of _ "Suc n"]) auto
  qed
qed simp_all

lemma search_crlf_None: "search_crlf i s = None \<Longrightarrow> Suc n < length s \<Longrightarrow> \<not> (s ! n = CR \<and> s ! Suc n = LF)"
proof (induction i s arbitrary: n rule: search_crlf.induct)
  case (1 i a b s)
  then show ?case by (cases n) (auto split: if_splits)
qed simp_all

lemma search_crlf_shift: "search_crlf (j + i) s = map_option ((+) j) (search_crlf i s)"
  by (induction i s rule: search_crlf.induct) auto

lemma search_char_Some:
  "search_char c i s = Some k \<longleftrightarrow> (\<exists>n<length s. k = i + n \<and> s ! n = c \<and> (\<forall>m<n. s ! m \<noteq> c))"
proof (induction s arbitrary: i)
  case (Cons a s)
  show ?case
    by (cases "a = c") (auto simp: Cons.IH Ex_less_Suc2 All_less_Suc2)
qed simp

text \<open>\<open>findCRLF\<close> returns the first CRLF of the contents, or NULL when there is none.\<close>

lemma findCRLF_abs:
  "buffer_ok b \<Longrightarrow> findCRLF b = map_option ((+) (peek b)) (search_crlf 0 (contents b))"
  using search_crlf_shift [of "peek b" 0 "contents b"]
  by (simp add: findCRLF_def window_peek)

subsection \<open>The contract of a byte stream\<close>

text \<open>
  Two operations on a state with a byte-string abstraction: pushing always succeeds and adds at
  the end, popping takes from the front and is refused exactly when there is too little.
\<close>

datatype stream_op = Push string | Pop nat

fun run_stream :: "('b \<Rightarrow> string \<Rightarrow> 'b option) \<Rightarrow> ('b \<Rightarrow> nat \<Rightarrow> 'b option) \<Rightarrow> 'b \<Rightarrow> stream_op list \<Rightarrow> 'b option" where
  "run_stream push pop b [] = Some b"
| "run_stream push pop b (Push d # ops) = do { b' \<leftarrow> push b d; run_stream push pop b' ops }"
| "run_stream push pop b (Pop n # ops) = do { b' \<leftarrow> pop b n; run_stream push pop b' ops }"

text \<open>The specification: the same operations on the byte string itself.\<close>

fun run_bytes :: "string \<Rightarrow> stream_op list \<Rightarrow> string option" where
  "run_bytes s [] = Some s"
| "run_bytes s (Push d # ops) = run_bytes (s @ d) ops"
| "run_bytes s (Pop n # ops) = (if n \<le> length s then run_bytes (drop n s) ops else None)"

locale byte_stream =
  fixes push :: "'b \<Rightarrow> string \<Rightarrow> 'b option"
    and pop :: "'b \<Rightarrow> nat \<Rightarrow> 'b option"
    and bytes :: "'b \<Rightarrow> string"
    and ok :: "'b \<Rightarrow> bool"
  assumes push_law: "ok b \<Longrightarrow> \<exists>b'. push b d = Some b' \<and> ok b' \<and> bytes b' = bytes b @ d"
    and pop_law: "ok b \<Longrightarrow> n \<le> length (bytes b) \<Longrightarrow> \<exists>b'. pop b n = Some b' \<and> ok b' \<and> bytes b' = drop n (bytes b)"
    and pop_refused: "ok b \<Longrightarrow> length (bytes b) < n \<Longrightarrow> pop b n = None"
begin

lemma refines: "ok b \<Longrightarrow> map_option bytes (run_stream push pop b ops) = run_bytes (bytes b) ops"
proof (induction ops arbitrary: b)
  case (Cons x ops)
  show ?case
  proof (cases x)
    case (Push d)
    obtain b' where "push b d = Some b'" "ok b'" "bytes b' = bytes b @ d"
      using push_law [OF Cons.prems] by blast
    with Push Cons.IH [of b'] show ?thesis by simp
  next
    case (Pop n)
    show ?thesis
    proof (cases "n \<le> length (bytes b)")
      case True
      obtain b' where "pop b n = Some b'" "ok b'" "bytes b' = drop n (bytes b)"
        using pop_law [OF Cons.prems True] by blast
      with Pop True Cons.IH [of b'] show ?thesis by simp
    next
      case False
      with Pop pop_refused [OF Cons.prems, of n] show ?thesis by simp
    qed
  qed
qed simp

lemma keeps_ok: "ok b \<Longrightarrow> run_stream push pop b ops = Some b' \<Longrightarrow> ok b'"
proof (induction ops arbitrary: b)
  case (Cons x ops)
  show ?case
  proof (cases x)
    case (Push d)
    with Cons.prems push_law [of b d] show ?thesis by (auto simp: run_simps intro: Cons.IH)
  next
    case (Pop n)
    with Cons.prems pop_law [of b n] pop_refused [of b n] show ?thesis
      by (cases "n \<le> length (bytes b)") (auto simp: run_simps intro: Cons.IH)
  qed
qed simp

text \<open>Pushing a list of messages and popping their total length loses and reorders nothing.\<close>

lemma push_all:
  "ok b \<Longrightarrow> \<exists>b'. run_stream push pop b (map Push ds) = Some b' \<and> ok b' \<and> bytes b' = bytes b @ concat ds"
proof (induction ds arbitrary: b)
  case (Cons d ds)
  obtain b' where "push b d = Some b'" "ok b'" "bytes b' = bytes b @ d"
    using push_law [OF Cons.prems] by blast
  with Cons.IH [of b'] show ?case by auto
qed simp

end

interpretation buffer_stream: byte_stream buffer_append retrieve contents buffer_ok
  by unfold_locales (simp_all add: buffer_append_abs retrieve_abs retrieve_fails)

text \<open>A buffer that holds given bytes.\<close>

lemma buffer_holding: "\<exists>b. buffer_append (new_Buffer kInitialSize) s = Some b \<and> buffer_ok b \<and> contents b = s"
  using buffer_append_abs [OF new_Buffer_ok, of kInitialSize s] by simp

subsection \<open>Sequences of integers\<close>

datatype wire = W64 u64 | W32 u32 | W16 u16 | W8 byte

fun append_wire :: "buffer \<Rightarrow> wire \<Rightarrow> buffer option" where
  "append_wire b (W64 x) = appendInt64 b x"
| "append_wire b (W32 x) = appendInt32 b x"
| "append_wire b (W16 x) = appendInt16 b x"
| "append_wire b (W8 x) = appendInt8 b x"

text \<open>Reading a value of the width of a given one.\<close>

fun read_wire :: "wire \<Rightarrow> buffer \<Rightarrow> (wire \<times> buffer) option" where
  "read_wire (W64 _) b = map_option (apfst W64) (readInt64 b)"
| "read_wire (W32 _) b = map_option (apfst W32) (readInt32 b)"
| "read_wire (W16 _) b = map_option (apfst W16) (readInt16 b)"
| "read_wire (W8 _) b = map_option (apfst W8) (readInt8 b)"

fun append_wires :: "buffer \<Rightarrow> wire list \<Rightarrow> buffer option" where
  "append_wires b [] = Some b"
| "append_wires b (w # ws) = do { b \<leftarrow> append_wire b w; append_wires b ws }"

fun read_wires :: "wire list \<Rightarrow> buffer \<Rightarrow> (wire list \<times> buffer) option" where
  "read_wires [] b = Some ([], b)"
| "read_wires (k # ks) b = do { (w, b) \<leftarrow> read_wire k b; (ws, b) \<leftarrow> read_wires ks b; Some (w # ws, b) }"

fun wire_bytes :: "wire \<Rightarrow> string" where
  "wire_bytes (W64 x) = chars_of (big_endian 8 x)"
| "wire_bytes (W32 x) = chars_of (big_endian 4 x)"
| "wire_bytes (W16 x) = chars_of (big_endian 2 x)"
| "wire_bytes (W8 x) = chars_of [x]"

lemma append_wire_abs:
  "buffer_ok b \<Longrightarrow> \<exists>b'. append_wire b w = Some b' \<and> buffer_ok b' \<and> contents b' = contents b @ wire_bytes w"
  by (cases w) (simp_all add: appendInt_abs)

lemma append_wires_abs:
  "buffer_ok b \<Longrightarrow> \<exists>b'. append_wires b ws = Some b' \<and> buffer_ok b'
     \<and> contents b' = contents b @ concat (map wire_bytes ws)"
proof (induction ws arbitrary: b)
  case (Cons w ws)
  obtain b1 where "append_wire b w = Some b1" "buffer_ok b1" "contents b1 = contents b @ wire_bytes w"
    using append_wire_abs [OF Cons.prems] by blast
  with Cons.IH [of b1] show ?case by auto
qed simp

lemma read_wire_front:
  "buffer_ok b \<Longrightarrow> contents b = wire_bytes w @ rest \<Longrightarrow>
   \<exists>b'. read_wire w b = Some (w, b') \<and> buffer_ok b' \<and> contents b' = rest"
  using readInt_front [of b] by (cases w) auto

lemma read_wires_front:
  "buffer_ok b \<Longrightarrow> contents b = concat (map wire_bytes ws) @ rest \<Longrightarrow>
   \<exists>b'. read_wires ws b = Some (ws, b') \<and> buffer_ok b' \<and> contents b' = rest"
proof (induction ws arbitrary: b)
  case (Cons w ws)
  obtain b1 where "read_wire w b = Some (w, b1)" "buffer_ok b1" "contents b1 = concat (map wire_bytes ws) @ rest"
    using read_wire_front [OF Cons.prems(1), of w "concat (map wire_bytes ws) @ rest"] Cons.prems(2) by auto
  with Cons.IH [of b1] show ?case by auto
qed simp

text \<open>Appending keeps the reserved space in front of the data free.\<close>

lemma buffer_append_reserve:
  "prependableBytes b = kCheapPrepend \<Longrightarrow> buffer_append b d = Some b' \<Longrightarrow> prependableBytes b' = kCheapPrepend"
  by (auto simp: buffer_append_def ensureWritableBytes_def makeSpace_def hasWritten_def prependableBytes_def
      run_simps Let_def split: if_splits)

subsection \<open>Properties\<close>

text \<open>
  C10: A buffer is a byte queue: any sequence of appends and retrieves on a fresh buffer, with all
  the moving, growing and index resetting they do, leaves exactly the bytes that the same operations
  leave of a plain byte string, and is refused exactly when it takes more than there is.
\<close>

theorem buffer_is_byte_queue:
  "map_option contents (run_stream buffer_append retrieve (new_Buffer n) ops) = run_bytes [] ops"
  using buffer_stream.refines [OF new_Buffer_ok, of n ops] by simp

text \<open>
  Integers survive the wire: any sequence of 8, 16, 32 and 64 bit integers appended to a buffer in
  network byte order is read back equal and in order, and the reads consume exactly their bytes.
\<close>

theorem integers_roundtrip:
  assumes "buffer_ok b" "contents b = []"
  shows "\<exists>b1 b2. append_wires b ws = Some b1 \<and> read_wires ws b1 = Some (ws, b2) \<and> contents b2 = []"
proof -
  obtain b1 where "append_wires b ws = Some b1" "buffer_ok b1" "contents b1 = concat (map wire_bytes ws)"
    using append_wires_abs [OF assms(1), of ws] assms(2) by auto
  with read_wires_front [of b1 ws "[]"] show ?thesis by auto
qed

theorem integers_roundtrip_witness:
  "\<exists>b1 b2. append_wires (new_Buffer 2) [W32 0xDEADBEEF, W8 7] = Some b1
     \<and> read_wires [W32 0xDEADBEEF, W8 7] b1 = Some ([W32 0xDEADBEEF, W8 7], b2) \<and> contents b2 = []"
  by (rule integers_roundtrip) simp_all

text \<open>
  A framed message comes back: a body appended to a buffer and its length prepended in the reserved
  space in front reads back as that length followed by exactly that body.
\<close>

theorem length_prefixed_roundtrip:
  assumes "length body < 2 ^ 32"
  shows "\<exists>b1 b2 b3 b4. buffer_append (new_Buffer kInitialSize) body = Some b1
    \<and> prependInt32 b1 (of_nat (length body)) = Some b2
    \<and> readInt32 b2 = Some (of_nat (length body), b3)
    \<and> retrieveAsString b3 (unat (of_nat (length body) :: u32)) = Some (body, b4) \<and> contents b4 = []"
proof -
  let ?len = "of_nat (length body) :: u32"
  obtain b1 where b1: "buffer_append (new_Buffer kInitialSize) body = Some b1" "buffer_ok b1" "contents b1 = body"
    using buffer_holding by blast
  have "prependableBytes b1 = 8"
    using buffer_append_reserve [OF _ b1(1)] new_Buffer_asserts by (simp add: kCheapPrepend_def)
  then obtain b2 where b2: "prependInt32 b1 ?len = Some b2" "buffer_ok b2" "contents b2 = chars_of (big_endian 4 ?len) @ body"
    using prependInt_abs(2) [OF b1(2), of ?len] b1(3) by auto
  obtain b3 where b3: "readInt32 b2 = Some (?len, b3)" "buffer_ok b3" "contents b3 = body"
    using readInt_front(2) [OF b2(2,3)] by blast
  have "unat ?len = length body"
    using assms by (simp add: unat_of_nat)
  then show ?thesis
    using b1(1) b2(1) b3(1) retrieveAsString_abs [OF b3(2), of "length body"] b3(3) by auto
qed

theorem length_prefixed_roundtrip_witness:
  "\<exists>b1 b2 b3 b4. buffer_append (new_Buffer kInitialSize) ''abc'' = Some b1
    \<and> prependInt32 b1 (of_nat (length ''abc'')) = Some b2
    \<and> readInt32 b2 = Some (of_nat (length ''abc''), b3)
    \<and> retrieveAsString b3 (unat (of_nat (length ''abc'') :: u32)) = Some (''abc'', b4) \<and> contents b4 = []"
  by (rule length_prefixed_roundtrip) simp

text \<open>
  readFd loses nothing: whatever readv delivers, up to the room in the buffer and the 64 KiB on the
  stack behind it, is appended in order; an error leaves the buffer alone and saves errno.
\<close>

theorem readFd_appends_all:
  assumes "buffer_ok b" "length data \<le> readv_room b"
  shows "(\<exists>b'. readFd b (Read_Data data) = Some (int (length data), None, b') \<and> buffer_ok b'
           \<and> contents b' = contents b @ data)
    \<and> readFd b (Read_Error e) = Some (- 1, Some e, b)"
  using readFd_abs [OF assms] by simp

theorem readFd_appends_all_witness:
  "\<exists>b'. readFd (new_Buffer 2) (Read_Data ''hello'') = Some (5, None, b') \<and> contents b' = ''hello''"
proof -
  have "length ''hello'' \<le> readv_room (new_Buffer 2)"
    by (simp add: readv_room_def new_Buffer_def writableBytes_def extrabuf_size_def Let_def)
  from readFd_appends_all [OF new_Buffer_ok this, of 0] show ?thesis by auto
qed

end
