(* ===== verification/Http_Message.thy ===== *)
theory Http_Message
  imports Net_Buffer
begin

text \<open>
  muduo/net/http/HttpRequest.h, HttpResponse.h and HttpResponse.cc: the two messages. A range
  \<open>[start, end)\<close> of the input is the string it holds; the header maps are \<open>std::map\<close>s from string
  to string (association lists in key order). Timestamps are microseconds since the epoch.
\<close>

abbreviation crlf :: string where "crlf \<equiv> [CR, LF]"

subsection \<open>HttpRequest\<close>

datatype Method = kInvalid | kGet | kPost | kHead | kPut | kDelete

datatype Version = kUnknown | kHttp10 | kHttp11

record HttpRequest =
  rq_method :: Method
  rq_version :: Version
  rq_path :: string
  rq_query :: string
  rq_receiveTime :: int
  rq_headers :: "(string \<times> string) list"

definition new_HttpRequest :: HttpRequest where
  "new_HttpRequest = \<lparr>rq_method = kInvalid, rq_version = kUnknown, rq_path = [], rq_query = [],
     rq_receiveTime = 0, rq_headers = []\<rparr>"

definition setVersion :: "HttpRequest \<Rightarrow> Version \<Rightarrow> HttpRequest" where
  "setVersion rq v = rq\<lparr>rq_version := v\<rparr>"

definition setMethod :: "HttpRequest \<Rightarrow> string \<Rightarrow> (bool \<times> HttpRequest) option" where
  "setMethod rq m = do {
     require (rq_method rq = kInvalid);
     let meth = (if m = ''GET'' then kGet
                 else if m = ''POST'' then kPost
                 else if m = ''HEAD'' then kHead
                 else if m = ''PUT'' then kPut
                 else if m = ''DELETE'' then kDelete
                 else kInvalid);
     Some (meth \<noteq> kInvalid, rq\<lparr>rq_method := meth\<rparr>) }"

fun methodString :: "Method \<Rightarrow> string" where
  "methodString kGet = ''GET''"
| "methodString kPost = ''POST''"
| "methodString kHead = ''HEAD''"
| "methodString kPut = ''PUT''"
| "methodString kDelete = ''DELETE''"
| "methodString kInvalid = ''UNKNOWN''"

definition setPath :: "HttpRequest \<Rightarrow> string \<Rightarrow> HttpRequest" where
  "setPath rq p = rq\<lparr>rq_path := p\<rparr>"

definition setQuery :: "HttpRequest \<Rightarrow> string \<Rightarrow> HttpRequest" where
  "setQuery rq q = rq\<lparr>rq_query := q\<rparr>"

definition setReceiveTime :: "HttpRequest \<Rightarrow> int \<Rightarrow> HttpRequest" where
  "setReceiveTime rq t = rq\<lparr>rq_receiveTime := t\<rparr>"

text \<open>\<open>isspace\<close> of the C locale.\<close>

definition isspace :: "char \<Rightarrow> bool" where
  "isspace c \<longleftrightarrow> c \<in> {CHR '' '', CHR 0x09, CHR 0x0A, CHR 0x0B, CHR 0x0C, CHR 0x0D}"

text \<open>The two trimming loops of \<open>addHeader\<close>.\<close>

fun skip_space :: "string \<Rightarrow> string" where
  "skip_space [] = []"
| "skip_space (c # s) = (if isspace c then skip_space s else c # s)"

fun trim_right :: "string \<Rightarrow> string" where
  "trim_right v = (if v \<noteq> [] \<and> isspace (last v) then trim_right (butlast v) else v)"

declare trim_right.simps [simp del]

text \<open>\<open>addHeader(start, colon, end)\<close>: the field is \<open>[start, colon)\<close>, the rest is after the colon.\<close>

definition addHeader :: "HttpRequest \<Rightarrow> string \<Rightarrow> string \<Rightarrow> HttpRequest" where
  "addHeader rq field rest =
     (let value = trim_right (skip_space rest)
      in rq\<lparr>rq_headers := amap_put field value (rq_headers rq)\<rparr>)"

definition getHeader :: "HttpRequest \<Rightarrow> string \<Rightarrow> string" where
  "getHeader rq field = (case map_of (rq_headers rq) field of None \<Rightarrow> [] | Some v \<Rightarrow> v)"

definition swap_HttpRequest :: "HttpRequest \<Rightarrow> HttpRequest \<Rightarrow> HttpRequest \<times> HttpRequest" where
  "swap_HttpRequest a b = (b, a)"

lemma setMethod_methodString [simp]:
  "rq_method rq = kInvalid \<Longrightarrow> m \<noteq> kInvalid \<Longrightarrow>
   setMethod rq (methodString m) = Some (True, rq\<lparr>rq_method := m\<rparr>)"
  by (cases m) (simp_all add: setMethod_def)

lemma skip_space_dropWhile: "skip_space s = dropWhile isspace s"
  by (induction s) auto

lemma trim_right_rev: "trim_right v = rev (dropWhile isspace (rev v))"
proof (induction v rule: trim_right.induct)
  case (1 v)
  show ?case
  proof (cases v rule: rev_cases)
    case Nil
    then show ?thesis by (subst trim_right.simps) simp
  next
    case (snoc ys y)
    with 1 show ?thesis by (subst trim_right.simps) auto
  qed
qed

text \<open>A value without blanks at its ends survives; blanks around it are dropped.\<close>

definition trimmed :: "string \<Rightarrow> bool" where
  "trimmed v \<longleftrightarrow> (v = [] \<or> \<not> isspace (hd v) \<and> \<not> isspace (last v))"

lemma skip_space_blanks: "\<forall>c\<in>set pre. isspace c \<Longrightarrow> skip_space (pre @ v) = skip_space v"
  by (induction pre) auto

lemma trim_trimmed:
  assumes "trimmed v" "\<forall>c\<in>set pre. isspace c" "\<forall>c\<in>set post. isspace c"
  shows "trim_right (skip_space (pre @ v @ post)) = v"
proof (cases v)
  case Nil
  with assms show ?thesis
    by (auto simp: skip_space_dropWhile trim_right_rev dropWhile_append2 dest: set_dropWhileD)
next
  case (Cons c s)
  with assms have "skip_space (pre @ v @ post) = v @ post"
    by (simp add: skip_space_blanks trimmed_def)
  moreover have "v \<noteq> []" "\<not> isspace (last v)"
    using assms(1) Cons by (auto simp: trimmed_def)
  then have "dropWhile isspace (rev v) = rev v"
    by (cases v rule: rev_cases) auto
  ultimately show ?thesis
    using assms(3) dropWhile_append2 [of "rev post" isspace "rev v"] by (simp add: trim_right_rev)
qed

lemma getHeader_addHeader:
  "getHeader (addHeader rq f r) g = (if g = f then trim_right (skip_space r) else getHeader rq g)"
  by (simp add: getHeader_def addHeader_def Let_def)

subsection \<open>HttpResponse\<close>

datatype HttpStatusCode = kUnknownStatus | k200Ok | k301MovedPermanently | k400BadRequest | k404NotFound

fun status_number :: "HttpStatusCode \<Rightarrow> int" where
  "status_number kUnknownStatus = 0"
| "status_number k200Ok = 200"
| "status_number k301MovedPermanently = 301"
| "status_number k400BadRequest = 400"
| "status_number k404NotFound = 404"

record HttpResponse =
  rs_headers :: "(string \<times> string) list"
  rs_statusCode :: HttpStatusCode
  rs_statusMessage :: string
  rs_closeConnection :: bool
  rs_body :: string

definition new_HttpResponse :: "bool \<Rightarrow> HttpResponse" where
  "new_HttpResponse close = \<lparr>rs_headers = [], rs_statusCode = kUnknownStatus, rs_statusMessage = [],
     rs_closeConnection = close, rs_body = []\<rparr>"

definition setStatusCode :: "HttpResponse \<Rightarrow> HttpStatusCode \<Rightarrow> HttpResponse" where
  "setStatusCode rs c = rs\<lparr>rs_statusCode := c\<rparr>"

definition setStatusMessage :: "HttpResponse \<Rightarrow> string \<Rightarrow> HttpResponse" where
  "setStatusMessage rs m = rs\<lparr>rs_statusMessage := m\<rparr>"

definition setCloseConnection :: "HttpResponse \<Rightarrow> bool \<Rightarrow> HttpResponse" where
  "setCloseConnection rs on = rs\<lparr>rs_closeConnection := on\<rparr>"

definition response_addHeader :: "HttpResponse \<Rightarrow> string \<Rightarrow> string \<Rightarrow> HttpResponse" where
  "response_addHeader rs key value = rs\<lparr>rs_headers := amap_put key value (rs_headers rs)\<rparr>"

definition setContentType :: "HttpResponse \<Rightarrow> string \<Rightarrow> HttpResponse" where
  "setContentType rs ty = response_addHeader rs ''Content-Type'' ty"

definition setBody :: "HttpResponse \<Rightarrow> string \<Rightarrow> HttpResponse" where
  "setBody rs b = rs\<lparr>rs_body := b\<rparr>"

text \<open>\<open>snprintf\<close> into \<open>char buf[32]\<close> keeps 31 characters.\<close>

definition snprintf32 :: "string \<Rightarrow> string" where
  "snprintf32 s = take 31 s"

fun append_all :: "buffer \<Rightarrow> string list \<Rightarrow> buffer option" where
  "append_all b [] = Some b"
| "append_all b (s # ss) = do { b' \<leftarrow> buffer_append b s; append_all b' ss }"

definition appendToBuffer :: "HttpResponse \<Rightarrow> buffer \<Rightarrow> buffer option" where
  "appendToBuffer rs output = do {
     output \<leftarrow> append_all output
       [snprintf32 (''HTTP/1.1 '' @ dec_int (status_number (rs_statusCode rs)) @ '' ''),
        rs_statusMessage rs, crlf];
     output \<leftarrow> (if rs_closeConnection rs
        then buffer_append output (''Connection: close'' @ crlf)
        else append_all output
          [snprintf32 (''Content-Length: '' @ dec_int (int (length (rs_body rs))) @ crlf),
           ''Connection: Keep-Alive'' @ crlf]);
     output \<leftarrow> append_all output
        (concat (map (\<lambda>(k, v). [k, '': '', v, crlf]) (rs_headers rs)));
     append_all output [crlf, rs_body rs] }"

text \<open>The message it stands for.\<close>

definition response_text :: "HttpResponse \<Rightarrow> string" where
  "response_text rs =
     ''HTTP/1.1 '' @ dec_int (status_number (rs_statusCode rs)) @ '' '' @ rs_statusMessage rs @ crlf
     @ (if rs_closeConnection rs then ''Connection: close'' @ crlf
        else ''Content-Length: '' @ dec_nat (length (rs_body rs)) @ crlf @ ''Connection: Keep-Alive'' @ crlf)
     @ concat (map (\<lambda>(k, v). k @ '': '' @ v @ crlf) (rs_headers rs))
     @ crlf @ rs_body rs"

lemma append_all_abs:
  "buffer_ok b \<Longrightarrow> \<exists>b'. append_all b ss = Some b' \<and> buffer_ok b' \<and> contents b' = contents b @ concat ss"
proof (induction ss arbitrary: b)
  case (Cons s ss)
  obtain b' where "buffer_append b s = Some b'" "buffer_ok b'" "contents b' = contents b @ s"
    using buffer_append_abs [OF Cons.prems] by blast
  with Cons.IH [of b'] show ?case by auto
qed simp

lemma snprintf32_id: "length s \<le> 31 \<Longrightarrow> snprintf32 s = s"
  by (simp add: snprintf32_def)

lemma length_status_line: "length (dec_int (status_number c)) \<le> 3"
  by (cases c) (simp_all add: dec_int_def length_dec_nat)

lemma concat_header_parts:
  "concat (concat (map (\<lambda>(k, v). [k, '': '', v, crlf]) hs)) = concat (map (\<lambda>(k, v). k @ '': '' @ v @ crlf) hs)"
  by (induction hs) auto

lemma appendToBuffer_abs:
  assumes "buffer_ok b" "length (rs_body rs) < 10 ^ 13"
  shows "\<exists>b'. appendToBuffer rs b = Some b' \<and> buffer_ok b' \<and> contents b' = contents b @ response_text rs"
proof -
  let ?line = "''HTTP/1.1 '' @ dec_int (status_number (rs_statusCode rs)) @ '' ''"
  let ?len = "''Content-Length: '' @ dec_int (int (length (rs_body rs))) @ crlf"
  have line: "snprintf32 ?line = ?line"
    using length_status_line [of "rs_statusCode rs"] by (intro snprintf32_id) simp
  have "length (dec_nat (length (rs_body rs))) \<le> 13"
    using assms(2) by (intro length_dec_nat) simp_all
  then have len: "snprintf32 ?len = ?len"
    by (intro snprintf32_id) (simp add: dec_int_def)
  obtain b1 where b1: "append_all b [?line, rs_statusMessage rs, crlf] = Some b1" "buffer_ok b1"
      "contents b1 = contents b @ ?line @ rs_statusMessage rs @ crlf"
    using append_all_abs [OF assms(1), of "[?line, rs_statusMessage rs, crlf]"] by auto
  define mid where "mid = (if rs_closeConnection rs then buffer_append b1 (''Connection: close'' @ crlf)
      else append_all b1 [?len, ''Connection: Keep-Alive'' @ crlf])"
  obtain b2 where b2: "mid = Some b2" "buffer_ok b2"
      "contents b2 = contents b1 @ (if rs_closeConnection rs then ''Connection: close'' @ crlf
         else ?len @ ''Connection: Keep-Alive'' @ crlf)"
    using buffer_append_abs [OF b1(2), of "''Connection: close'' @ crlf"]
      append_all_abs [OF b1(2), of "[?len, ''Connection: Keep-Alive'' @ crlf]"]
    unfolding mid_def by (cases "rs_closeConnection rs") auto
  let ?hs = "concat (map (\<lambda>(k, v). [k, '': '', v, crlf]) (rs_headers rs))"
  obtain b3 where b3: "append_all b2 ?hs = Some b3" "buffer_ok b3" "contents b3 = contents b2 @ concat ?hs"
    using append_all_abs [OF b2(2)] by blast
  obtain b4 where "append_all b3 [crlf, rs_body rs] = Some b4" "buffer_ok b4"
      "contents b4 = contents b3 @ crlf @ rs_body rs"
    using append_all_abs [OF b3(2), of "[crlf, rs_body rs]"] by auto
  moreover have "appendToBuffer rs b = append_all b3 [crlf, rs_body rs]"
    unfolding appendToBuffer_def line len
    by (simp only: b1(1) b2(1) [unfolded mid_def] b3(1) Option.bind.simps)
  ultimately show ?thesis
    using b1(3) b2(3) b3(3) by (simp add: response_text_def concat_header_parts)
qed

end
