(* ===== verification/Http_Context.thy ===== *)
theory Http_Context
  imports Http_Message
begin

text \<open>
  muduo/net/http/HttpContext.h and HttpContext.cc: the request parser. \<open>parseRequest\<close> is the
  \<open>while (hasMore)\<close> loop over the input buffer. The loop has no exit in the states kExpectBody and
  kGotAll, so it is a partial function: the outer option is the loop (None: it does not end), the
  inner one the process (None: an assertion failed).

  \<open>parse_bytes\<close> is the specification: the same grammar read off a byte string. The lemmas show
  that the loop implements it and ends, that the result does not depend on how the input is cut
  into reads, and that a printed request parses back.
\<close>

datatype HttpRequestParseState = kExpectRequestLine | kExpectHeaders | kExpectBody | kGotAll

record HttpContext =
  hc_state :: HttpRequestParseState
  hc_request :: HttpRequest

definition new_HttpContext :: HttpContext where
  "new_HttpContext = \<lparr>hc_state = kExpectRequestLine, hc_request = new_HttpRequest\<rparr>"

definition gotAll :: "HttpContext \<Rightarrow> bool" where
  "gotAll c \<longleftrightarrow> hc_state c = kGotAll"

definition reset :: "HttpContext \<Rightarrow> HttpContext" where
  "reset c = c\<lparr>hc_state := kExpectRequestLine,
     hc_request := fst (swap_HttpRequest (hc_request c) new_HttpRequest)\<rparr>"

text \<open>\<open>std::find\<close> over a range: the offset of the first occurrence, the length if there is none.\<close>

definition std_find :: "char \<Rightarrow> string \<Rightarrow> nat" where
  "std_find c s = length (takeWhile (\<lambda>x. x \<noteq> c) s)"

definition processRequestLine :: "HttpRequest \<Rightarrow> string \<Rightarrow> (bool \<times> HttpRequest) option" where
  "processRequestLine rq line =
     (let space = std_find (CHR '' '') line
      in if space = length line then Some (False, rq)
      else do {
        (known, rq) \<leftarrow> setMethod rq (take space line);
        if \<not> known then Some (False, rq)
        else
          (let start = drop (Suc space) line;
               space = std_find (CHR '' '') start
           in if space = length start then Some (False, rq)
           else
             (let target = take space start;
                  question = std_find (CHR ''?'') target;
                  rq = (if question \<noteq> length target
                        then setQuery (setPath rq (take question target)) (drop question target)
                        else setPath rq target);
                  start = drop (Suc space) start;
                  succeed = (length start = 8 \<and> take 7 start = ''HTTP/1.'')
              in if \<not> succeed then Some (False, rq)
                 else if last start = CHR ''1'' then Some (True, setVersion rq kHttp11)
                 else if last start = CHR ''0'' then Some (True, setVersion rq kHttp10)
                 else Some (False, rq)))})"

text \<open>A header line that was found: with a colon it is added, without one it ends the headers.\<close>

definition processHeaderLine :: "HttpContext \<Rightarrow> string \<Rightarrow> bool \<times> HttpContext" where
  "processHeaderLine c line =
     (let colon = std_find (CHR '':'') line
      in if colon \<noteq> length line
         then (True, c\<lparr>hc_request := addHeader (hc_request c) (take colon line) (drop (Suc colon) line)\<rparr>)
         else (False, c\<lparr>hc_state := kGotAll\<rparr>))"

partial_function (option) parse_loop ::
    "HttpContext \<Rightarrow> buffer \<Rightarrow> int \<Rightarrow> bool \<Rightarrow> (bool \<times> HttpContext \<times> buffer) option option" where
  "parse_loop c buf receiveTime ok =
     (case hc_state c of
        kExpectRequestLine \<Rightarrow>
          (case findCRLF buf of
             None \<Rightarrow> Some (Some (ok, c, buf))
           | Some eol \<Rightarrow>
               (case processRequestLine (hc_request c) (window (peek buf) eol (storage buf)) of
                  None \<Rightarrow> Some None
                | Some (ok', rq) \<Rightarrow>
                    if ok' then
                      (case retrieveUntil buf (eol + 2) of
                         None \<Rightarrow> Some None
                       | Some buf' \<Rightarrow>
                           parse_loop (c\<lparr>hc_state := kExpectHeaders,
                                         hc_request := setReceiveTime rq receiveTime\<rparr>) buf' receiveTime ok')
                    else Some (Some (ok', c\<lparr>hc_request := rq\<rparr>, buf))))
      | kExpectHeaders \<Rightarrow>
          (case findCRLF buf of
             None \<Rightarrow> Some (Some (ok, c, buf))
           | Some eol \<Rightarrow>
               (case processHeaderLine c (window (peek buf) eol (storage buf)) of
                  (hasMore, c') \<Rightarrow>
                    (case retrieveUntil buf (eol + 2) of
                       None \<Rightarrow> Some None
                     | Some buf' \<Rightarrow>
                         if hasMore then parse_loop c' buf' receiveTime ok
                         else Some (Some (ok, c', buf')))))
      | kExpectBody \<Rightarrow> parse_loop c buf receiveTime ok
      | kGotAll \<Rightarrow> parse_loop c buf receiveTime ok)"

definition parseRequest ::
    "HttpContext \<Rightarrow> buffer \<Rightarrow> int \<Rightarrow> (bool \<times> HttpContext \<times> buffer) option option" where
  "parseRequest c buf receiveTime = parse_loop c buf receiveTime True"

subsection \<open>The grammar on byte strings\<close>

lemma search_crlf_bound: "search_crlf i s = Some k \<Longrightarrow> i \<le> k \<and> k + 2 \<le> i + length s"
  by (induction i s rule: search_crlf.induct) (auto split: if_splits)

function parse_bytes :: "HttpContext \<Rightarrow> string \<Rightarrow> int \<Rightarrow> bool \<Rightarrow> (bool \<times> HttpContext \<times> string) option" where
  "parse_bytes c s t ok =
     (case search_crlf 0 s of
        None \<Rightarrow> Some (ok, c, s)
      | Some k \<Rightarrow>
          if hc_state c = kExpectRequestLine then
            (case processRequestLine (hc_request c) (take k s) of
               None \<Rightarrow> None
             | Some (ok', rq) \<Rightarrow>
                 if ok' then parse_bytes (c\<lparr>hc_state := kExpectHeaders, hc_request := setReceiveTime rq t\<rparr>)
                               (drop (k + 2) s) t ok'
                 else Some (ok', c\<lparr>hc_request := rq\<rparr>, s))
          else
            (case processHeaderLine c (take k s) of
               (hasMore, c') \<Rightarrow> if hasMore then parse_bytes c' (drop (k + 2) s) t ok
                                else Some (ok, c', drop (k + 2) s)))"
  by pat_completeness auto
termination
  by (relation "measure (\<lambda>(c, s, t, ok). length s)") (auto dest: search_crlf_bound)

declare parse_bytes.simps [simp del]

definition parsing :: "HttpContext \<Rightarrow> bool" where
  "parsing c \<longleftrightarrow> hc_state c = kExpectRequestLine \<or> hc_state c = kExpectHeaders"

lemma processHeaderLine_more:
  "processHeaderLine c line = (True, c') \<Longrightarrow> hc_state c' = hc_state c"
  by (auto simp: processHeaderLine_def Let_def split: if_splits)

lemma processHeaderLine_end:
  "processHeaderLine c line = (False, c') \<Longrightarrow> c' = c\<lparr>hc_state := kGotAll\<rparr>"
  by (auto simp: processHeaderLine_def Let_def split: if_splits)

text \<open>One iteration of the loop in each of its two states.\<close>

lemma parse_loop_line:
  "hc_state c = kExpectRequestLine \<Longrightarrow> parse_loop c buf t ok =
    (case findCRLF buf of
       None \<Rightarrow> Some (Some (ok, c, buf))
     | Some eol \<Rightarrow>
         (case processRequestLine (hc_request c) (window (peek buf) eol (storage buf)) of
            None \<Rightarrow> Some None
          | Some (ok', rq) \<Rightarrow>
              if ok' then
                (case retrieveUntil buf (eol + 2) of
                   None \<Rightarrow> Some None
                 | Some buf' \<Rightarrow> parse_loop (c\<lparr>hc_state := kExpectHeaders,
                                   hc_request := setReceiveTime rq t\<rparr>) buf' t ok')
              else Some (Some (ok', c\<lparr>hc_request := rq\<rparr>, buf))))"
  by (subst parse_loop.simps) simp

lemma parse_loop_header:
  "hc_state c = kExpectHeaders \<Longrightarrow> parse_loop c buf t ok =
    (case findCRLF buf of
       None \<Rightarrow> Some (Some (ok, c, buf))
     | Some eol \<Rightarrow>
         (case processHeaderLine c (window (peek buf) eol (storage buf)) of
            (hasMore, c') \<Rightarrow>
              (case retrieveUntil buf (eol + 2) of
                 None \<Rightarrow> Some None
               | Some buf' \<Rightarrow> if hasMore then parse_loop c' buf' t ok
                              else Some (Some (ok, c', buf')))))"
  by (subst parse_loop.simps) simp

lemmas parse_loop_step = parse_loop_line parse_loop_header

lemma parse_loop_waits: "parsing c \<Longrightarrow> findCRLF buf = None \<Longrightarrow> parse_loop c buf t ok = Some (Some (ok, c, buf))"
  by (auto simp: parsing_def parse_loop_step)

lemma parse_bytes_waits: "search_crlf 0 s = None \<Longrightarrow> parse_bytes c s t ok = Some (ok, c, s)"
  by (subst parse_bytes.simps) simp

lemma parse_bytes_line:
  "search_crlf 0 s = Some k \<Longrightarrow> hc_state c = kExpectRequestLine \<Longrightarrow> parse_bytes c s t ok =
    (case processRequestLine (hc_request c) (take k s) of
       None \<Rightarrow> None
     | Some (ok', rq) \<Rightarrow>
         if ok' then parse_bytes (c\<lparr>hc_state := kExpectHeaders, hc_request := setReceiveTime rq t\<rparr>)
                       (drop (k + 2) s) t ok'
         else Some (ok', c\<lparr>hc_request := rq\<rparr>, s))"
  by (subst parse_bytes.simps) simp

lemma parse_bytes_header:
  "search_crlf 0 s = Some k \<Longrightarrow> hc_state c \<noteq> kExpectRequestLine \<Longrightarrow> parse_bytes c s t ok =
    (case processHeaderLine c (take k s) of
       (hasMore, c') \<Rightarrow> if hasMore then parse_bytes c' (drop (k + 2) s) t ok
                        else Some (ok, c', drop (k + 2) s))"
  by (subst parse_bytes.simps) simp

text \<open>
  The loop on a buffer computes what the grammar computes on its contents, and it ends: for every
  buffer and every context that is still parsing there is a result.
\<close>

definition implements :: "(bool \<times> HttpContext \<times> buffer) option option \<Rightarrow> (bool \<times> HttpContext \<times> string) option \<Rightarrow> bool" where
  "implements run spec \<longleftrightarrow> (\<exists>res. run = Some res
     \<and> map_option (\<lambda>(r, c', b). (r, c', contents b)) res = spec
     \<and> (\<forall>r c' b. res = Some (r, c', b) \<longrightarrow> buffer_ok b))"

lemma implements_Some [simp]:
  "implements (Some (Some (r, c, b))) spec \<longleftrightarrow> spec = Some (r, c, contents b) \<and> buffer_ok b"
  "implements (Some None) spec \<longleftrightarrow> spec = None"
  by (auto simp: implements_def)

lemma parse_loop_refines:
  assumes "buffer_ok buf" "parsing c"
  shows "implements (parse_loop c buf t ok) (parse_bytes c (contents buf) t ok)"
  using assms
proof (induction "length (contents buf)" arbitrary: c buf ok rule: less_induct)
  case less
  have found: "findCRLF buf = map_option ((+) (peek buf)) (search_crlf 0 (contents buf))"
    using less.prems(1) by (rule findCRLF_abs)
  show ?case
  proof (cases "search_crlf 0 (contents buf)")
    case None
    with less.prems found show ?thesis by (simp add: parse_loop_waits parse_bytes_waits)
  next
    case (Some k)
    then have k: "k + 2 \<le> length (contents buf)"
      using search_crlf_bound [OF Some] by simp
    then have line: "window (peek buf) (peek buf + k) (storage buf) = take k (contents buf)"
      using less.prems(1) by (simp add: take_contents length_contents)
    obtain buf' where buf': "retrieveUntil buf (peek buf + k + 2) = Some buf'" "buffer_ok buf'"
        "contents buf' = drop (k + 2) (contents buf)"
      using retrieveUntil_abs [OF less.prems(1) k] by (auto simp: add.assoc)
    have IH: "parsing c' \<Longrightarrow> implements (parse_loop c' buf' t ok') (parse_bytes c' (drop (k + 2) (contents buf)) t ok')"
      for c' ok'
      using less.hyps [OF _ buf'(2)] buf'(3) k by simp
    note buf'(1) [simplified, simp]
    show ?thesis
    proof (cases "hc_state c = kExpectRequestLine")
      case True
      then show ?thesis
        using found Some line less.prems(1)
        by (auto simp: parse_loop_line parse_bytes_line parsing_def intro!: IH [simplified] split: option.split)
    next
      case False
      then have hs: "hc_state c = kExpectHeaders" using less.prems(2) by (simp add: parsing_def)
      obtain more c' where pc: "processHeaderLine c (take k (contents buf)) = (more, c')"
        by (cases "processHeaderLine c (take k (contents buf))") auto
      have "more \<Longrightarrow> parsing c'"
        using pc hs by (auto simp: parsing_def dest: processHeaderLine_more)
      then show ?thesis
        using hs found Some line pc buf'(2,3)
        by (auto simp: parse_loop_header parse_bytes_header intro!: IH [simplified])
    qed
  qed
qed

text \<open>In the two other states the loop spins for ever.\<close>

lemma parse_loop_spins: "parse_loop c buf t ok = Some r \<Longrightarrow> parsing c"
proof (rule parse_loop.raw_induct [where P = "\<lambda>c buf t ok r. parsing c"])
  fix f c buf t ok r
  assume IH: "\<And>c buf t ok r. f c buf t ok = Some r \<Longrightarrow> parsing c"
    and eq: "(case hc_state c of
        kExpectRequestLine \<Rightarrow>
          (case findCRLF buf of
             None \<Rightarrow> Some (Some (ok, c, buf))
           | Some eol \<Rightarrow>
               (case processRequestLine (hc_request c) (window (peek buf) eol (storage buf)) of
                  None \<Rightarrow> Some None
                | Some (ok', rq) \<Rightarrow>
                    if ok' then
                      (case retrieveUntil buf (eol + 2) of
                         None \<Rightarrow> Some None
                       | Some buf' \<Rightarrow>
                           f (c\<lparr>hc_state := kExpectHeaders,
                                         hc_request := setReceiveTime rq t\<rparr>) buf' t ok')
                    else Some (Some (ok', c\<lparr>hc_request := rq\<rparr>, buf))))
      | kExpectHeaders \<Rightarrow>
          (case findCRLF buf of
             None \<Rightarrow> Some (Some (ok, c, buf))
           | Some eol \<Rightarrow>
               (case processHeaderLine c (window (peek buf) eol (storage buf)) of
                  (hasMore, c') \<Rightarrow>
                    (case retrieveUntil buf (eol + 2) of
                       None \<Rightarrow> Some None
                     | Some buf' \<Rightarrow>
                         if hasMore then f c' buf' t ok
                         else Some (Some (ok, c', buf')))))
      | kExpectBody \<Rightarrow> f c buf t ok
      | kGotAll \<Rightarrow> f c buf t ok) = Some r"
  from eq show "parsing c"
    by (cases "hc_state c") (auto simp: parsing_def [of c] dest: IH [of c buf t ok])
qed

subsection \<open>Input cut into reads\<close>

lemma search_crlf_append: "search_crlf i s = Some k \<Longrightarrow> search_crlf i (s @ d) = Some k"
  by (induction i s rule: search_crlf.induct) (auto split: if_splits)

lemma take_drop_found:
  "search_crlf 0 s = Some k \<Longrightarrow> take k (s @ d) = take k s \<and> drop (k + 2) (s @ d) = drop (k + 2) s @ d"
  using search_crlf_bound [of 0 s k] by simp

text \<open>A step whose line is there already, with later bytes behind it.\<close>

lemma parse_bytes_line_append:
  "search_crlf 0 s = Some k \<Longrightarrow> hc_state c = kExpectRequestLine \<Longrightarrow> parse_bytes c (s @ d) t ok =
    (case processRequestLine (hc_request c) (take k s) of
       None \<Rightarrow> None
     | Some (ok', rq) \<Rightarrow>
         if ok' then parse_bytes (c\<lparr>hc_state := kExpectHeaders, hc_request := setReceiveTime rq t\<rparr>)
                       (drop (k + 2) s @ d) t ok'
         else Some (ok', c\<lparr>hc_request := rq\<rparr>, s @ d))"
  by (simp only: parse_bytes_line [OF search_crlf_append] take_drop_found)

lemma parse_bytes_header_append:
  "search_crlf 0 s = Some k \<Longrightarrow> hc_state c \<noteq> kExpectRequestLine \<Longrightarrow> parse_bytes c (s @ d) t ok =
    (case processHeaderLine c (take k s) of
       (hasMore, c') \<Rightarrow> if hasMore then parse_bytes c' (drop (k + 2) s @ d) t ok
                        else Some (ok, c', drop (k + 2) s @ d))"
  by (subst parse_bytes_header [OF search_crlf_append]) (assumption | simp only: take_drop_found)+

lemmas parse_bytes_found = parse_bytes_line parse_bytes_header
  parse_bytes_line_append parse_bytes_header_append

text \<open>
  The header part: it never rejects, does not look at the time, and either reaches the end of the
  headers, after which later bytes are left alone, or waits and resumes with them.
\<close>

lemma parse_bytes_headers:
  "hc_state c = kExpectHeaders \<Longrightarrow> \<exists>c' rest.
     (\<forall>t. parse_bytes c s t ok = Some (ok, c', rest)) \<and>
     (hc_state c' = kGotAll \<and> (\<forall>t d. parse_bytes c (s @ d) t ok = Some (ok, c', rest @ d)) \<or>
      hc_state c' = kExpectHeaders \<and> (\<forall>t d. parse_bytes c (s @ d) t ok = parse_bytes c' (rest @ d) t ok))"
proof (induction "length s" arbitrary: c s rule: less_induct)
  case less
  show ?case
  proof (cases "search_crlf 0 s")
    case None
    with less.prems show ?thesis by (auto simp: parse_bytes_waits)
  next
    case (Some k)
    note found = parse_bytes_found [OF Some]
    have short: "length (drop (k + 2) s) < length s"
      using search_crlf_bound [OF Some] by simp
    obtain more c2 where pc: "processHeaderLine c (take k s) = (more, c2)"
      by (cases "processHeaderLine c (take k s)") auto
    show ?thesis
    proof (cases more)
      case True
      then have "hc_state c2 = kExpectHeaders"
        using pc less.prems by (auto dest: processHeaderLine_more)
      from less.hyps [OF short this] True pc less.prems show ?thesis
        by (simp add: found)
    next
      case False
      with pc less.prems processHeaderLine_end [of c "take k s" c2] show ?thesis
        by (simp add: found)
    qed
  qed
qed

text \<open>A result that does not wait for more input leaves later bytes alone.\<close>

lemma parse_bytes_done_append:
  assumes "parse_bytes c s t True = Some (r, c', rest)" "\<not> (r \<and> parsing c')" "parsing c"
  shows "parse_bytes c (s @ d) t True = Some (r, c', rest @ d)"
proof (cases "hc_state c = kExpectHeaders")
  case True
  with parse_bytes_headers [OF True, of s True] assms show ?thesis by (auto simp: parsing_def)
next
  case False
  then have line: "hc_state c = kExpectRequestLine" using assms(3) by (simp add: parsing_def)
  show ?thesis
  proof (cases "search_crlf 0 s")
    case None
    with assms show ?thesis by (simp add: parse_bytes_waits)
  next
    case (Some k)
    note found = parse_bytes_found [OF Some]
    from assms line obtain ok rq where rq: "processRequestLine (hc_request c) (take k s) = Some (ok, rq)"
      by (auto simp: found split: option.splits)
    show ?thesis
    proof (cases ok)
      case True
      with line rq assms
        parse_bytes_headers [of "c\<lparr>hc_state := kExpectHeaders, hc_request := setReceiveTime rq t\<rparr>" "drop (k + 2) s" True]
      show ?thesis
        by (auto simp: found parsing_def)
    next
      case False
      with line rq assms(1) have "\<not> r" "c' = c\<lparr>hc_request := rq\<rparr>" "rest = s"
        by (auto simp: found)
      with line rq False show ?thesis by (simp add: found)
    qed
  qed
qed

text \<open>
  A result that waits resumes: parsing the rest with the later bytes is parsing it all. The time is
  that of the read that completes the request line.
\<close>

lemma parse_bytes_resume:
  assumes "parse_bytes c s t True = Some (True, c', rest)" "parsing c" "parsing c'"
  shows "parse_bytes c (s @ d) (if hc_state c' = kExpectRequestLine then t' else t) True
     = parse_bytes c' (rest @ d) t' True"
proof (cases "hc_state c = kExpectHeaders")
  case True
  obtain c2 rest2 where h: "\<And>t. parse_bytes c (s @ d) t True = Some (True, c2, rest2)"
    using parse_bytes_headers [OF True, of "s @ d" True] by blast
  from parse_bytes_headers [OF True, of s True] assms h show ?thesis
    by (auto simp: parsing_def)
next
  case False
  then have line: "hc_state c = kExpectRequestLine" using assms(2) by (simp add: parsing_def)
  show ?thesis
  proof (cases "search_crlf 0 s")
    case None
    with assms line show ?thesis by (simp add: parse_bytes_waits)
  next
    case (Some k)
    note found = parse_bytes_found [OF Some]
    from assms line obtain rq where rq: "processRequestLine (hc_request c) (take k s) = Some (True, rq)"
      by (auto simp: found split: option.splits if_splits)
    let ?c = "c\<lparr>hc_state := kExpectHeaders, hc_request := setReceiveTime rq t\<rparr>"
    have run: "parse_bytes ?c (drop (k + 2) s) t True = Some (True, c', rest)"
      using assms(1) line rq by (simp add: found)
    have hs: "hc_state c' = kExpectHeaders"
      and go: "\<And>t d. parse_bytes ?c (drop (k + 2) s @ d) t True = parse_bytes c' (rest @ d) t True"
      using parse_bytes_headers [of ?c "drop (k + 2) s" True] run assms(3) by (auto simp: parsing_def)
    obtain c2 rest2 where "\<And>t. parse_bytes c' (rest @ d) t True = Some (True, c2, rest2)"
      using parse_bytes_headers [OF hs, of "rest @ d" True] by blast
    with line rq hs go show ?thesis by (simp add: found)
  qed
qed

subsection \<open>Printing a request\<close>

text \<open>The message a client sends for a request.\<close>

fun versionString :: "Version \<Rightarrow> string" where
  "versionString kHttp10 = ''HTTP/1.0''"
| "versionString kHttp11 = ''HTTP/1.1''"
| "versionString kUnknown = ''''"

definition request_line :: "HttpRequest \<Rightarrow> string" where
  "request_line rq = methodString (rq_method rq) @ '' '' @ rq_path rq @ rq_query rq @ '' ''
     @ versionString (rq_version rq)"

definition header_text :: "(string \<times> string) list \<Rightarrow> string" where
  "header_text hs = concat (map (\<lambda>(k, v). k @ '': '' @ v @ crlf) hs)"

definition request_text :: "HttpRequest \<Rightarrow> string" where
  "request_text rq = request_line rq @ crlf @ header_text (rq_headers rq) @ crlf"

definition good_header :: "string \<times> string \<Rightarrow> bool" where
  "good_header kv \<longleftrightarrow> CR \<notin> set (fst kv) \<and> CHR '':'' \<notin> set (fst kv) \<and> CR \<notin> set (snd kv) \<and> trimmed (snd kv)"

definition good_request :: "HttpRequest \<Rightarrow> bool" where
  "good_request rq \<longleftrightarrow> rq_method rq \<noteq> kInvalid \<and> rq_version rq \<noteq> kUnknown
     \<and> set (rq_path rq) \<inter> {CHR '' '', CHR ''?'', CR} = {}
     \<and> set (rq_query rq) \<inter> {CHR '' '', CR} = {}
     \<and> (rq_query rq \<noteq> [] \<longrightarrow> hd (rq_query rq) = CHR ''?'')
     \<and> amap_ok (rq_headers rq) \<and> (\<forall>kv\<in>set (rq_headers rq). good_header kv)"

lemma std_find_append: "c \<notin> set s \<Longrightarrow> std_find c (s @ c # r) = length s"
  by (induction s) (auto simp: std_find_def)

lemma std_find_none: "c \<notin> set s \<Longrightarrow> std_find c s = length s"
  by (induction s) (auto simp: std_find_def)

lemma search_crlf_line: "CR \<notin> set l \<Longrightarrow> search_crlf i (l @ CR # LF # r) = Some (i + length l)"
proof (induction l arbitrary: i)
  case (Cons a l)
  then show ?case by (cases l) auto
qed simp

lemma parse_bytes_of_line:
  assumes "CR \<notin> set l"
  shows "hc_state c \<noteq> kExpectRequestLine \<Longrightarrow> parse_bytes c (l @ CR # LF # r) t ok =
    (case processHeaderLine c l of
       (hasMore, c') \<Rightarrow> if hasMore then parse_bytes c' r t ok else Some (ok, c', r))"
  and "hc_state c = kExpectRequestLine \<Longrightarrow> processRequestLine (hc_request c) l = Some (True, rq) \<Longrightarrow>
    parse_bytes c (l @ CR # LF # r) t ok
      = parse_bytes (c\<lparr>hc_state := kExpectHeaders, hc_request := setReceiveTime rq t\<rparr>) r t True"
  using search_crlf_line [OF assms, of 0 r] by (simp_all add: parse_bytes_header parse_bytes_line split: prod.split)

lemma amap_put_end: "amap_ok (hs @ [(k, v)]) \<Longrightarrow> amap_put k v hs = hs @ [(k, v)]"
  by (induction hs) (auto simp: sorted_wrt_append)

lemma processRequestLine_prints:
  assumes "good_request rq"
  shows "processRequestLine new_HttpRequest (request_line rq) =
    Some (True, rq\<lparr>rq_receiveTime := 0, rq_headers := []\<rparr>)"
proof -
  define target where "target = rq_path rq @ rq_query rq"
  have sp: "CHR '' '' \<notin> set (methodString (rq_method rq))" "CHR '' '' \<notin> set target"
    using assms by (cases "rq_method rq"; auto simp: good_request_def target_def)+
  have line: "request_line rq = methodString (rq_method rq) @ CHR '' '' # target @ CHR '' '' # versionString (rq_version rq)"
    by (simp add: request_line_def target_def)
  have q: "(if std_find (CHR ''?'') target \<noteq> length target
        then setQuery (setPath rq0 (take (std_find (CHR ''?'') target) target)) (drop (std_find (CHR ''?'') target) target)
        else setPath rq0 target) = rq0\<lparr>rq_path := rq_path rq, rq_query := rq_query rq\<rparr>"
    if "rq_query rq0 = []" for rq0 :: HttpRequest
  proof (cases "rq_query rq")
    case Nil
    with assms that show ?thesis
      by (simp add: target_def std_find_none good_request_def setPath_def)
  next
    case (Cons c s)
    with assms have "c = CHR ''?''" "CHR ''?'' \<notin> set (rq_path rq)" by (auto simp: good_request_def)
    with Cons show ?thesis
      by (simp add: target_def std_find_append setPath_def setQuery_def)
  qed
  have "rq_version rq = kHttp10 \<or> rq_version rq = kHttp11"
    using assms by (cases "rq_version rq") (auto simp: good_request_def)
  moreover have "rq_method rq \<noteq> kInvalid"
    using assms by (simp add: good_request_def)
  ultimately show ?thesis
    unfolding processRequestLine_def line
    by (auto simp: Let_def std_find_append [OF sp(1)] std_find_append [OF sp(2)] new_HttpRequest_def
          setVersion_def q)
qed

lemma parse_bytes_header_text:
  assumes "hc_state c = kExpectHeaders" "\<forall>kv\<in>set hs. good_header kv" "amap_ok (rq_headers (hc_request c) @ hs)"
  shows "parse_bytes c (header_text hs @ crlf @ rest) t ok =
    Some (ok, c\<lparr>hc_state := kGotAll,
      hc_request := (hc_request c)\<lparr>rq_headers := rq_headers (hc_request c) @ hs\<rparr>\<rparr>, rest)"
  using assms
proof (induction hs arbitrary: c)
  case Nil
  have "search_crlf 0 (crlf @ rest) = Some 0" by simp
  with Nil show ?case
    by (cases c) (auto simp: header_text_def parse_bytes_header processHeaderLine_def std_find_def)
next
  case (Cons kv hs)
  obtain k v where kv: "kv = (k, v)" by (cases kv)
  with Cons.prems have g: "CR \<notin> set k" "CHR '':'' \<notin> set k" "CR \<notin> set v" "trimmed v"
    by (auto simp: good_header_def)
  let ?line = "k @ '': '' @ v"
  have bytes: "header_text (kv # hs) @ crlf @ rest = ?line @ CR # LF # header_text hs @ crlf @ rest"
    by (simp add: header_text_def kv)
  have "trim_right (skip_space ('' '' @ v)) = v"
    using trim_trimmed [OF g(4), of "'' ''" "[]"] by (simp add: isspace_def)
  moreover have "amap_put k v (rq_headers (hc_request c)) = rq_headers (hc_request c) @ [(k, v)]"
    using Cons.prems(3) kv by (intro amap_put_end) (auto simp: sorted_wrt_append)
  ultimately have pl: "processHeaderLine c ?line = (True, c\<lparr>hc_request := (hc_request c)\<lparr>rq_headers :=
      rq_headers (hc_request c) @ [kv]\<rparr>\<rparr>)"
    using g(2) by (simp add: processHeaderLine_def std_find_append addHeader_def kv)
  have cr: "CR \<notin> set ?line"
    using g by simp
  have "parse_bytes c (header_text (kv # hs) @ crlf @ rest) t ok
      = parse_bytes (c\<lparr>hc_request := (hc_request c)\<lparr>rq_headers := rq_headers (hc_request c) @ [kv]\<rparr>\<rparr>)
          (header_text hs @ crlf @ rest) t ok"
    unfolding bytes parse_bytes_of_line(1) [OF cr, of c, unfolded Cons.prems(1), OF HttpRequestParseState.distinct(2)] pl
    by simp
  then show ?case
    using Cons.prems
      Cons.IH [of "c\<lparr>hc_request := (hc_request c)\<lparr>rq_headers := rq_headers (hc_request c) @ [kv]\<rparr>\<rparr>"]
    by simp
qed

lemma parse_bytes_request_text:
  assumes "good_request rq"
  shows "parse_bytes new_HttpContext (request_text rq @ rest) t True =
    Some (True, \<lparr>hc_state = kGotAll, hc_request = rq\<lparr>rq_receiveTime := t\<rparr>\<rparr>, rest)"
proof -
  let ?l = "request_line rq"
  have "CR \<notin> set (methodString (rq_method rq))" "CR \<notin> set (versionString (rq_version rq))"
    by (cases "rq_method rq"; simp) (cases "rq_version rq"; simp)
  then have cr: "CR \<notin> set ?l"
    using assms by (auto simp: request_line_def good_request_def)
  have bytes: "request_text rq @ rest = ?l @ CR # LF # header_text (rq_headers rq) @ crlf @ rest"
    by (simp add: request_text_def)
  have "parse_bytes new_HttpContext (request_text rq @ rest) t True = parse_bytes
      (new_HttpContext\<lparr>hc_state := kExpectHeaders,
         hc_request := setReceiveTime (rq\<lparr>rq_receiveTime := 0, rq_headers := []\<rparr>) t\<rparr>)
      (header_text (rq_headers rq) @ crlf @ rest) t True"
    unfolding bytes using processRequestLine_prints [OF assms]
    by (intro parse_bytes_of_line(2) [OF cr]) (simp_all add: new_HttpContext_def)
  also have "\<dots> = Some (True, \<lparr>hc_state = kGotAll, hc_request = rq\<lparr>rq_receiveTime := t\<rparr>\<rparr>, rest)"
    using assms by (subst parse_bytes_header_text)
      (simp_all add: good_request_def setReceiveTime_def new_HttpContext_def)
  finally show ?thesis .
qed

subsection \<open>A request that arrives in pieces\<close>

lemma parse_bytes_aborts:
  assumes "parse_bytes c s t True = None" "parsing c"
  shows "parse_bytes c (s @ d) t True = None"
proof (cases "hc_state c = kExpectHeaders")
  case True
  with parse_bytes_headers [OF True, of s True] assms show ?thesis by auto
next
  case False
  then have line: "hc_state c = kExpectRequestLine" using assms(2) by (simp add: parsing_def)
  show ?thesis
  proof (cases "search_crlf 0 s")
    case None
    with assms show ?thesis by (simp add: parse_bytes_waits)
  next
    case (Some k)
    note found = parse_bytes_found [OF Some]
    show ?thesis
    proof (cases "processRequestLine (hc_request c) (take k s)")
      case None
      with line show ?thesis by (simp add: found)
    next
      case (Some r)
      with line assms(1)
        parse_bytes_headers [of "c\<lparr>hc_state := kExpectHeaders, hc_request := setReceiveTime (snd r) t\<rparr>" "drop (k + 2) s" True]
      show ?thesis by (cases r) (auto simp: found split: if_splits)
    qed
  qed
qed

text \<open>Where an accepted input leaves the parser.\<close>

lemma parse_bytes_waiting:
  assumes "parse_bytes c s t True = Some (True, c', rest)" "parsing c"
  shows "hc_state c' = kGotAll
    \<or> hc_state c' = kExpectRequestLine \<and> hc_state c = kExpectRequestLine \<and> search_crlf 0 s = None \<and> c' = c \<and> rest = s
    \<or> hc_state c' = kExpectHeaders \<and> (hc_state c = kExpectRequestLine \<longrightarrow> search_crlf 0 s \<noteq> None)"
proof (cases "hc_state c = kExpectHeaders")
  case True
  with parse_bytes_headers [OF True, of s True] assms show ?thesis by auto
next
  case False
  then have line: "hc_state c = kExpectRequestLine" using assms(2) by (simp add: parsing_def)
  show ?thesis
  proof (cases "search_crlf 0 s")
    case None
    with assms line show ?thesis by (simp add: parse_bytes_waits)
  next
    case (Some k)
    note found = parse_bytes_found [OF Some]
    from assms line obtain rq where rq: "processRequestLine (hc_request c) (take k s) = Some (True, rq)"
      by (auto simp: found split: option.splits if_splits)
    with assms line Some
      parse_bytes_headers [of "c\<lparr>hc_state := kExpectHeaders, hc_request := setReceiveTime rq t\<rparr>" "drop (k + 2) s" True]
    show ?thesis by (auto simp: found)
  qed
qed

lemma parseRequest_abs:
  assumes "buffer_ok b" "parsing c"
  obtains res where "parseRequest c b t = Some res"
    "map_option (\<lambda>(r, c', b'). (r, c', contents b')) res = parse_bytes c (contents b) t True"
    "\<And>r c' b'. res = Some (r, c', b') \<Longrightarrow> buffer_ok b'"
  using parse_loop_refines [OF assms, of t True] by (auto simp: parseRequest_def implements_def)

subsection \<open>Properties\<close>

text \<open>
  C9: While a request is being parsed, parseRequest ends on every buffer; its verdict, the context
  and the bytes left in the buffer are those of the grammar parse_bytes on the buffer's contents,
  and the buffer stays well-formed. It aborts exactly where the grammar does.
\<close>

theorem parseRequest_implements_grammar:
  assumes "buffer_ok buf" "parsing c"
  shows "\<exists>res. parseRequest c buf t = Some res
    \<and> map_option (\<lambda>(r, c', b). (r, c', contents b)) res = parse_bytes c (contents buf) t True
    \<and> (\<forall>r c' b. res = Some (r, c', b) \<longrightarrow> buffer_ok b)"
  using parse_loop_refines [OF assms] by (simp add: parseRequest_def implements_def)

theorem parseRequest_implements_grammar_witness:
  "\<exists>res. parseRequest new_HttpContext (new_Buffer kInitialSize) 7 = Some res
    \<and> map_option (\<lambda>(r, c', b). (r, c', contents b)) res = parse_bytes new_HttpContext (contents (new_Buffer kInitialSize)) 7 True
    \<and> (\<forall>r c' b. res = Some (r, c', b) \<longrightarrow> buffer_ok b)"
  by (rule parseRequest_implements_grammar) (simp_all add: new_Buffer_ok new_HttpContext_def parsing_def)

text \<open>
  C14: parseRequest never returns once all headers are in, or in the body state: its loop has no
  exit there, so the server must reset the context before the next read.
\<close>

theorem parseRequest_spins_unless_parsing:
  assumes "\<not> parsing c"
  shows "parseRequest c buf t = None"
  using assms parse_loop_spins [of c buf t True]
  by (cases "parse_loop c buf t True") (auto simp: parseRequest_def)

theorem parseRequest_spins_unless_parsing_witness:
  "parseRequest (new_HttpContext\<lparr>hc_state := kGotAll\<rparr>) (new_Buffer kInitialSize) 0 = None"
  by (rule parseRequest_spins_unless_parsing) (simp add: parsing_def)

text \<open>
  C11: Parsing is the inverse of printing: the text of a well-formed request, whatever follows it in
  the buffer, parses to that request with the time of the read, and exactly its bytes are consumed.
\<close>

theorem parse_printed_request:
  assumes "good_request rq" "buffer_ok buf" "contents buf = request_text rq @ rest"
  shows "\<exists>buf'. parseRequest new_HttpContext buf t =
      Some (Some (True, \<lparr>hc_state = kGotAll, hc_request = rq\<lparr>rq_receiveTime := t\<rparr>\<rparr>, buf'))
    \<and> buffer_ok buf' \<and> contents buf' = rest"
proof -
  have "parsing new_HttpContext" by (simp add: parsing_def new_HttpContext_def)
  then obtain res where "parseRequest new_HttpContext buf t = Some res"
      "map_option (\<lambda>(r, c', b). (r, c', contents b)) res = parse_bytes new_HttpContext (contents buf) t True"
      "\<And>r c' b. res = Some (r, c', b) \<Longrightarrow> buffer_ok b"
    using parseRequest_abs [OF assms(2)] by metis
  then show ?thesis
    unfolding assms(3) parse_bytes_request_text [OF assms(1)] by auto
qed

definition sample_request :: HttpRequest where
  "sample_request = \<lparr>rq_method = kGet, rq_version = kHttp11, rq_path = ''/a'', rq_query = ''?x'',
     rq_receiveTime = 0, rq_headers = [(''Connection'', ''close''), (''Host'', ''h'')]\<rparr>"

lemma sample_request_good: "good_request sample_request"
  by code_simp

theorem parse_printed_request_witness:
  "\<exists>buf buf'. parseRequest new_HttpContext buf 5 =
      Some (Some (True, \<lparr>hc_state = kGotAll, hc_request = sample_request\<lparr>rq_receiveTime := 5\<rparr>\<rparr>, buf'))
    \<and> contents buf' = ''GET''"
proof -
  obtain buf where "buffer_ok buf" "contents buf = request_text sample_request @ ''GET''"
    using buffer_holding by blast
  from parse_printed_request [OF sample_request_good this] show ?thesis by blast
qed

end
