(* ===== verification/Http_Server.thy ===== *)
theory Http_Server
  imports Http_Context
begin

text \<open>
  muduo/net/http/HttpServer.cc: the callbacks the HTTP server hangs on its TCP connections. What a
  callback does to the connection is the list of the calls it makes (\<open>send\<close>, \<open>shutdown\<close>); the
  user's HttpCallback is a parameter. The context is the connection's \<open>boost::any\<close>, None before
  the connection callback has set it.
\<close>

datatype conn_call = Send string | Shutdown

type_synonym http_callback = "HttpRequest \<Rightarrow> HttpResponse \<Rightarrow> HttpResponse"

definition defaultHttpCallback :: http_callback where
  "defaultHttpCallback rq resp =
     setCloseConnection (setStatusMessage (setStatusCode resp k404NotFound) ''Not Found'') True"

definition onConnection :: "bool \<Rightarrow> HttpContext option \<Rightarrow> HttpContext option" where
  "onConnection up ctx = (if up then Some new_HttpContext else ctx)"

definition closes :: "HttpRequest \<Rightarrow> bool" where
  "closes req = (let connection = getHeader req ''Connection''
     in connection = ''close'' \<or> rq_version req = kHttp10 \<and> connection \<noteq> ''Keep-Alive'')"

definition onRequest :: "http_callback \<Rightarrow> HttpRequest \<Rightarrow> conn_call list option" where
  "onRequest httpCallback req =
     (let response = httpCallback req (new_HttpResponse (closes req))
      in do {
        buf \<leftarrow> appendToBuffer response (new_Buffer kInitialSize);
        Some (Send (contents buf) # (if rs_closeConnection response then [Shutdown] else [])) })"

definition bad_request :: string where
  "bad_request = ''HTTP/1.1 400 Bad Request'' @ crlf @ crlf"

text \<open>The outer option is parseRequest's loop; a context that was never set is a null dereference.\<close>

definition onMessage ::
    "http_callback \<Rightarrow> HttpContext option \<Rightarrow> buffer \<Rightarrow> int
     \<Rightarrow> (conn_call list \<times> HttpContext option \<times> buffer) option option" where
  "onMessage httpCallback ctx buf receiveTime =
     (case ctx of
        None \<Rightarrow> Some None
      | Some context \<Rightarrow>
          (case parseRequest context buf receiveTime of
             None \<Rightarrow> None
           | Some None \<Rightarrow> Some None
           | Some (Some (ok, context, buf)) \<Rightarrow>
               (let calls = (if \<not> ok then [Send bad_request, Shutdown] else [])
                in if gotAll context
                   then Some (do {
                     answer \<leftarrow> onRequest httpCallback (hc_request context);
                     Some (calls @ answer, Some (reset context), buf) })
                   else Some (Some (calls, Some context, buf)))))"

lemma reset_new: "reset c = new_HttpContext"
  by (cases c) (simp add: reset_def swap_HttpRequest_def new_HttpContext_def)

text \<open>The two ways a read ends.\<close>

lemma onMessage_waits:
  "parseRequest c buf t = Some (Some (ok, c', buf')) \<Longrightarrow> \<not> gotAll c' \<Longrightarrow>
   onMessage cb (Some c) buf t = Some (Some (if \<not> ok then [Send bad_request, Shutdown] else [], Some c', buf'))"
  by (simp add: onMessage_def)

lemma onMessage_got:
  "parseRequest c buf t = Some (Some (ok, c', buf')) \<Longrightarrow> gotAll c' \<Longrightarrow>
   onMessage cb (Some c) buf t = Some (onRequest cb (hc_request c') \<bind> (\<lambda>answer.
     Some ((if \<not> ok then [Send bad_request, Shutdown] else []) @ answer, Some (reset c'), buf')))"
  by (simp add: onMessage_def)

lemma onRequest_abs:
  assumes "length (rs_body (cb rq (new_HttpResponse (closes rq)))) < 10 ^ 13"
  shows "onRequest cb rq = Some (let rs = cb rq (new_HttpResponse (closes rq))
    in Send (response_text rs) # (if rs_closeConnection rs then [Shutdown] else []))"
proof -
  obtain b where "appendToBuffer (cb rq (new_HttpResponse (closes rq))) (new_Buffer kInitialSize) = Some b"
      "contents b = response_text (cb rq (new_HttpResponse (closes rq)))"
    using appendToBuffer_abs [OF new_Buffer_ok assms, of kInitialSize] by auto
  then show ?thesis by (simp add: onRequest_def Let_def)
qed

text \<open>A rejected request line stays in the buffer and its method in the context.\<close>

lemma parse_bytes_rejected:
  assumes "parse_bytes c s t True = Some (False, c', rest)" "parsing c"
  shows "hc_state c' = kExpectRequestLine \<and> rest = s \<and> (\<exists>k. search_crlf 0 s = Some k
    \<and> processRequestLine (hc_request c) (take k s) = Some (False, hc_request c'))"
proof (cases "hc_state c = kExpectHeaders")
  case True
  with parse_bytes_headers [OF True, of s True] assms show ?thesis by auto
next
  case False
  then have line: "hc_state c = kExpectRequestLine" using assms(2) by (simp add: parsing_def)
  show ?thesis
  proof (cases "search_crlf 0 s")
    case None
    with assms show ?thesis by (simp add: parse_bytes_waits)
  next
    case (Some k)
    note found = parse_bytes_found [OF Some]
    obtain ok rq where rq: "processRequestLine (hc_request c) (take k s) = Some (ok, rq)"
      using assms line by (auto simp: found split: option.splits)
    show ?thesis
    proof (cases ok)
      case True
      with line rq assms
        parse_bytes_headers [of "c\<lparr>hc_state := kExpectHeaders, hc_request := setReceiveTime rq t\<rparr>" "drop (k + 2) s" True]
      show ?thesis by (auto simp: found)
    next
      case False
      with line rq assms(1) have "c' = c\<lparr>hc_request := rq\<rparr>" "rest = s"
        by (auto simp: found)
      with Some line rq False show ?thesis by simp
    qed
  qed
qed

lemma rejected_method_has_space:
  assumes "processRequestLine rq line = Some (False, rq')" "rq_method rq = kInvalid" "rq_method rq' \<noteq> kInvalid"
  shows "std_find (CHR '' '') line \<noteq> length line"
  using assms by (auto simp: processRequestLine_def)

lemma processRequestLine_again:
  "rq_method rq \<noteq> kInvalid \<Longrightarrow> std_find (CHR '' '') line \<noteq> length line \<Longrightarrow> processRequestLine rq line = None"
  by (simp add: processRequestLine_def setMethod_def Let_def)

subsection \<open>A request that arrives in pieces\<close>

text \<open>
  The reads of a connection, each with its time: handleRead of TcpConnection appends the bytes to the input
  buffer and calls onMessage, whatever came of the reads before. The calls of every read are kept apart.
\<close>

fun serve_reads :: "http_callback \<Rightarrow> HttpContext option \<Rightarrow> buffer \<Rightarrow> (string \<times> int) list
    \<Rightarrow> (conn_call list list \<times> HttpContext option \<times> buffer) option option" where
  "serve_reads cb ctx b [] = Some (Some ([], ctx, b))"
| "serve_reads cb ctx b ((s, t) # rs) =
     (case buffer_append b s of
        None \<Rightarrow> Some None
      | Some b1 \<Rightarrow>
          (case onMessage cb ctx b1 t of
             None \<Rightarrow> None
           | Some None \<Rightarrow> Some None
           | Some (Some (calls, ctx', b')) \<Rightarrow>
               map_option (map_option (\<lambda>(cs, c, b). (calls # cs, c, b))) (serve_reads cb ctx' b' rs)))"

text \<open>The time of the read that completes the first line of what is there (\<open>p\<close>) and comes; else \<open>t\<close>.\<close>

fun line_time :: "string \<Rightarrow> (string \<times> int) list \<Rightarrow> int \<Rightarrow> int" where
  "line_time p [] t = t"
| "line_time p ((s, u) # rs) t = (if search_crlf 0 (p @ s) \<noteq> None then u else line_time (p @ s) rs t)"

text \<open>What a result is, the storage of the buffer aside.\<close>

definition seen :: "('a \<times> 'b \<times> buffer) option option \<Rightarrow> ('a \<times> 'b \<times> string) option option" where
  "seen r = map_option (map_option (\<lambda>(x, y, b). (x, y, contents b))) r"

lemma onMessage_seen:
  assumes "parsing c" "buffer_ok b" "parsing c'" "buffer_ok b'"
    "parse_bytes c (contents b) t True = parse_bytes c' (contents b') t' True"
  shows "seen (onMessage cb (Some c) b t) = seen (onMessage cb (Some c') b' t') \<and> onMessage cb (Some c) b t \<noteq> None"
proof -
  obtain r1 where r1: "parseRequest c b t = Some r1"
      "map_option (\<lambda>(r, c', b'). (r, c', contents b')) r1 = parse_bytes c (contents b) t True"
    using parseRequest_abs [OF assms(2,1)] by metis
  obtain r2 where r2: "parseRequest c' b' t' = Some r2"
      "map_option (\<lambda>(r, c', b'). (r, c', contents b')) r2 = parse_bytes c' (contents b') t' True"
    using parseRequest_abs [OF assms(4,3)] by metis
  have eq: "map_option (\<lambda>(r, c', b'). (r, c', contents b')) r1 = map_option (\<lambda>(r, c', b'). (r, c', contents b')) r2"
    using r1(2) r2(2) assms(5) by simp
  show ?thesis
  proof (cases r1)
    case None
    then have "r2 = None" using eq by simp
    with None r1(1) r2(1) show ?thesis by (simp add: onMessage_def seen_def)
  next
    case (Some x)
    obtain ok c1 b1 where x: "x = (ok, c1, b1)" by (cases x)
    then obtain b2 where y: "r2 = Some (ok, c1, b2)" "contents b2 = contents b1"
      using eq Some by (cases r2) auto
    show ?thesis using r1(1) r2(1) Some x y
      by (cases "onRequest cb (hc_request c1)") (simp_all add: onMessage_def seen_def Let_def)
  qed
qed

lemma onMessage_waits_bytes:
  assumes "parse_bytes c (contents b) t True = Some (True, c', rest)" "parsing c'" "parsing c" "buffer_ok b"
  shows "\<exists>b'. onMessage cb (Some c) b t = Some (Some ([], Some c', b')) \<and> buffer_ok b' \<and> contents b' = rest"
proof -
  obtain r where r: "parseRequest c b t = Some r"
      "map_option (\<lambda>(r, c', b'). (r, c', contents b')) r = parse_bytes c (contents b) t True"
      "\<And>ok c' b'. r = Some (ok, c', b') \<Longrightarrow> buffer_ok b'"
    using parseRequest_abs [OF assms(4,3)] by metis
  then obtain b' where b': "r = Some (True, c', b')" "contents b' = rest" using assms(1) by auto
  have "\<not> gotAll c'" using assms(2) by (auto simp: parsing_def gotAll_def)
  with onMessage_waits [OF r(1) [unfolded b'(1)] this, of cb] b' r(3) show ?thesis by auto
qed

lemma onRequest_not_silent: "onRequest cb rq = Some calls \<Longrightarrow> calls \<noteq> []"
  by (auto simp: onRequest_def Let_def bind_Some_iff)

lemma onMessage_silent:
  assumes "onMessage cb (Some c) b t = Some (Some ([], ctx, b'))" "parsing c" "buffer_ok b"
  shows "\<exists>c'. ctx = Some c' \<and> parsing c' \<and> buffer_ok b' \<and> parse_bytes c (contents b) t True = Some (True, c', contents b')"
proof -
  obtain r where r: "parseRequest c b t = Some r"
      "map_option (\<lambda>(r, c', b'). (r, c', contents b')) r = parse_bytes c (contents b) t True"
      "\<And>ok c' b'. r = Some (ok, c', b') \<Longrightarrow> buffer_ok b'"
    using parseRequest_abs [OF assms(3,2)] by metis
  obtain ok c' b1 where x: "r = Some (ok, c', b1)"
    using assms(1) r(1) by (cases r) (auto simp: onMessage_def)
  have ok: "ok \<and> \<not> gotAll c' \<and> ctx = Some c' \<and> b' = b1"
    using assms(1) r(1) x by (auto simp: onMessage_def Let_def bind_Some_iff dest: onRequest_not_silent split: if_splits)
  have bytes: "parse_bytes c (contents b) t True = Some (True, c', contents b1)" using r(2) x ok by simp
  have "parsing c'"
    using parse_bytes_waiting [OF bytes assms(2)] ok by (auto simp: parsing_def gotAll_def)
  with bytes ok r(3) x show ?thesis by auto
qed

lemma silent_reads:
  assumes "serve_reads cb (Some c) b reads = Some (Some (css, ctx, b'))" "\<forall>cs \<in> set css. cs = []" "parsing c" "buffer_ok b"
    "\<And>t. parse_bytes c (contents b) t True = Some (True, c, contents b)"
  shows "\<exists>c'. ctx = Some c' \<and> parsing c' \<and> buffer_ok b' \<and>
    (\<forall>d t. parse_bytes c' (contents b' @ d) t True = parse_bytes c (contents b @ concat (map fst reads) @ d)
       (if hc_state c = kExpectRequestLine then line_time (contents b) reads t else t) True)"
  using assms
proof (induction reads arbitrary: c b css)
  case Nil
  then show ?case by auto
next
  case (Cons r reads)
  obtain s u where r: "r = (s, u)" by (cases r)
  obtain b1 where b1: "buffer_append b s = Some b1" "buffer_ok b1" "contents b1 = contents b @ s"
    using buffer_append_abs [OF Cons.prems(4)] by blast
  obtain calls ctx1 b2 css' where m: "onMessage cb (Some c) b1 u = Some (Some (calls, ctx1, b2))"
      "serve_reads cb ctx1 b2 reads = Some (Some (css', ctx, b'))" "css = calls # css'"
    using Cons.prems(1) r b1(1) by (auto split: option.splits)
  then have silent: "calls = []" "\<forall>cs \<in> set css'. cs = []" using Cons.prems(2) by auto
  obtain c1 where c1: "ctx1 = Some c1" "parsing c1" "buffer_ok b2"
      and run: "parse_bytes c (contents b @ s) u True = Some (True, c1, contents b2)"
    using onMessage_silent [OF m(1) [unfolded silent(1)] Cons.prems(3) b1(2)] b1(3) by auto
  have go: "parse_bytes c1 (contents b2 @ d) t True
      = parse_bytes c ((contents b @ s) @ d) (if hc_state c1 = kExpectRequestLine then t else u) True" for d t
    using parse_bytes_resume [OF run Cons.prems(3) c1(2), of d t] by simp
  have w: "hc_state c1 = kExpectRequestLine \<and> hc_state c = kExpectRequestLine \<and> search_crlf 0 (contents b @ s) = None
        \<and> c1 = c \<and> contents b2 = contents b @ s
      \<or> hc_state c1 = kExpectHeaders \<and> (hc_state c = kExpectRequestLine \<longrightarrow> search_crlf 0 (contents b @ s) \<noteq> None)"
    using parse_bytes_waiting [OF run Cons.prems(3)] c1(2) by (auto simp: parsing_def)
  have idle: "parse_bytes c1 (contents b2) t True = Some (True, c1, contents b2)" for t
    using w
  proof
    assume "hc_state c1 = kExpectRequestLine \<and> hc_state c = kExpectRequestLine \<and> search_crlf 0 (contents b @ s) = None
        \<and> c1 = c \<and> contents b2 = contents b @ s"
    then show ?thesis by (simp add: parse_bytes_waits)
  next
    assume "hc_state c1 = kExpectHeaders \<and> (hc_state c = kExpectRequestLine \<longrightarrow> search_crlf 0 (contents b @ s) \<noteq> None)"
    then show ?thesis using go [of "[]" t] run by simp
  qed
  obtain c' where c': "ctx = Some c'" "parsing c'" "buffer_ok b'"
    and rest: "\<And>d t. parse_bytes c' (contents b' @ d) t True = parse_bytes c1 (contents b2 @ concat (map fst reads) @ d)
       (if hc_state c1 = kExpectRequestLine then line_time (contents b2) reads t else t) True"
    using Cons.IH [OF m(2) [unfolded c1(1)] silent(2) c1(2,3) idle] by blast
  have same: "parse_bytes c x t True = parse_bytes c x t' True" if "hc_state c = kExpectHeaders" for x t t'
    using parse_bytes_headers [OF that, of x True] by (metis option.inject)
  have "parse_bytes c' (contents b' @ d) t True = parse_bytes c (contents b @ concat (map fst (r # reads)) @ d)
       (if hc_state c = kExpectRequestLine then line_time (contents b) (r # reads) t else t) True" for d t
    using w
  proof
    assume "hc_state c1 = kExpectRequestLine \<and> hc_state c = kExpectRequestLine \<and> search_crlf 0 (contents b @ s) = None
        \<and> c1 = c \<and> contents b2 = contents b @ s"
    then show ?thesis using rest [of d t] by (simp add: r)
  next
    assume h: "hc_state c1 = kExpectHeaders \<and> (hc_state c = kExpectRequestLine \<longrightarrow> search_crlf 0 (contents b @ s) \<noteq> None)"
    then show ?thesis using rest [of d t] go [of "concat (map fst reads) @ d" t] Cons.prems(3) same [of _ u t]
      by (auto simp: r parsing_def)
  qed
  with c' show ?case by blast
qed

lemma serve_reads_append:
  assumes "serve_reads cb ctx b reads = Some (Some (css, ctx', b'))"
  shows "serve_reads cb ctx b (reads @ more_reads) =
    map_option (map_option (\<lambda>(cs, c, b). (css @ cs, c, b))) (serve_reads cb ctx' b' more_reads)"
  using assms
proof (induction reads arbitrary: ctx b css)
  case Nil
  then show ?case by (simp add: option.map_ident prod.case_eq_if)
next
  case (Cons r reads)
  obtain s u where r: "r = (s, u)" by (cases r)
  from Cons.prems obtain b1 calls ctx1 b2 css' where *: "buffer_append b s = Some b1"
      "onMessage cb ctx b1 u = Some (Some (calls, ctx1, b2))"
      "serve_reads cb ctx1 b2 reads = Some (Some (css', ctx', b'))" "css = calls # css'"
    by (auto simp: r split: option.splits)
  show ?case using Cons.IH [OF *(3)] *(1,2,4)
    by (simp add: r option.map_comp comp_def case_prod_beta)
qed

subsection \<open>Properties\<close>

text \<open>
  C2: How the network cuts the bytes does not matter: as long as the reads of a fresh connection have been
  answered with nothing, the next read gives the calls, the context and the unread bytes (or the abort) that
  one read of all the bytes so far gives, at the time of the read that completed the request line. What
  is read after an answer is not covered: there the cut does matter, as the abort below shows.
\<close>

theorem answer_is_chunk_independent:
  assumes "serve_reads cb (Some new_HttpContext) (new_Buffer kInitialSize) reads = Some (Some (css, ctx, b))"
    and "\<forall>cs \<in> set css. cs = []"
  shows "serve_reads cb (Some new_HttpContext) (new_Buffer kInitialSize) (reads @ [(s, t)]) \<noteq> None
    \<and> seen (serve_reads cb (Some new_HttpContext) (new_Buffer kInitialSize) (reads @ [(s, t)])) =
      map_option (map_option (\<lambda>(cs, c, rest). (css @ cs, c, rest)))
        (seen (serve_reads cb (Some new_HttpContext) (new_Buffer kInitialSize)
          [(concat (map fst reads) @ s, line_time [] reads t)]))"
proof -
  let ?c = new_HttpContext and ?b = "new_Buffer kInitialSize"
  have start: "parsing ?c" "hc_state ?c = kExpectRequestLine" by (simp_all add: parsing_def new_HttpContext_def)
  have idle: "parse_bytes ?c (contents ?b) t True = Some (True, ?c, contents ?b)" for t by (simp add: parse_bytes_waits)
  obtain c' where c': "ctx = Some c'" "parsing c'" "buffer_ok b"
    "\<And>d t. parse_bytes c' (contents b @ d) t True = parse_bytes ?c (concat (map fst reads) @ d) (line_time [] reads t) True"
    using silent_reads [OF assms start(1) new_Buffer_ok idle] start(2) by auto
  obtain b1 where b1: "buffer_append b s = Some b1" "buffer_ok b1" "contents b1 = contents b @ s"
    using buffer_append_abs [OF c'(3)] by blast
  obtain b2 where b2: "buffer_append ?b (concat (map fst reads) @ s) = Some b2" "buffer_ok b2"
      "contents b2 = concat (map fst reads) @ s"
    using buffer_append_abs [OF new_Buffer_ok, of kInitialSize "concat (map fst reads) @ s"] by auto
  have "parse_bytes c' (contents b1) t True = parse_bytes ?c (contents b2) (line_time [] reads t) True"
    using c'(4) [of s t] b1(3) b2(3) by simp
  from onMessage_seen [OF c'(2) b1(2) start(1) b2(2) this, of cb]
  have eq: "seen (onMessage cb (Some c') b1 t) = seen (onMessage cb (Some ?c) b2 (line_time [] reads t))"
    and ends: "onMessage cb (Some c') b1 t \<noteq> None" by auto
  obtain m1 where m1: "onMessage cb (Some c') b1 t = Some m1" using ends by blast
  obtain m2 where m2: "onMessage cb (Some ?c) b2 (line_time [] reads t) = Some m2"
    using eq m1 by (cases "onMessage cb (Some ?c) b2 (line_time [] reads t)") (auto simp: seen_def)
  have "map_option (\<lambda>(x, y, b). (x, y, contents b)) m1 = map_option (\<lambda>(x, y, b). (x, y, contents b)) m2"
    using eq by (simp add: seen_def m1 m2)
  then show ?thesis
    using b1(1) b2(1) unfolding serve_reads_append [OF assms(1)]
    by (cases m1; cases m2) (auto simp: c'(1) seen_def m1 m2)
qed

lemma answer_is_chunk_independent_witness:
  "\<exists>res. serve_reads defaultHttpCallback (Some new_HttpContext) (new_Buffer kInitialSize)
      ([(''GET / HT'', 1), (''TP/1.1'' @ [CR], 2)] @ [([LF] @ crlf @ ''GET'', 3)]) = Some res
    \<and> seen (Some res) = map_option (map_option (\<lambda>(cs, c, rest). ([[], []] @ cs, c, rest)))
        (seen (serve_reads defaultHttpCallback (Some new_HttpContext) (new_Buffer kInitialSize)
          [(''GET / HTTP/1.1'' @ crlf @ crlf @ ''GET'', 3)]))"
proof -
  let ?c = new_HttpContext and ?b = "new_Buffer kInitialSize" and ?cb = defaultHttpCallback
  have p: "parsing ?c" by (simp add: parsing_def new_HttpContext_def)
  obtain b1 where b1: "buffer_append ?b ''GET / HT'' = Some b1" "buffer_ok b1" "contents b1 = ''GET / HT''"
    using buffer_append_abs [OF new_Buffer_ok, of kInitialSize "''GET / HT''"] by auto
  have "parse_bytes ?c (contents b1) 1 True = Some (True, ?c, contents b1)"
    unfolding b1(3) by code_simp
  from onMessage_waits_bytes [OF this p p b1(2), of ?cb] obtain b2 where b2:
    "onMessage ?cb (Some ?c) b1 1 = Some (Some ([], Some ?c, b2))" "buffer_ok b2" "contents b2 = ''GET / HT''"
    unfolding b1(3) by blast
  obtain b3 where b3: "buffer_append b2 (''TP/1.1'' @ [CR]) = Some b3" "buffer_ok b3" "contents b3 = ''GET / HTTP/1.1'' @ [CR]"
    using buffer_append_abs [OF b2(2), of "''TP/1.1'' @ [CR]"] b2(3) by auto
  have "parse_bytes ?c (contents b3) 2 True = Some (True, ?c, contents b3)"
    unfolding b3(3) by code_simp
  from onMessage_waits_bytes [OF this p p b3(2), of ?cb] obtain b4 where b4:
    "onMessage ?cb (Some ?c) b3 2 = Some (Some ([], Some ?c, b4))" by blast
  have run: "serve_reads ?cb (Some ?c) ?b [(''GET / HT'', 1), (''TP/1.1'' @ [CR], 2)] = Some (Some ([[], []], Some ?c, b4))"
    using b1(1) b2(1) b3(1) b4 by simp
  have "concat (map fst [(''GET / HT'', 1 :: int), (''TP/1.1'' @ [CR], 2)]) @ [LF] @ crlf @ ''GET''
      = ''GET / HTTP/1.1'' @ crlf @ crlf @ ''GET''" "line_time [] [(''GET / HT'', 1), (''TP/1.1'' @ [CR], 2)] 3 = 3"
    by code_simp+
  with answer_is_chunk_independent [OF run, of "[LF] @ crlf @ ''GET''" 3] show ?thesis by auto
qed

text \<open>
  C12: A well-formed request at the front of the buffer is answered exactly once: onMessage sends
  the text of the response the user's callback fills in, shuts the connection down exactly when
  that response says close, resets the context for the next request and consumes exactly the
  request's bytes (a pipelined request behind it stays in the buffer, unanswered, until the next read).
\<close>

theorem onMessage_answers_request:
  assumes "good_request rq" "buffer_ok buf" "contents buf = request_text rq @ rest"
    and "rs = cb (rq\<lparr>rq_receiveTime := t\<rparr>) (new_HttpResponse (closes rq))" "length (rs_body rs) < 10 ^ 13"
  shows "\<exists>buf'. onMessage cb (Some new_HttpContext) buf t =
      Some (Some (Send (response_text rs) # (if rs_closeConnection rs then [Shutdown] else []),
        Some new_HttpContext, buf'))
    \<and> buffer_ok buf' \<and> contents buf' = rest"
proof -
  have "parsing new_HttpContext" by (simp add: parsing_def new_HttpContext_def)
  then obtain res where res: "parseRequest new_HttpContext buf t = Some res"
      "map_option (\<lambda>(r, c', b). (r, c', contents b)) res = parse_bytes new_HttpContext (contents buf) t True"
      "\<And>r c' b. res = Some (r, c', b) \<Longrightarrow> buffer_ok b"
    using parseRequest_abs [OF assms(2)] by metis
  have same: "closes (rq\<lparr>rq_receiveTime := t\<rparr>) = closes rq"
    by (simp add: closes_def getHeader_def)
  obtain buf' where "res = Some (True, \<lparr>hc_state = kGotAll, hc_request = rq\<lparr>rq_receiveTime := t\<rparr>\<rparr>, buf')"
      "contents buf' = rest"
    using res(2) unfolding assms(3) parse_bytes_request_text [OF assms(1)] by auto
  moreover from this have "buffer_ok buf'" using res(3) by blast
  moreover have "onRequest cb (rq\<lparr>rq_receiveTime := t\<rparr>)
      = Some (Send (response_text rs) # (if rs_closeConnection rs then [Shutdown] else []))"
    using onRequest_abs [of cb "rq\<lparr>rq_receiveTime := t\<rparr>"] assms(5)
    unfolding same assms(4) [symmetric] by (simp only: Let_def)
  ultimately show ?thesis
    using res(1) by (simp add: onMessage_def gotAll_def reset_new)
qed

theorem onMessage_answers_request_witness:
  "\<exists>buf buf'. onMessage defaultHttpCallback (Some new_HttpContext) buf 5 =
      Some (Some ([Send (''HTTP/1.1 404 Not Found'' @ crlf @ ''Connection: close'' @ crlf @ crlf), Shutdown],
        Some new_HttpContext, buf'))
    \<and> contents buf' = ''GET''"
proof -
  let ?rs = "defaultHttpCallback (sample_request\<lparr>rq_receiveTime := 5\<rparr>) (new_HttpResponse (closes sample_request))"
  obtain buf where "buffer_ok buf" "contents buf = request_text sample_request @ ''GET''"
    using buffer_holding by blast
  moreover have "response_text ?rs = ''HTTP/1.1 404 Not Found'' @ crlf @ ''Connection: close'' @ crlf @ crlf"
    "rs_closeConnection ?rs" "length (rs_body ?rs) < 10 ^ 13"
    by (code_simp, code_simp)
      (simp add: defaultHttpCallback_def setCloseConnection_def setStatusMessage_def setStatusCode_def new_HttpResponse_def)
  ultimately show ?thesis
    using onMessage_answers_request [OF sample_request_good, of buf "''GET''" ?rs defaultHttpCallback 5] by auto
qed

text \<open>
  C15: A request line whose method was recognised but which is rejected afterwards (a bad target or
  version) is answered 400 and kept in the buffer with the method already set: the next read on
  that connection trips the assertion in setMethod and ends the whole process.
\<close>

theorem rejected_request_aborts_on_next_read:
  assumes "buffer_ok buf" "onMessage cb (Some new_HttpContext) buf t = Some (Some (calls, Some c', buf'))"
    and "calls = [Send bad_request, Shutdown]" "rq_method (hc_request c') \<noteq> kInvalid"
    and "buffer_append buf' extra = Some buf''"
  shows "onMessage cb (Some c') buf'' t' = Some None"
proof -
  let ?c = new_HttpContext
  have start: "parsing ?c" "rq_method (hc_request ?c) = kInvalid"
    by (simp_all add: parsing_def new_HttpContext_def new_HttpRequest_def)
  obtain res where res: "parseRequest ?c buf t = Some res"
      "map_option (\<lambda>(r, c', b). (r, c', contents b)) res = parse_bytes ?c (contents buf) t True"
      "\<And>r c' b. res = Some (r, c', b) \<Longrightarrow> buffer_ok b"
    using parseRequest_abs [OF assms(1) start(1)] by metis
  obtain ok c1 b1 where r: "res = Some (ok, c1, b1)"
    using assms(2) res(1) by (cases res) (auto simp: onMessage_def)
  have "\<not> gotAll c1"
  proof
    assume "gotAll c1"
    then have "c' = reset c1"
      using assms(2) onMessage_got [OF res(1) [unfolded r], of cb] by (auto simp: bind_Some_iff)
    then show False using assms(4) start(2) by (simp add: reset_new)
  qed
  note run = onMessage_waits [OF res(1) [unfolded r] this, of cb]
  then have c': "c' = c1" "buf' = b1" "\<not> ok"
    using assms(2,3) by (auto split: if_splits)
  then have bad: "parse_bytes ?c (contents buf) t True = Some (False, c', contents buf')" and ok': "buffer_ok buf'"
    using res(2,3) r c' by auto
  from parse_bytes_rejected [OF bad start(1)] obtain k where
    k: "search_crlf 0 (contents buf') = Some k" "hc_state c' = kExpectRequestLine"
       "processRequestLine (hc_request ?c) (take k (contents buf')) = Some (False, hc_request c')"
    by auto
  have again: "processRequestLine (hc_request c') (take k (contents buf')) = None"
    using rejected_method_has_space [OF k(3) start(2) assms(4)] assms(4) by (intro processRequestLine_again)
  have b'': "buffer_ok buf''" "contents buf'' = contents buf' @ extra"
    using buffer_append_abs [OF ok', of extra] assms(5) by auto
  have "parse_bytes c' (contents buf'') t' True = None"
    using again k(2) unfolding b''(2) by (simp add: parse_bytes_found [OF k(1)])
  moreover have pc: "parsing c'"
    using k(2) by (simp add: parsing_def)
  obtain res' where "parseRequest c' buf'' t' = Some res'"
      "map_option (\<lambda>(r, c', b). (r, c', contents b)) res' = parse_bytes c' (contents buf'') t' True"
    using parseRequest_abs [OF b''(1) pc, of t'] by metis
  ultimately show ?thesis by (simp add: onMessage_def)
qed

theorem rejected_request_aborts_on_next_read_witness:
  "\<exists>buf c' buf' buf''.
     onMessage defaultHttpCallback (Some new_HttpContext) buf 1 = Some (Some ([Send bad_request, Shutdown], Some c', buf'))
     \<and> buffer_append buf' ''x'' = Some buf'' \<and> onMessage defaultHttpCallback (Some c') buf'' 2 = Some None"
proof -
  let ?s = "''GET / HTTP/9.9'' @ crlf" and ?c = new_HttpContext
  obtain buf where buf: "buffer_ok buf" "contents buf = ?s"
    using buffer_holding by blast
  have start: "parsing ?c" by (simp add: parsing_def new_HttpContext_def)
  obtain res where res: "parseRequest ?c buf 1 = Some res"
      "map_option (\<lambda>(r, c', b). (r, c', contents b)) res = parse_bytes ?c ?s 1 True"
      "\<And>r c' b. res = Some (r, c', b) \<Longrightarrow> buffer_ok b"
    using parseRequest_abs [OF buf(1) start] buf(2) by metis
  let ?c' = "new_HttpContext\<lparr>hc_request := new_HttpRequest\<lparr>rq_method := kGet, rq_path := ''/''\<rparr>\<rparr>"
  have "parse_bytes ?c ?s 1 True = Some (False, ?c', ?s)"
    by code_simp
  with res obtain buf' where r: "res = Some (False, ?c', buf')" "buffer_ok buf'" by auto
  obtain buf'' where b: "buffer_append buf' ''x'' = Some buf''"
    using buffer_append_abs [OF r(2), of "''x''"] by auto
  have m: "onMessage defaultHttpCallback (Some ?c) buf 1 = Some (Some ([Send bad_request, Shutdown], Some ?c', buf'))"
    using res(1) r(1) by (simp add: onMessage_def gotAll_def new_HttpContext_def)
  show ?thesis
    using m b rejected_request_aborts_on_next_read [OF buf(1) m, of "''x''" buf'' 2] by auto
qed

end
