(* ===== verification/Timer_Queue.thy ===== *)
theory Timer_Queue
  imports Prelude
begin

text \<open>
  muduo/base/Timestamp.h, muduo/net/Timer.h, Timer.cc, TimerId.h and TimerQueue.cc. A Timestamp is its
  microseconds since the epoch; a \<open>double\<close> number of seconds is a rational, truncated towards zero
  where the code casts it. The heap maps the addresses of the live Timers to them; reading a Timer
  that is not there (a use after free) is None, as is a failing assertion.

  A timer's callback is a number; \<open>user\<close> says which calls on the queue it makes. An allocation names
  the address the allocator returns; when it is not free the allocation fails and nothing is added.
\<close>

subsection \<open>Timestamp\<close>

type_synonym Timestamp = int

definition kMicroSecondsPerSecond :: int where "kMicroSecondsPerSecond = 1000 * 1000"

definition valid_time :: "Timestamp \<Rightarrow> bool" where
  "valid_time t \<longleftrightarrow> 0 < t"

definition invalid_time :: Timestamp where "invalid_time = 0"

definition secondsSinceEpoch :: "Timestamp \<Rightarrow> int" where
  "secondsSinceEpoch t = t sdiv kMicroSecondsPerSecond"

definition fromUnixTime :: "int \<Rightarrow> int \<Rightarrow> Timestamp" where
  "fromUnixTime t microseconds = t * kMicroSecondsPerSecond + microseconds"

definition timeDifference :: "Timestamp \<Rightarrow> Timestamp \<Rightarrow> rat" where
  "timeDifference high low = of_int (high - low) / of_int kMicroSecondsPerSecond"

definition truncate_rat :: "rat \<Rightarrow> int" where
  "truncate_rat x = (if x < 0 then \<lceil>x\<rceil> else \<lfloor>x\<rfloor>)"

definition addTime :: "Timestamp \<Rightarrow> rat \<Rightarrow> Timestamp" where
  "addTime timestamp seconds = timestamp + truncate_rat (seconds * of_int kMicroSecondsPerSecond)"

subsection \<open>Timers and the queue\<close>

record timer =
  t_callback :: nat
  expiration :: Timestamp
  interval :: rat
  repeats :: bool
  sequence :: int

type_synonym addr = nat
type_synonym timer_id = "addr \<times> int"

definition UINTPTR_MAX :: addr where "UINTPTR_MAX = 2 ^ 64 - 1"

record timer_queue =
  timers :: "(Timestamp \<times> addr) list"
  activeTimers :: "timer_id list"
  callingExpiredTimers :: bool
  cancelingTimers :: "timer_id list"
  heap :: "addr \<Rightarrow> timer option"
  numCreated :: int
  timerfd :: "(Timestamp \<times> int \<times> int) option"
  ran :: "timer_id list"
  unread :: "timer_id list"

definition new_TimerQueue :: "int \<Rightarrow> timer_queue" where
  "new_TimerQueue created = \<lparr>timers = [], activeTimers = [], callingExpiredTimers = False,
     cancelingTimers = [], heap = (\<lambda>_. None), numCreated = created, timerfd = None, ran = [], unread = []\<rparr>"

text \<open>\<open>new Timer\<close>; the sequence number comes from the atomic counter.\<close>

definition new_Timer ::
    "addr \<Rightarrow> nat \<Rightarrow> Timestamp \<Rightarrow> rat \<Rightarrow> timer_queue \<Rightarrow> (timer_id \<times> timer_queue) option" where
  "new_Timer a cb when ival q =
     (if heap q a \<noteq> None \<or> UINTPTR_MAX \<le> a then None
      else
        (let seq = numCreated q + 1
         in Some ((a, seq), q\<lparr>numCreated := seq, heap := (heap q)(a \<mapsto>
              \<lparr>t_callback = cb, expiration = when, interval = ival, repeats = 0 < ival, sequence = seq\<rparr>)\<rparr>)))"

definition restart :: "Timestamp \<Rightarrow> timer \<Rightarrow> timer" where
  "restart now t = (if repeats t then t\<lparr>expiration := addTime now (interval t)\<rparr>
     else t\<lparr>expiration := invalid_time\<rparr>)"

definition delete_Timer :: "addr \<Rightarrow> timer_queue \<Rightarrow> timer_queue" where
  "delete_Timer a q = q\<lparr>heap := (heap q)(a := None)\<rparr>"

text \<open>The \<open>timespec\<close>: seconds and nanoseconds.\<close>

definition howMuchTimeFromNow :: "Timestamp \<Rightarrow> Timestamp \<Rightarrow> int \<times> int" where
  "howMuchTimeFromNow now when =
     (let microseconds = (if when - now < 100 then 100 else when - now)
      in (microseconds sdiv kMicroSecondsPerSecond, (microseconds smod kMicroSecondsPerSecond) * 1000))"

definition resetTimerfd :: "Timestamp \<Rightarrow> Timestamp \<Rightarrow> timer_queue \<Rightarrow> timer_queue" where
  "resetTimerfd now when q = q\<lparr>timerfd := Some (now, howMuchTimeFromNow now when)\<rparr>"

definition insert_timer :: "addr \<Rightarrow> timer_queue \<Rightarrow> (bool \<times> timer_queue) option" where
  "insert_timer a q = do {
     require (length (timers q) = length (activeTimers q));
     t \<leftarrow> heap q a;
     let when = expiration t;
     let earliestChanged = (timers q = [] \<or> when < fst (hd (timers q)));
     require ((when, a) \<notin> set (timers q));
     require ((a, sequence t) \<notin> set (activeTimers q));
     let q = q\<lparr>timers := sset_insert (when, a) (timers q), activeTimers := sset_insert (a, sequence t) (activeTimers q)\<rparr>;
     require (length (timers q) = length (activeTimers q));
     Some (earliestChanged, q) }"

definition addTimerInLoop :: "Timestamp \<Rightarrow> addr \<Rightarrow> timer_queue \<Rightarrow> timer_queue option" where
  "addTimerInLoop now a q = do {
     (earliestChanged, q) \<leftarrow> insert_timer a q;
     t \<leftarrow> heap q a;
     Some (if earliestChanged then resetTimerfd now (expiration t) q else q) }"

definition cancelInLoop :: "timer_id \<Rightarrow> timer_queue \<Rightarrow> timer_queue option" where
  "cancelInLoop timer q = do {
     require (length (timers q) = length (activeTimers q));
     q \<leftarrow> (if timer \<in> set (activeTimers q)
          then do {
            t \<leftarrow> heap q (fst timer);
            require ((expiration t, fst timer) \<in> set (timers q));
            let q = q\<lparr>timers := sset_erase (expiration t, fst timer) (timers q)\<rparr>;
            let q = delete_Timer (fst timer) q;
            Some (q\<lparr>activeTimers := sset_erase timer (activeTimers q)\<rparr>) }
          else Some (if callingExpiredTimers q
            then q\<lparr>cancelingTimers := sset_insert timer (cancelingTimers q)\<rparr> else q));
     require (length (timers q) = length (activeTimers q));
     Some q }"

text \<open>Removing the expired timers from the active set, one by one.\<close>

fun erase_active :: "(Timestamp \<times> addr) list \<Rightarrow> timer_queue \<Rightarrow> timer_queue option" where
  "erase_active [] q = Some q"
| "erase_active ((e, a) # es) q = do {
     t \<leftarrow> heap q a;
     require ((a, sequence t) \<in> set (activeTimers q));
     erase_active es (q\<lparr>activeTimers := sset_erase (a, sequence t) (activeTimers q)\<rparr>) }"

definition getExpired :: "Timestamp \<Rightarrow> timer_queue \<Rightarrow> ((Timestamp \<times> addr) list \<times> timer_queue) option" where
  "getExpired now q = do {
     require (length (timers q) = length (activeTimers q));
     let sentry = (now, UINTPTR_MAX);
     let rest = from_bound sentry (timers q);
     require (rest = [] \<or> now < fst (hd rest));
     let expired = below sentry (timers q);
     q \<leftarrow> erase_active expired (q\<lparr>timers := rest\<rparr>);
     require (length (timers q) = length (activeTimers q));
     Some (expired, q) }"

text \<open>
  The calls a callback makes; it runs in the loop, so they take effect at once. The last thing addTimer does
  is to read the sequence number of the timer for the TimerId it returns.
\<close>

datatype timer_call = Add_Timer addr nat Timestamp rat Timestamp | Cancel_Timer timer_id

fun run_call :: "timer_call \<Rightarrow> timer_queue \<Rightarrow> timer_queue option" where
  "run_call (Add_Timer a cb when ival now) q =
     (case new_Timer a cb when ival q of
        None \<Rightarrow> Some q
      | Some (tid, q) \<Rightarrow> do { q \<leftarrow> addTimerInLoop now (fst tid) q; timer \<leftarrow> heap q (fst tid); Some q })"
| "run_call (Cancel_Timer tid) q = cancelInLoop tid q"

fun run_calls :: "timer_call list \<Rightarrow> timer_queue \<Rightarrow> timer_queue option" where
  "run_calls [] q = Some q"
| "run_calls (c # cs) q = do { q \<leftarrow> run_call c q; run_calls cs q }"

fun run_expired :: "(nat \<Rightarrow> timer_call list) \<Rightarrow> (Timestamp \<times> addr) list \<Rightarrow> timer_queue \<Rightarrow> timer_queue option" where
  "run_expired user [] q = Some q"
| "run_expired user ((e, a) # es) q = do {
     t \<leftarrow> heap q a;
     q \<leftarrow> run_calls (user (t_callback t)) (q\<lparr>ran := ran q @ [(a, sequence t)]\<rparr>);
     run_expired user es q }"

fun reset_each :: "Timestamp \<Rightarrow> (Timestamp \<times> addr) list \<Rightarrow> timer_queue \<Rightarrow> timer_queue option" where
  "reset_each now [] q = Some q"
| "reset_each now ((e, a) # es) q = do {
     t \<leftarrow> heap q a;
     q \<leftarrow> (if repeats t \<and> (a, sequence t) \<notin> set (cancelingTimers q)
          then map_option snd (insert_timer a (q\<lparr>heap := (heap q)(a \<mapsto> restart now t)\<rparr>))
          else Some (delete_Timer a q));
     reset_each now es q }"

definition reset_timers :: "(Timestamp \<times> addr) list \<Rightarrow> Timestamp \<Rightarrow> Timestamp \<Rightarrow> timer_queue \<Rightarrow> timer_queue option" where
  "reset_timers expired now now2 q = do {
     q \<leftarrow> reset_each now expired q;
     nextExpire \<leftarrow> (if timers q \<noteq> [] then map_option expiration (heap q (snd (hd (timers q)))) else Some invalid_time);
     Some (if valid_time nextExpire then resetTimerfd now2 nextExpire q else q) }"

definition timer_handleRead ::
    "(nat \<Rightarrow> timer_call list) \<Rightarrow> Timestamp \<Rightarrow> Timestamp \<Rightarrow> timer_queue \<Rightarrow> timer_queue option" where
  "timer_handleRead user now now2 q = do {
     (expired, q) \<leftarrow> getExpired now q;
     let q = q\<lparr>callingExpiredTimers := True, cancelingTimers := []\<rparr>;
     q \<leftarrow> run_expired user expired q;
     let q = q\<lparr>callingExpiredTimers := False\<rparr>;
     reset_timers expired now now2 q }"

definition delete_TimerQueue :: "timer_queue \<Rightarrow> timer_queue" where
  "delete_TimerQueue q = foldl (\<lambda>q e. delete_Timer (snd e) q) q (timers q)"

subsection \<open>The invariant\<close>

text \<open>
  \<open>queue_ok T q\<close>: exactly the timers at the addresses \<open>T\<close> are queued, in both sets and under their own
  expiration and sequence number; all of them are live. The other live timers are detached: the
  expired ones while their callbacks run, and those another thread has created and not added yet.
\<close>

definition entry_of :: "timer_queue \<Rightarrow> addr \<Rightarrow> Timestamp \<times> addr" where
  "entry_of q a = (expiration (the (heap q a)), a)"

definition id_of :: "timer_queue \<Rightarrow> addr \<Rightarrow> timer_id" where
  "id_of q a = (a, sequence (the (heap q a)))"

definition heap_ok :: "timer_queue \<Rightarrow> bool" where
  "heap_ok q \<longleftrightarrow> (\<forall>a t. heap q a = Some t \<longrightarrow> a < UINTPTR_MAX \<and> sequence t \<le> numCreated q)
     \<and> (\<forall>a b s t. heap q a = Some s \<and> heap q b = Some t \<and> sequence s = sequence t \<longrightarrow> a = b)"

definition queue_ok :: "addr set \<Rightarrow> timer_queue \<Rightarrow> bool" where
  "queue_ok T q \<longleftrightarrow> heap_ok q \<and> T \<subseteq> dom (heap q) \<and> strict (timers q) \<and> strict (activeTimers q)
     \<and> set (timers q) = entry_of q ` T \<and> set (activeTimers q) = id_of q ` T"

lemma queue_okD:
  assumes "queue_ok T q"
  shows "heap_ok q" "T \<subseteq> dom (heap q)" "strict (timers q)" "strict (activeTimers q)"
    "set (timers q) = entry_of q ` T" "set (activeTimers q) = id_of q ` T"
  using assms by (auto simp: queue_ok_def)

lemma inj_entry_id: "inj_on (entry_of q) T" "inj_on (id_of q) T"
  by (auto simp: inj_on_def entry_of_def id_of_def)

lemma queue_lengths: "queue_ok T q \<Longrightarrow> length (timers q) = card T \<and> length (activeTimers q) = card T"
  using queue_okD [of T q] inj_entry_id [of q T]
  by (metis card_image distinct_card strict_distinct)

lemma new_TimerQueue_ok: "queue_ok {} (new_TimerQueue n)"
  by (simp add: queue_ok_def new_TimerQueue_def heap_ok_def)

lemma queue_ok_frame [simp]:
  "queue_ok T (q\<lparr>callingExpiredTimers := b\<rparr>) = queue_ok T q"
  "queue_ok T (q\<lparr>cancelingTimers := cs\<rparr>) = queue_ok T q"
  "queue_ok T (q\<lparr>timerfd := f\<rparr>) = queue_ok T q"
  "queue_ok T (q\<lparr>ran := r\<rparr>) = queue_ok T q"
  "queue_ok T (q\<lparr>unread := u\<rparr>) = queue_ok T q"
  by (auto simp: queue_ok_def heap_ok_def entry_of_def id_of_def)

text \<open>The detached timers of a state, and a step that leaves them alone.\<close>

definition detached :: "addr set \<Rightarrow> timer_queue \<Rightarrow> addr set" where
  "detached T q = dom (heap q) - T"

definition keeps :: "addr set \<Rightarrow> timer_queue \<Rightarrow> addr set \<Rightarrow> timer_queue \<Rightarrow> bool" where
  "keeps T q T' q' \<longleftrightarrow> queue_ok T' q' \<and> detached T' q' = detached T q
     \<and> (\<forall>a\<in>detached T q. heap q' a = heap q a) \<and> ran q' = ran q
     \<and> callingExpiredTimers q' = callingExpiredTimers q \<and> numCreated q \<le> numCreated q'"

lemma keeps_refl: "queue_ok T q \<Longrightarrow> keeps T q T q"
  by (simp add: keeps_def)

lemma keeps_trans: "keeps T q T' q' \<Longrightarrow> keeps T' q' T'' q'' \<Longrightarrow> keeps T q T'' q''"
  by (auto simp: keeps_def)

lemma resetTimerfd_ok [simp]:
  "queue_ok T (resetTimerfd now when q) = queue_ok T q" "heap (resetTimerfd now when q) = heap q"
  "timers (resetTimerfd now when q) = timers q" "ran (resetTimerfd now when q) = ran q"
  "activeTimers (resetTimerfd now when q) = activeTimers q"
  "callingExpiredTimers (resetTimerfd now when q) = callingExpiredTimers q"
  "numCreated (resetTimerfd now when q) = numCreated q"
  "cancelingTimers (resetTimerfd now when q) = cancelingTimers q"
  by (simp_all add: resetTimerfd_def)

subsection \<open>Inserting and cancelling\<close>

lemma insert_timer_ok:
  assumes "queue_ok T q" "heap q a = Some t" "a \<notin> T"
  shows "\<exists>q'. insert_timer a q = Some (timers q = [] \<or> expiration t < fst (hd (timers q)), q')
    \<and> queue_ok (insert a T) q' \<and> heap q' = heap q
    \<and> q' = q\<lparr>timers := sset_insert (expiration t, a) (timers q), activeTimers := sset_insert (a, sequence t) (activeTimers q)\<rparr>"
proof -
  note ok = queue_okD [OF assms(1)]
  let ?q = "q\<lparr>timers := sset_insert (expiration t, a) (timers q), activeTimers := sset_insert (a, sequence t) (activeTimers q)\<rparr>"
  have new: "(expiration t, a) \<notin> set (timers q)" "(a, sequence t) \<notin> set (activeTimers q)"
    using assms(3) unfolding ok(5,6) by (auto simp: entry_of_def id_of_def)
  have q: "queue_ok (insert a T) ?q"
    using ok assms(2) by (auto simp: queue_ok_def heap_ok_def entry_of_def id_of_def)
  show ?thesis
    using new q queue_lengths [OF assms(1)] queue_lengths [OF q] assms(2)
    by (simp add: insert_timer_def Let_def)
qed

lemma addTimerInLoop_ok:
  assumes "queue_ok T q" "heap q a = Some t" "a \<notin> T"
  shows "\<exists>q'. addTimerInLoop now a q = Some q' \<and> queue_ok (insert a T) q' \<and> heap q' = heap q \<and> ran q' = ran q
    \<and> callingExpiredTimers q' = callingExpiredTimers q \<and> numCreated q' = numCreated q
    \<and> cancelingTimers q' = cancelingTimers q"
proof -
  obtain q' where "insert_timer a q = Some (timers q = [] \<or> expiration t < fst (hd (timers q)), q')"
      "queue_ok (insert a T) q'" "heap q' = heap q"
      "q' = q\<lparr>timers := sset_insert (expiration t, a) (timers q), activeTimers := sset_insert (a, sequence t) (activeTimers q)\<rparr>"
    using insert_timer_ok [OF assms] by blast
  then show ?thesis using assms(2) by (simp add: addTimerInLoop_def)
qed

lemma new_Timer_ok:
  assumes "queue_ok T q" "new_Timer a cb when ival q = Some (tid, q')"
  shows "queue_ok T q'" "fst tid = a" "a \<notin> T" "heap q a = None" "ran q' = ran q"
    "heap q' = (heap q)(a \<mapsto> \<lparr>t_callback = cb, expiration = when, interval = ival, repeats = 0 < ival, sequence = snd tid\<rparr>)"
    "callingExpiredTimers q' = callingExpiredTimers q" "numCreated q' = numCreated q + 1" "snd tid = numCreated q + 1"
    "cancelingTimers q' = cancelingTimers q"
proof -
  have new: "heap q a = None" "a < UINTPTR_MAX" "tid = (a, numCreated q + 1)"
    "q' = q\<lparr>numCreated := numCreated q + 1, heap := (heap q)(a \<mapsto>
       \<lparr>t_callback = cb, expiration = when, interval = ival, repeats = 0 < ival, sequence = numCreated q + 1\<rparr>)\<rparr>"
    using assms(2) by (auto simp: new_Timer_def Let_def split: if_splits)
  note ok = queue_okD [OF assms(1)]
  show T: "a \<notin> T" using ok(2) new(1) by auto
  have same: "entry_of q' ` T = entry_of q ` T" "id_of q' ` T = id_of q ` T"
    using T new(4) by (auto simp: entry_of_def id_of_def intro!: image_cong)
  have "heap_ok q'"
    using ok(1) new by (fastforce simp: heap_ok_def)
  then show "queue_ok T q'"
    using ok(2-6) same new(4) by (auto simp: queue_ok_def)
qed (use assms(2) in \<open>auto simp: new_Timer_def Let_def split: if_splits\<close>)

lemma cancelInLoop_active:
  assumes "queue_ok T q" "(a, s) \<in> set (activeTimers q)"
  shows "a \<in> T \<and> id_of q a = (a, s) \<and> (\<exists>q'. cancelInLoop (a, s) q = Some q' \<and> queue_ok (T - {a}) q'
    \<and> heap q' = (heap q)(a := None) \<and> ran q' = ran q \<and> callingExpiredTimers q' = callingExpiredTimers q
    \<and> cancelingTimers q' = cancelingTimers q \<and> numCreated q' = numCreated q
    \<and> timers q' = sset_erase (entry_of q a) (timers q) \<and> activeTimers q' = sset_erase (a, s) (activeTimers q))"
proof -
  note ok = queue_okD [OF assms(1)]
  have a: "a \<in> T" and s: "id_of q a = (a, s)"
    using assms(2) ok(6) by (auto simp: id_of_def)
  then obtain t where t: "heap q a = Some t" "sequence t = s"
    using ok(2) by (auto simp: id_of_def)
  define q1 where "q1 = q\<lparr>timers := sset_erase (expiration t, a) (timers q), heap := (heap q)(a := None),
    activeTimers := sset_erase (a, s) (activeTimers q)\<rparr>"
  have q1: "timers q1 = sset_erase (expiration t, a) (timers q)" "heap q1 = (heap q)(a := None)"
      "activeTimers q1 = sset_erase (a, s) (activeTimers q)" "ran q1 = ran q" "numCreated q1 = numCreated q"
      "callingExpiredTimers q1 = callingExpiredTimers q" "cancelingTimers q1 = cancelingTimers q"
    by (simp_all add: q1_def)
  have entry: "entry_of q a = (expiration t, a)"
    using t(1) by (simp add: entry_of_def)
  then have member: "(expiration t, a) \<in> set (timers q)"
    using a ok(5) by (metis image_eqI)
  have others: "entry_of q1 b = entry_of q b" "id_of q1 b = id_of q b" if "b \<noteq> a" for b
    using that by (simp_all add: entry_of_def id_of_def q1(2))
  have "entry_of q1 ` (T - {a}) = entry_of q ` (T - {a})" "id_of q1 ` (T - {a}) = id_of q ` (T - {a})"
    by (rule image_cong, simp_all add: others)+
  moreover have "entry_of q ` (T - {a}) = entry_of q ` T - {(expiration t, a)}" "id_of q ` (T - {a}) = id_of q ` T - {(a, s)}"
    using a inj_on_image_set_diff [OF inj_entry_id(1), of T "{a}" UNIV q]
      inj_on_image_set_diff [OF inj_entry_id(2), of T "{a}" UNIV q] by (simp_all add: entry [symmetric] s [symmetric])
  ultimately have images: "entry_of q1 ` (T - {a}) = entry_of q ` T - {(expiration t, a)}"
    "id_of q1 ` (T - {a}) = id_of q ` T - {(a, s)}" by simp_all
  have "heap_ok q1"
    using ok(1) by (simp add: heap_ok_def q1(2,5))
  then have q: "queue_ok (T - {a}) q1"
    using ok(2-6) images by (auto simp: queue_ok_def q1(1-3))
  have "cancelInLoop (a, s) q = Some q1"
    using assms(2) t member queue_lengths [OF assms(1)] queue_lengths [OF q]
    by (simp add: cancelInLoop_def delete_Timer_def Let_def q1_def)
  with a s q show ?thesis by (simp add: q1 entry)
qed

lemma cancelInLoop_other:
  assumes "queue_ok T q" "tid \<notin> set (activeTimers q)"
  shows "cancelInLoop tid q = Some (if callingExpiredTimers q
    then q\<lparr>cancelingTimers := sset_insert tid (cancelingTimers q)\<rparr> else q)"
  using assms(2) queue_lengths [OF assms(1)] by (simp add: cancelInLoop_def)

text \<open>In the loop's own thread the timer is still there when its sequence number is read.\<close>

lemma run_call_add:
  assumes "queue_ok T q" "new_Timer a cb w ival q = Some (tid, q1)"
  shows "run_call (Add_Timer a cb w ival now) q = addTimerInLoop now a q1"
proof -
  note n = new_Timer_ok [OF assms]
  obtain t where t: "heap q1 a = Some t" using n(6) by simp
  then show ?thesis using addTimerInLoop_ok [OF n(1) t n(3), of now] assms(2) n(2) by auto
qed

lemma run_call_ok:
  assumes "queue_ok T q"
  shows "\<exists>T' q'. run_call c q = Some q' \<and> keeps T q T' q'"
proof (cases c)
  case (Add_Timer a cb w ival now)
  show ?thesis
  proof (cases "new_Timer a cb w ival q")
    case None
    with Add_Timer keeps_refl [OF assms] show ?thesis by auto
  next
    case (Some p)
    obtain tid q1 where p: "p = (tid, q1)" by (cases p)
    note n = new_Timer_ok [OF assms Some [unfolded p]]
    have "\<exists>t. heap q1 a = Some t" using n(6) by simp
    then obtain t where "heap q1 a = Some t" by blast
    from addTimerInLoop_ok [OF n(1) this n(3), of now] obtain q' where
      q': "addTimerInLoop now a q1 = Some q'" "queue_ok (insert a T) q'" "heap q' = heap q1" "ran q' = ran q1"
        "callingExpiredTimers q' = callingExpiredTimers q1" "numCreated q' = numCreated q1"
      by blast
    have "keeps T q (insert a T) q'"
      unfolding keeps_def detached_def using q'(2-6) n(4-8) by auto
    then show ?thesis using Add_Timer run_call_add [OF assms Some [unfolded p], of now] q'(1) by auto
  qed
next
  case (Cancel_Timer tid)
  obtain a s where tid: "tid = (a, s)" by (cases tid)
  show ?thesis
  proof (cases "tid \<in> set (activeTimers q)")
    case True
    from cancelInLoop_active [OF assms True [unfolded tid]] obtain q' where
      q': "a \<in> T" "cancelInLoop tid q = Some q'" "queue_ok (T - {a}) q'" "heap q' = (heap q)(a := None)"
        "ran q' = ran q" "callingExpiredTimers q' = callingExpiredTimers q" "numCreated q' = numCreated q"
      unfolding tid by blast
    have "keeps T q (T - {a}) q'"
      unfolding keeps_def detached_def using q'(1,3-7) by auto
    then show ?thesis using Cancel_Timer q'(2) by auto
  next
    case False
    have "keeps T q T (if callingExpiredTimers q then q\<lparr>cancelingTimers := sset_insert tid (cancelingTimers q)\<rparr> else q)"
      using assms by (simp add: keeps_def detached_def)
    with cancelInLoop_other [OF assms False] Cancel_Timer show ?thesis by auto
  qed
qed

lemma run_calls_ok: "queue_ok T q \<Longrightarrow> \<exists>T' q'. run_calls cs q = Some q' \<and> keeps T q T' q'"
proof (induction cs arbitrary: T q)
  case Nil
  then show ?case by (auto intro: keeps_refl)
next
  case (Cons c cs)
  from run_call_ok [OF Cons.prems, of c] obtain T1 q1 where
    q1: "run_call c q = Some q1" "keeps T q T1 q1" by blast
  then have "queue_ok T1 q1" by (simp add: keeps_def)
  from Cons.IH [OF this] obtain T2 q2 where "run_calls cs q1 = Some q2" "keeps T1 q1 T2 q2" by blast
  with q1 show ?case by (auto intro: keeps_trans)
qed

subsection \<open>Expiring\<close>

lemma id_of_cong [simp]:
  "id_of (q\<lparr>activeTimers := as\<rparr>) = id_of q" "id_of (q\<lparr>timers := ts\<rparr>) = id_of q"
  "id_of (q\<lparr>ran := r\<rparr>) = id_of q" "entry_of (q\<lparr>activeTimers := as\<rparr>) = entry_of q"
  "entry_of (q\<lparr>timers := ts\<rparr>) = entry_of q" "entry_of (q\<lparr>ran := r\<rparr>) = entry_of q"
  by (auto simp: id_of_def entry_of_def fun_eq_iff)

lemma erase_active_ok:
  assumes "\<forall>x\<in>set es. snd x \<in> dom (heap q) \<and> id_of q (snd x) \<in> set (activeTimers q)" "distinct (map snd es)"
  shows "erase_active es q = Some (q\<lparr>activeTimers := filter (\<lambda>i. i \<notin> id_of q ` snd ` set es) (activeTimers q)\<rparr>)"
  using assms
proof (induction es arbitrary: q)
  case (Cons x es)
  obtain e a where x: "x = (e, a)" by (cases x)
  with Cons.prems obtain t where t: "heap q a = Some t" by auto
  let ?q = "q\<lparr>activeTimers := sset_erase (a, sequence t) (activeTimers q)\<rparr>"
  have i: "id_of q a = (a, sequence t)" by (simp add: id_of_def t)
  have "erase_active es ?q = Some (?q\<lparr>activeTimers := filter (\<lambda>i. i \<notin> id_of ?q ` snd ` set es) (activeTimers ?q)\<rparr>)"
  proof (rule Cons.IH)
    show "\<forall>x\<in>set es. snd x \<in> dom (heap ?q) \<and> id_of ?q (snd x) \<in> set (activeTimers ?q)"
    proof
      fix y assume "y \<in> set es"
      moreover from this have "snd y \<noteq> a" using Cons.prems(2) x by auto
      ultimately show "snd y \<in> dom (heap ?q) \<and> id_of ?q (snd y) \<in> set (activeTimers ?q)"
        using Cons.prems(1) by (auto simp: id_of_def)
    qed
    show "distinct (map snd es)" using Cons.prems(2) by simp
  qed
  moreover have "filter (\<lambda>i. i \<notin> id_of q ` snd ` set es) (sset_erase (a, sequence t) (activeTimers q))
      = filter (\<lambda>i. i \<notin> id_of q ` snd ` set (x # es)) (activeTimers q)"
    unfolding sset_erase_def filter_filter by (rule filter_cong) (auto simp: x i)
  ultimately show ?case
    using Cons.prems(1) t i by (simp add: x)
qed simp

text \<open>The timers due at \<open>now\<close>, earliest first.\<close>

definition due :: "Timestamp \<Rightarrow> addr set \<Rightarrow> timer_queue \<Rightarrow> addr set" where
  "due now T q = {a \<in> T. expiration (the (heap q a)) \<le> now}"

lemma sentry_less:
  assumes "a < UINTPTR_MAX"
  shows "(e, a) < (now, UINTPTR_MAX) \<longleftrightarrow> e \<le> (now :: int)"
  using assms by (auto simp: less_prod_def')

lemma getExpired_ok:
  assumes "queue_ok T q"
  shows "\<exists>expired q'. getExpired now q = Some (expired, q') \<and> strict expired
    \<and> set expired = entry_of q ` due now T q
    \<and> queue_ok (T - due now T q) q' \<and> heap q' = heap q \<and> ran q' = ran q
    \<and> callingExpiredTimers q' = callingExpiredTimers q \<and> numCreated q' = numCreated q
    \<and> (\<forall>x\<in>set (timers q'). now < fst x)"
proof -
  note ok = queue_okD [OF assms]
  let ?sentry = "(now, UINTPTR_MAX)" and ?E = "due now T q"
  have bound: "a < UINTPTR_MAX" if "(e, a) \<in> set (timers q)" for e a
    using that ok(1,2,5) unfolding heap_ok_def by (auto simp: entry_of_def)
  have split: "\<And>x. x \<in> set (timers q) \<Longrightarrow> x < ?sentry \<longleftrightarrow> fst x \<le> now"
    using bound sentry_less by (metis prod.collapse)
  define rest expired where "rest = from_bound ?sentry (timers q)" and "expired = below ?sentry (timers q)"
  have rest: "rest = filter (\<lambda>x. \<not> fst x \<le> now) (timers q)"
    and expired: "expired = filter (\<lambda>x. fst x \<le> now) (timers q)"
    unfolding rest_def expired_def below_filter [OF ok(3)] from_bound_filter [OF ok(3)]
    by (rule filter_cong, rule refl, simp only: split)+
  have sets: "set expired = entry_of q ` ?E" "set rest = entry_of q ` (T - ?E)"
    unfolding rest expired due_def using ok(5) by (auto simp: entry_of_def)
  have addrs: "snd ` set expired = ?E"
    unfolding sets by (force simp: entry_of_def)
  have dist: "distinct (map snd expired)"
  proof -
    have "inj_on snd (set expired)" unfolding sets by (auto simp: inj_on_def entry_of_def)
    then show ?thesis
      using strict_distinct [OF ok(3)] by (simp add: distinct_map expired)
  qed
  let ?q = "q\<lparr>timers := rest\<rparr>"
  define q' where "q' = ?q\<lparr>activeTimers := filter (\<lambda>i. i \<notin> id_of q ` ?E) (activeTimers q)\<rparr>"
  have "erase_active expired ?q = Some (?q\<lparr>activeTimers := filter (\<lambda>i. i \<notin> id_of ?q ` snd ` set expired) (activeTimers ?q)\<rparr>)"
  proof (rule erase_active_ok [OF _ dist])
    have "?E \<subseteq> T" by (auto simp: due_def)
    then show "\<forall>x\<in>set expired. snd x \<in> dom (heap ?q) \<and> id_of ?q (snd x) \<in> set (activeTimers ?q)"
    proof (intro ballI conjI)
      fix x assume "x \<in> set expired"
      with addrs \<open>?E \<subseteq> T\<close> have x: "snd x \<in> T" by blast
      then show "snd x \<in> dom (heap ?q)" using ok(2) by auto
      show "id_of ?q (snd x) \<in> set (activeTimers ?q)" using x ok(6) by simp
    qed
  qed
  then have erase: "erase_active expired ?q = Some q'"
    by (simp add: q'_def addrs)
  have q': "queue_ok (T - ?E) q'"
  proof -
    have "set (activeTimers q') = id_of q ` (T - ?E)"
      using ok(6) by (auto simp: q'_def id_of_def)
    moreover have "strict (activeTimers q')" "strict (timers q')"
      using ok(3,4) by (simp_all add: q'_def rest sorted_wrt_filter)
    moreover have "set (timers q') = entry_of q ` (T - ?E)" using sets(2) by (simp add: q'_def)
    moreover have "heap_ok q'" using ok(1) by (simp add: heap_ok_def q'_def)
    ultimately show ?thesis using ok(2) by (auto simp: queue_ok_def q'_def)
  qed
  have "rest = [] \<or> now < fst (hd rest)"
    using hd_in_set [of rest] unfolding rest by fastforce
  then have "getExpired now q = Some (expired, q')"
    using erase queue_lengths [OF assms] queue_lengths [OF q']
    by (simp add: getExpired_def rest_def [symmetric] expired_def [symmetric] Let_def)
  moreover have "strict expired" using ok(3) by (simp add: expired sorted_wrt_filter)
  moreover have "\<forall>x\<in>set (timers q'). now < fst x" by (simp add: q'_def rest)
  ultimately show ?thesis
    using sets(1) q' by (auto simp: q'_def)
qed

subsection \<open>Running and resetting\<close>

lemma run_expired_ok:
  assumes "queue_ok T q" "snd ` set es \<subseteq> detached T q"
  shows "\<exists>T' q'. run_expired user es q = Some q' \<and> queue_ok T' q' \<and> detached T' q' = detached T q
    \<and> (\<forall>a\<in>detached T q. heap q' a = heap q a) \<and> numCreated q \<le> numCreated q'
    \<and> callingExpiredTimers q' = callingExpiredTimers q
    \<and> ran q' = ran q @ map (id_of q) (map snd es)"
  using assms
proof (induction es arbitrary: T q)
  case Nil
  then show ?case by auto
next
  case (Cons x es)
  obtain e a where x: "x = (e, a)" by (cases x)
  with Cons.prems have a: "a \<in> detached T q" by auto
  then obtain t where t: "heap q a = Some t" by (auto simp: detached_def)
  let ?q = "q\<lparr>ran := ran q @ [(a, sequence t)]\<rparr>"
  have "queue_ok T ?q" using Cons.prems(1) by simp
  from run_calls_ok [OF this, of "user (t_callback t)"] obtain T1 q1 where
    q1: "run_calls (user (t_callback t)) ?q = Some q1" "keeps T ?q T1 q1" by blast
  have k: "queue_ok T1 q1" "detached T1 q1 = detached T q" "\<forall>b\<in>detached T q. heap q1 b = heap q b"
      "numCreated q \<le> numCreated q1" "callingExpiredTimers q1 = callingExpiredTimers q"
      "ran q1 = ran q @ [(a, sequence t)]"
    using q1(2) by (simp_all add: keeps_def detached_def)
  have "snd ` set es \<subseteq> detached T1 q1" using Cons.prems(2) k(2) by auto
  from Cons.IH [OF k(1) this] obtain T2 q2 where
    q2: "run_expired user es q1 = Some q2" "queue_ok T2 q2" "detached T2 q2 = detached T1 q1"
      "\<forall>b\<in>detached T1 q1. heap q2 b = heap q1 b" "numCreated q1 \<le> numCreated q2"
      "callingExpiredTimers q2 = callingExpiredTimers q1" "ran q2 = ran q1 @ map (id_of q1) (map snd es)"
    by blast
  have "map (id_of q1) (map snd es) = map (id_of q) (map snd es)"
    using Cons.prems(2) k(3) by (auto simp: id_of_def)
  then show ?case
    using t q1(1) q2 k by (auto simp: x id_of_def)
qed

definition again :: "timer_queue \<Rightarrow> addr \<Rightarrow> bool" where
  "again q a \<longleftrightarrow> repeats (the (heap q a)) \<and> id_of q a \<notin> set (cancelingTimers q)"

lemma reset_each_ok:
  assumes "queue_ok T q" "snd ` set es \<subseteq> detached T q" "distinct (map snd es)"
  shows "\<exists>q'. reset_each now es q = Some q' \<and> queue_ok (T \<union> {a \<in> snd ` set es. again q a}) q'
    \<and> heap q' = (\<lambda>a. if a \<in> snd ` set es then (if again q a then Some (restart now (the (heap q a))) else None)
                     else heap q a)
    \<and> ran q' = ran q \<and> callingExpiredTimers q' = callingExpiredTimers q \<and> numCreated q' = numCreated q"
  using assms
proof (induction es arbitrary: T q)
  case Nil
  then show ?case by simp
next
  case (Cons x es)
  obtain e a where x: "x = (e, a)" by (cases x)
  with Cons.prems have a: "a \<in> dom (heap q)" "a \<notin> T" "a \<notin> snd ` set es" by (auto simp: detached_def)
  then obtain t where t: "heap q a = Some t" by auto
  note ok = queue_okD [OF Cons.prems(1)]
  have ag: "again q a \<longleftrightarrow> repeats t \<and> (a, sequence t) \<notin> set (cancelingTimers q)"
    by (simp add: again_def id_of_def t)
  have seq: "sequence (restart now t) = sequence t" by (simp add: restart_def)
  define h where "h = (heap q)(a := (if again q a then Some (restart now t) else None))"
  define S where "S = (if again q a then insert a T else T)"
  obtain q1 where q1: "(if repeats t \<and> (a, sequence t) \<notin> set (cancelingTimers q)
          then map_option snd (insert_timer a (q\<lparr>heap := (heap q)(a \<mapsto> restart now t)\<rparr>))
          else Some (delete_Timer a q)) = Some q1"
      "queue_ok S q1" "heap q1 = h" "ran q1 = ran q" "callingExpiredTimers q1 = callingExpiredTimers q"
      "numCreated q1 = numCreated q" "cancelingTimers q1 = cancelingTimers q"
  proof -
    have T_same: "entry_of (q\<lparr>heap := (heap q)(a := y)\<rparr>) ` T = entry_of q ` T"
        "id_of (q\<lparr>heap := (heap q)(a := y)\<rparr>) ` T = id_of q ` T" for y
      using a(2) by (auto simp: entry_of_def id_of_def intro!: image_cong)
    have heap: "heap_ok (q\<lparr>heap := (heap q)(a := None)\<rparr>)"
      using ok(1) by (auto simp: heap_ok_def)
    have heap': "heap_ok (q\<lparr>heap := (heap q)(a \<mapsto> restart now t)\<rparr>)"
      using ok(1) t seq unfolding heap_ok_def by (auto split: if_splits)
    show ?thesis
    proof (cases "again q a")
      case True
      let ?q = "q\<lparr>heap := (heap q)(a \<mapsto> restart now t)\<rparr>"
      have "queue_ok T ?q"
        using ok heap' T_same by (auto simp: queue_ok_def)
      from insert_timer_ok [OF this, of a "restart now t"] a(2) obtain q' where
        "insert_timer a ?q = Some (timers ?q = [] \<or> expiration (restart now t) < fst (hd (timers ?q)), q')"
        "queue_ok (insert a T) q'" "heap q' = heap ?q"
        "q' = ?q\<lparr>timers := sset_insert (expiration (restart now t), a) (timers ?q),
           activeTimers := sset_insert (a, sequence (restart now t)) (activeTimers ?q)\<rparr>"
        by auto
      with True ag that [of q'] show ?thesis by (simp add: h_def S_def)
    next
      case False
      have "queue_ok T (delete_Timer a q)"
        using ok heap a(2) T_same by (auto simp: queue_ok_def delete_Timer_def)
      then show ?thesis
        by (intro that [of "delete_Timer a q"]) (use False ag in \<open>auto simp: h_def S_def delete_Timer_def\<close>)
    qed
  qed
  have sub: "snd ` set es \<subseteq> detached S q1"
    using Cons.prems(2) a(3) q1(3) by (auto simp: detached_def S_def h_def)
  have same: "again q1 b \<longleftrightarrow> again q b" "heap q1 b = heap q b" if "b \<in> snd ` set es" for b
  proof -
    have "b \<noteq> a" using that a(3) by auto
    then show "heap q1 b = heap q b" by (simp add: q1(3) h_def)
    then show "again q1 b \<longleftrightarrow> again q b" by (simp add: again_def id_of_def q1(7))
  qed
  obtain q2 where q2: "reset_each now es q1 = Some q2" "queue_ok (S \<union> {a \<in> snd ` set es. again q1 a}) q2"
      "heap q2 = (\<lambda>a. if a \<in> snd ` set es then (if again q1 a then Some (restart now (the (heap q1 a))) else None) else heap q1 a)"
      "ran q2 = ran q1" "callingExpiredTimers q2 = callingExpiredTimers q1" "numCreated q2 = numCreated q1"
    using Cons.IH [OF q1(2) sub] Cons.prems(3) by auto
  have "S \<union> {b \<in> snd ` set es. again q1 b} = T \<union> {b \<in> snd ` set (x # es). again q b}"
    using same(1) by (auto simp: S_def x)
  moreover have "heap q2 = (\<lambda>b. if b \<in> snd ` set (x # es) then (if again q b then Some (restart now (the (heap q b))) else None)
                     else heap q b)"
    using same t a(3) by (auto simp: q2(3) fun_eq_iff x q1(3) h_def)
  ultimately show ?case
    using t q1(1,4-6) q2 by (simp add: x)
qed

text \<open>What a cancellation during the callbacks leaves behind for a timer that has expired.\<close>

lemma detached_not_active:
  "queue_ok T q \<Longrightarrow> a \<in> detached T q \<Longrightarrow> id_of q a \<notin> set (activeTimers q)"
  by (auto simp: queue_ok_def detached_def id_of_def)

lemma run_call_cancels:
  assumes "queue_ok T q" "callingExpiredTimers q" "a \<in> detached T q" "run_call c q = Some q'"
  shows "id_of q a \<in> set (cancelingTimers q') \<longleftrightarrow> id_of q a \<in> set (cancelingTimers q) \<or> c = Cancel_Timer (id_of q a)"
proof (cases c)
  case (Add_Timer b cb w ival now)
  show ?thesis
  proof (cases "new_Timer b cb w ival q")
    case None
    with Add_Timer assms(4) show ?thesis by simp
  next
    case (Some p)
    obtain tid q1 where p: "p = (tid, q1)" by (cases p)
    note n = new_Timer_ok [OF assms(1) Some [unfolded p]]
    have "\<exists>t. heap q1 b = Some t" using n(6) by simp
    then obtain t where "heap q1 b = Some t" by blast
    from addTimerInLoop_ok [OF n(1) this n(3), of now] have "cancelingTimers q' = cancelingTimers q"
      using assms(4) Add_Timer run_call_add [OF assms(1) Some [unfolded p], of now] n(10) by auto
    with Add_Timer show ?thesis by simp
  qed
next
  case (Cancel_Timer tid)
  obtain b s where tid: "tid = (b, s)" by (cases tid)
  show ?thesis
  proof (cases "tid \<in> set (activeTimers q)")
    case True
    from cancelInLoop_active [OF assms(1) True [unfolded tid]] Cancel_Timer assms(4) tid
    have "cancelingTimers q' = cancelingTimers q" by auto
    moreover have "tid \<noteq> id_of q a" using detached_not_active [OF assms(1,3)] True by auto
    ultimately show ?thesis using Cancel_Timer by auto
  next
    case False
    from cancelInLoop_other [OF assms(1) False] Cancel_Timer assms(2,4) show ?thesis by auto
  qed
qed

lemma run_calls_cancels:
  "queue_ok T q \<Longrightarrow> callingExpiredTimers q \<Longrightarrow> a \<in> detached T q \<Longrightarrow> run_calls cs q = Some q' \<Longrightarrow>
   id_of q a \<in> set (cancelingTimers q') \<longleftrightarrow> id_of q a \<in> set (cancelingTimers q) \<or> Cancel_Timer (id_of q a) \<in> set cs"
proof (induction cs arbitrary: T q)
  case (Cons c cs)
  obtain T1 q1 where q1: "run_call c q = Some q1" "keeps T q T1 q1"
    using run_call_ok [OF Cons.prems(1), of c] by blast
  then have k: "queue_ok T1 q1" "callingExpiredTimers q1" "a \<in> detached T1 q1" "id_of q1 a = id_of q a"
    using Cons.prems(2,3) by (auto simp: keeps_def id_of_def)
  from Cons.IH [OF k(1-3)] run_call_cancels [OF Cons.prems(1-3) q1(1)] Cons.prems(4) q1(1) k(4)
  show ?case by auto
qed simp

definition calls_of :: "(nat \<Rightarrow> timer_call list) \<Rightarrow> timer_queue \<Rightarrow> addr set \<Rightarrow> timer_call set" where
  "calls_of user q E = (\<Union>a\<in>E. set (user (t_callback (the (heap q a)))))"

lemma run_expired_cancels:
  "queue_ok T q \<Longrightarrow> callingExpiredTimers q \<Longrightarrow> snd ` set es \<subseteq> detached T q \<Longrightarrow> a \<in> detached T q \<Longrightarrow>
   run_expired user es q = Some q' \<Longrightarrow>
   id_of q a \<in> set (cancelingTimers q') \<longleftrightarrow>
     id_of q a \<in> set (cancelingTimers q) \<or> Cancel_Timer (id_of q a) \<in> calls_of user q (snd ` set es)"
proof (induction es arbitrary: T q)
  case Nil
  then show ?case by (simp add: calls_of_def)
next
  case (Cons x es)
  obtain e b where x: "x = (e, b)" by (cases x)
  with Cons.prems(3) obtain t where t: "heap q b = Some t" by (auto simp: detached_def)
  let ?q = "q\<lparr>ran := ran q @ [(b, sequence t)]\<rparr>"
  have q: "queue_ok T ?q" "callingExpiredTimers ?q" "a \<in> detached T ?q"
    using Cons.prems by (simp_all add: detached_def)
  obtain T1 q1 where q1: "run_calls (user (t_callback t)) ?q = Some q1" "keeps T ?q T1 q1"
    using run_calls_ok [OF q(1), of "user (t_callback t)"] by blast
  have k: "queue_ok T1 q1" "callingExpiredTimers q1" "snd ` set es \<subseteq> detached T1 q1" "a \<in> detached T1 q1"
      "id_of q1 a = id_of q a" and same: "\<forall>b\<in>detached T q. heap q1 b = heap q b"
    using q1(2) Cons.prems(2-4) by (auto simp: keeps_def detached_def id_of_def)
  have "calls_of user q1 (snd ` set es) = calls_of user q (snd ` set es)"
    unfolding calls_of_def using Cons.prems(3) same by (intro SUP_cong refl) auto
  then show ?case
    using Cons.IH [OF k(1-4)] run_calls_cancels [OF q q1(1)] Cons.prems(5) q1(1) k(5) t
    by (auto simp: x calls_of_def)
qed

subsection \<open>The alarm\<close>

text \<open>
  When the timerfd fires: it is set for the earliest expiration, but at least 100 microseconds ahead.
\<close>

fun alarm :: "Timestamp \<times> int \<times> int \<Rightarrow> Timestamp" where
  "alarm (set_at, sec, nsec) = set_at + sec * kMicroSecondsPerSecond + nsec div 1000"

lemma alarm_reset: "alarm (now, howMuchTimeFromNow now when) = max when (now + 100)"
proof -
  define m where "m = (if when - now < 100 then 100 else when - now)"
  have "0 \<le> m" "now + m = max when (now + 100)" by (auto simp: m_def)
  moreover have "alarm (now, howMuchTimeFromNow now when) = now + m"
    using \<open>0 \<le> m\<close> unfolding howMuchTimeFromNow_def m_def [symmetric]
    by (simp add: kMicroSecondsPerSecond_def signed_divide_int_def signed_modulo_int_def sgn_if)
  ultimately show ?thesis by simp
qed

definition armed :: "timer_queue \<Rightarrow> bool" where
  "armed q \<longleftrightarrow> timers q = [] \<or> (\<exists>v. timerfd q = Some v \<and> alarm v \<le> max (fst (hd (timers q))) (fst v + 100))"

lemma armed_reset: "armed (resetTimerfd now (fst (hd (timers q))) q)"
  by (simp add: armed_def resetTimerfd_def alarm_reset)


subsection \<open>The whole handler\<close>

lemma handleRead_ok:
  assumes "queue_ok T q"
  shows "\<exists>T' q' expired. timer_handleRead user now now2 q = Some q' \<and> queue_ok T' q' \<and> detached T' q' = detached T q
    \<and> strict expired \<and> set expired = entry_of q ` due now T q
    \<and> ran q' = ran q @ map (id_of q) (map snd expired)
    \<and> (\<forall>a\<in>due now T q. heap q' a = (if repeats (the (heap q a)) \<and> Cancel_Timer (id_of q a) \<notin> calls_of user q (due now T q)
         then Some (restart now (the (heap q a))) else None))
    \<and> (timers q' \<noteq> [] \<and> 0 < fst (hd (timers q')) \<longrightarrow> armed q') \<and> \<not> callingExpiredTimers q'"
proof -
  define E where "E = due now T q"
  obtain expired q1 where g: "getExpired now q = Some (expired, q1)" "strict expired" "set expired = entry_of q ` E"
      "queue_ok (T - E) q1" "heap q1 = heap q" "ran q1 = ran q"
    using getExpired_ok [OF assms(1), of now] unfolding E_def by blast
  have E: "E \<subseteq> T" "snd ` set expired = E"
    unfolding g(3) by (auto simp: E_def due_def entry_of_def image_image)
  have dist: "distinct (map snd expired)"
    using strict_distinct [OF g(2)] unfolding distinct_map g(3) by (auto simp: inj_on_def entry_of_def)
  let ?q1 = "q1\<lparr>callingExpiredTimers := True, cancelingTimers := []\<rparr>"
  have q1: "queue_ok (T - E) ?q1" "callingExpiredTimers ?q1" "detached (T - E) ?q1 = detached T q \<union> E"
    using g(4) queue_okD(2) [OF assms(1)] E(1) by (auto simp: detached_def g(5))
  then have sub: "snd ` set expired \<subseteq> detached (T - E) ?q1" using E by auto
  from run_expired_ok [OF q1(1) sub, of user] obtain T2 q2 where
    q2: "run_expired user expired ?q1 = Some q2" "queue_ok T2 q2" "detached T2 q2 = detached T q \<union> E"
      "\<forall>a\<in>detached T q \<union> E. heap q2 a = heap q a" "ran q2 = ran q @ map (id_of q) (map snd expired)"
    unfolding q1(3) using g(5,6) by (auto simp: id_of_def)
  have canceled: "id_of q a \<in> set (cancelingTimers q2) \<longleftrightarrow> Cancel_Timer (id_of q a) \<in> calls_of user q E" if "a \<in> E" for a
    using run_expired_cancels [OF q1(1,2) sub _ q2(1), of a] that g(5) E(2) q1(3)
    by (simp add: id_of_def calls_of_def)
  let ?q2 = "q2\<lparr>callingExpiredTimers := False\<rparr>"
  have "queue_ok T2 ?q2" "snd ` set expired \<subseteq> detached T2 ?q2"
    using q2(2,3) E(2) by (auto simp: detached_def)
  from reset_each_ok [OF this dist, of now] obtain q3 where
    q3: "reset_each now expired ?q2 = Some q3" "queue_ok (T2 \<union> {a \<in> E. again ?q2 a}) q3" "ran q3 = ran q2" "\<not> callingExpiredTimers q3"
      "heap q3 = (\<lambda>a. if a \<in> E then (if again ?q2 a then Some (restart now (the (heap q2 a))) else None) else heap q2 a)"
    unfolding E(2) by (auto cong: if_cong)
  have ag: "again ?q2 a \<longleftrightarrow> repeats (the (heap q a)) \<and> Cancel_Timer (id_of q a) \<notin> calls_of user q E" if "a \<in> E" for a
    using that canceled [OF that] q2(4) by (simp add: again_def id_of_def)
  define q4 where "q4 = (if timers q3 \<noteq> [] \<and> 0 < fst (hd (timers q3)) then resetTimerfd now2 (fst (hd (timers q3))) q3 else q3)"
  have "reset_timers expired now now2 ?q2 = Some q4"
  proof (cases "timers q3 = []")
    case True
    then show ?thesis by (simp add: reset_timers_def q3(1) q4_def valid_time_def invalid_time_def)
  next
    case False
    then have "hd (timers q3) \<in> entry_of q3 ` (T2 \<union> {a \<in> E. again ?q2 a})"
      using queue_okD(5) [OF q3(2)] hd_in_set by blast
    then obtain a where "a \<in> T2 \<union> {a \<in> E. again ?q2 a}" "hd (timers q3) = entry_of q3 a" by blast
    moreover from this obtain t where "heap q3 a = Some t"
      using queue_okD(2) [OF q3(2)] by blast
    ultimately show ?thesis
      using False by (simp add: reset_timers_def q3(1) q4_def valid_time_def entry_of_def)
  qed
  then have run: "timer_handleRead user now now2 q = Some q4"
    using g(1) q2(1) by (simp add: timer_handleRead_def)
  have q4: "queue_ok (T2 \<union> {a \<in> E. again ?q2 a}) q4" "heap q4 = heap q3" "ran q4 = ran q2" "timers q4 = timers q3"
    using q3(2,3) by (simp_all add: q4_def)
  have dom4: "dom (heap q4) = (dom (heap q2) - E) \<union> {a \<in> E. again ?q2 a}"
    by (auto simp: q4(2) q3(5) split: if_splits)
  have det: "detached (T2 \<union> {a \<in> E. again ?q2 a}) q4 = detached T q"
    using q2(3) [unfolded detached_def] E(1) unfolding detached_def dom4 by blast
  have arm: "timers q4 \<noteq> [] \<and> 0 < fst (hd (timers q4)) \<longrightarrow> armed q4"
    using armed_reset by (simp add: q4_def)
  have heaps: "\<forall>a\<in>E. heap q4 a = (if repeats (the (heap q a)) \<and> Cancel_Timer (id_of q a) \<notin> calls_of user q E
         then Some (restart now (the (heap q a))) else None)"
    using ag q2(4) by (simp add: q4(2) q3(5))
  show ?thesis
    unfolding E_def [symmetric]
    by (intro exI conjI, rule run, rule q4(1), rule det, rule g(2), rule g(3), simp only: q4(3) q2(5), rule heaps, rule arm,
      use q3(4) in \<open>simp add: q4_def\<close>)
qed

subsection \<open>Reachable queues\<close>

text \<open>
  What happens to a queue: calls in the loop thread, a timer created by another thread and later
  added by the functor that thread queued, and the timerfd firing. After it has queued the functor the other
  thread reads the sequence number of its timer, too; until then the timer is in \<open>unread\<close>. The loop does not wait
  for that: it may have run the timer, or cancelled it, and freed it.
\<close>

datatype timer_event =
    Timer_Call timer_call
  | Create_Timer addr nat Timestamp rat
  | Read_Sequence timer_id
  | Add_Created Timestamp addr
  | Timer_Fires "nat \<Rightarrow> timer_call list" Timestamp Timestamp

fun timer_do :: "timer_event \<Rightarrow> timer_queue \<Rightarrow> timer_queue option" where
  "timer_do (Timer_Call c) q = run_call c q"
| "timer_do (Create_Timer a cb when ival) q =
     Some (case new_Timer a cb when ival q of None \<Rightarrow> q | Some (tid, q') \<Rightarrow> q'\<lparr>unread := unread q' @ [tid]\<rparr>)"
| "timer_do (Read_Sequence tid) q = do {
     timer \<leftarrow> heap q (fst tid);
     require (sequence timer = snd tid);
     Some (q\<lparr>unread := removeAll tid (unread q)\<rparr>) }"
| "timer_do (Add_Created now a) q = addTimerInLoop now a q"
| "timer_do (Timer_Fires user now now2) q = timer_handleRead user now now2 q"

fun timer_may :: "timer_event \<Rightarrow> timer_queue \<Rightarrow> bool" where
  "timer_may (Add_Created now a) q = (heap q a \<noteq> None \<and> a \<notin> snd ` set (timers q))"
| "timer_may (Read_Sequence tid) q = (tid \<in> set (unread q))"
| "timer_may e q = True"

inductive timer_run :: "timer_queue \<Rightarrow> bool" where
  timer_start: "timer_run (new_TimerQueue n)"
| timer_step: "timer_run q \<Longrightarrow> timer_may e q \<Longrightarrow> timer_do e q = Some q' \<Longrightarrow> timer_run q'"

lemma queue_ok_addrs: "queue_ok T q \<Longrightarrow> T = snd ` set (timers q)"
  by (auto simp: queue_ok_def entry_of_def image_image)

lemma queue_ok_entry:
  assumes "queue_ok T q" "x \<in> set (timers q)"
  shows "entry_of q (snd x) = x"
proof -
  obtain a where "x = entry_of q a" using queue_okD(5) [OF assms(1)] assms(2) by blast
  then show ?thesis by (simp add: entry_of_def)
qed

definition lost :: "timer_event \<Rightarrow> timer_queue \<Rightarrow> bool" where
  "lost e q \<longleftrightarrow> (\<exists>a s. e = Read_Sequence (a, s) \<and> map_option sequence (heap q a) \<noteq> Some s)"

lemma timer_do_read:
  "timer_do (Read_Sequence tid) q = (if lost (Read_Sequence tid) q then None else Some (q\<lparr>unread := removeAll tid (unread q)\<rparr>))"
  by (cases tid) (auto simp: lost_def bind_eq_None_conv split: Option.bind_splits)

lemma timer_do_lost: "timer_do e q = Some q' \<Longrightarrow> \<not> lost e q"
  using timer_do_read [of _ q] by (cases e) (auto simp: lost_def simp del: timer_do.simps split: if_splits)

lemma timer_do_ok:
  assumes "queue_ok T q" "timer_may e q" "\<not> lost e q"
  shows "\<exists>T' q'. timer_do e q = Some q' \<and> queue_ok T' q'"
proof (cases e)
  case (Read_Sequence tid)
  with assms(1,3) timer_do_read [of tid q] show ?thesis by auto
next
  case (Timer_Call c)
  with run_call_ok [OF assms(1), of c] show ?thesis by (auto simp: keeps_def)
next
  case (Create_Timer a cb w ival)
  show ?thesis
  proof (cases "new_Timer a cb w ival q")
    case None
    with Create_Timer assms(1) show ?thesis by auto
  next
    case (Some p)
    obtain tid q1 where "p = (tid, q1)" by (cases p)
    with new_Timer_ok(1) [OF assms(1), of a cb w ival tid q1] Some Create_Timer show ?thesis by auto
  qed
next
  case (Add_Created now a)
  then obtain t where "heap q a = Some t" "a \<notin> T"
    using assms(2) queue_ok_addrs [OF assms(1)] by auto
  with addTimerInLoop_ok [OF assms(1), of a t now] Add_Created show ?thesis by auto
next
  case (Timer_Fires user now now2)
  with handleRead_ok [OF assms(1), of user now now2] show ?thesis by (metis timer_do.simps(5))
qed

lemma timer_do_idle:
  assumes "queue_ok T q" "\<not> callingExpiredTimers q" "timer_may e q" "timer_do e q = Some q'"
  shows "\<not> callingExpiredTimers q'"
proof (cases e)
  case (Timer_Call c)
  with run_call_ok [OF assms(1), of c] assms(2,4) show ?thesis by (auto simp: keeps_def)
next
  case (Create_Timer a cb w ival)
  with assms(2,4) show ?thesis
    by (auto simp: new_Timer_def Let_def split: option.splits if_splits)
next
  case (Read_Sequence tid)
  with assms(2,4) timer_do_read [of tid q] show ?thesis by (auto split: if_splits)
next
  case (Add_Created now a)
  then obtain t where "heap q a = Some t" "a \<notin> T"
    using assms(3) queue_ok_addrs [OF assms(1)] by auto
  with addTimerInLoop_ok [OF assms(1), of a t now] Add_Created assms(2,4) show ?thesis by auto
next
  case (Timer_Fires user now now2)
  with handleRead_ok [OF assms(1), of user now now2] assms(4) show ?thesis by auto
qed

lemma timer_run_ok: "timer_run q \<Longrightarrow> queue_ok (snd ` set (timers q)) q"
proof (induction rule: timer_run.induct)
  case (timer_start n)
  show ?case using new_TimerQueue_ok [of n] by (simp add: new_TimerQueue_def)
next
  case (timer_step q e q')
  have "\<not> lost e q" using timer_step.hyps(3) timer_do_lost by blast
  from timer_do_ok [OF timer_step.IH timer_step.hyps(2) this] timer_step.hyps(3) queue_ok_addrs show ?case
    by (metis option.inject)
qed

lemma timer_run_idle: "timer_run q \<Longrightarrow> \<not> callingExpiredTimers q"
proof (induction rule: timer_run.induct)
  case (timer_start n)
  show ?case by (simp add: new_TimerQueue_def)
next
  case (timer_step q e q')
  from timer_do_idle [OF timer_run_ok [OF timer_step.hyps(1)] timer_step.IH timer_step.hyps(2,3)] show ?case .
qed



subsection \<open>Valid times\<close>

fun valid_call :: "timer_call \<Rightarrow> bool" where
  "valid_call (Add_Timer a cb when ival now) \<longleftrightarrow> valid_time when"
| "valid_call (Cancel_Timer tid) \<longleftrightarrow> True"

fun valid_event :: "timer_event \<Rightarrow> bool" where
  "valid_event (Timer_Call c) \<longleftrightarrow> valid_call c"
| "valid_event (Create_Timer a cb when ival) \<longleftrightarrow> valid_time when"
| "valid_event (Timer_Fires user now now2) \<longleftrightarrow> valid_time now \<and> (\<forall>cb. \<forall>c \<in> set (user cb). valid_call c)"
| "valid_event e \<longleftrightarrow> True"

inductive timed_run :: "timer_queue \<Rightarrow> bool" where
  timed_start: "timed_run (new_TimerQueue n)"
| timed_step: "timed_run q \<Longrightarrow> timer_may e q \<Longrightarrow> valid_event e \<Longrightarrow> timer_do e q = Some q' \<Longrightarrow> timed_run q'"


text \<open>Then every live timer has a valid expiration.\<close>

definition valid_heap :: "timer_queue \<Rightarrow> bool" where
  "valid_heap q \<longleftrightarrow> (\<forall>a t. heap q a = Some t \<longrightarrow> valid_time (expiration t) \<and> (repeats t \<longrightarrow> 0 < interval t))"

lemma valid_heap_frame [simp]:
  "valid_heap (q\<lparr>timers := ts\<rparr>) = valid_heap q" "valid_heap (q\<lparr>activeTimers := as\<rparr>) = valid_heap q"
  "valid_heap (q\<lparr>callingExpiredTimers := b\<rparr>) = valid_heap q" "valid_heap (q\<lparr>cancelingTimers := cs\<rparr>) = valid_heap q"
  "valid_heap (q\<lparr>timerfd := f\<rparr>) = valid_heap q" "valid_heap (q\<lparr>ran := r\<rparr>) = valid_heap q"
  "valid_heap (q\<lparr>unread := u\<rparr>) = valid_heap q" "valid_heap (resetTimerfd now when q) = valid_heap q"
  "valid_heap q \<Longrightarrow> valid_heap (delete_Timer a q)"
  by (auto simp: valid_heap_def delete_Timer_def)














lemma armed_frame [simp]: "armed (q\<lparr>unread := u\<rparr>) = armed q"
  by (simp add: armed_def)




subsection \<open>Properties\<close>

text \<open>
  C5: Timers are consistent, and memory-safe but for one read: in every reachable queue any permitted
  event - adding, cancelling (any id, live or stale), a timer created in another thread, the alarm with
  callbacks that add and cancel timers - runs to its end without a failed assertion or a use of a freed Timer.
  Only addTimer of another thread can fail: it reads the sequence number of its timer after handing it to the
  loop, and that fails exactly when the loop has freed the timer by then.
\<close>

theorem timer_events_never_fail:
  assumes "timer_run q" "timer_may e q"
  shows "(\<exists>q'. timer_do e q = Some q') \<longleftrightarrow> \<not> (\<exists>a s. e = Read_Sequence (a, s) \<and> map_option sequence (heap q a) \<noteq> Some s)"
  using timer_do_ok [OF timer_run_ok [OF assms(1)] assms(2)] timer_do_lost [of e q] unfolding lost_def [symmetric] by blast

text \<open>It can: a timer due at once runs, and is freed, before its creator reads it.\<close>

lemma created_timer_freed_before_it_is_read:
  "\<exists>q. timer_run q \<and> timer_may (Read_Sequence (16, 1)) q \<and> timer_do (Read_Sequence (16, 1)) q = None"
proof -
  define q0 where "q0 = new_TimerQueue 0"
  have big: "UINTPTR_MAX \<le> 16 \<longleftrightarrow> False" "16 < UINTPTR_MAX" by (simp_all add: UINTPTR_MAX_def)
  define q1 where "q1 = (the (timer_do (Create_Timer 16 7 90 0) q0))"
  have q1: "timer_do (Create_Timer 16 7 90 0) q0 = Some q1" "timers q1 = []" "activeTimers q1 = []" "unread q1 = [(16, 1)]"
      "heap q1 16 = Some \<lparr>t_callback = 7, expiration = 90, interval = 0, repeats = False, sequence = 1\<rparr>"
    by (simp_all add: q1_def q0_def new_TimerQueue_def new_Timer_def big Let_def)
  define q2 where "q2 = the (timer_do (Add_Created 50 16) q1)"
  have q2: "timer_do (Add_Created 50 16) q1 = Some q2" "timers q2 = [(90, 16)]" "activeTimers q2 = [(16, 1)]"
      "unread q2 = [(16, 1)]" "heap q2 16 = heap q1 16"
    using q1(2-) by (simp_all add: q2_def addTimerInLoop_def insert_timer_def resetTimerfd_def Let_def)
  define q3 where "q3 = the (timer_do (Timer_Fires (\<lambda>_. []) 100 101) q2)"
  have q3: "timer_do (Timer_Fires (\<lambda>_. []) 100 101) q2 = Some q3" "unread q3 = [(16, 1)]" "heap q3 16 = None"
    using q1(2-) q2(2-) big(2)
    by (simp_all add: q3_def timer_handleRead_def getExpired_def reset_timers_def below_def from_bound_def less_prod_def'
        delete_Timer_def Let_def sset_erase_def invalid_time_def valid_time_def)
  have "timer_run q1" using timer_step [OF timer_start _ q1(1) [unfolded q0_def]] by simp
  then have "timer_run q2" using timer_step [OF _ _ q2(1)] q1(2,5) by simp
  then have "timer_run q3" using timer_step [OF _ _ q3(1)] by simp
  then show ?thesis using q3(2,3) by (intro exI [of _ q3]) simp
qed

text \<open>A sample: a repeating timer and a one-shot one, the latter due first.\<close>

definition sample_queue :: timer_queue where
  "sample_queue = the (run_calls [Add_Timer 16 7 100 (1/2) 50, Add_Timer 32 8 90 0 60] (new_TimerQueue 0))"

lemma sample_queue_run: "timer_run sample_queue"
  and sample_queue_timed: "timed_run sample_queue"
  and sample_queue_timers: "timers sample_queue = [(90, 32), (100, 16)]"
  and sample_queue_due: "due 100 (snd ` set (timers sample_queue)) sample_queue = {16, 32}"
  and sample_queue_heap: "heap sample_queue 16 = Some \<lparr>t_callback = 7, expiration = 100, interval = 1/2, repeats = True, sequence = 1\<rparr>"
    "heap sample_queue 32 = Some \<lparr>t_callback = 8, expiration = 90, interval = 0, repeats = False, sequence = 2\<rparr>"
proof -
  define q0 where "q0 = new_TimerQueue 0"
  define c1 c2 where "c1 = Add_Timer 16 7 100 (1/2) 50" and "c2 = Add_Timer 32 8 90 0 60"
  have big: "UINTPTR_MAX \<le> 16 \<longleftrightarrow> False" "UINTPTR_MAX \<le> 32 \<longleftrightarrow> False"
    by (simp_all add: UINTPTR_MAX_def)
  obtain T1 q1 where q1: "run_call c1 q0 = Some q1" "queue_ok T1 q1"
    using run_call_ok [OF new_TimerQueue_ok, of c1 0] by (auto simp: keeps_def q0_def)
  obtain q2 where q2: "run_call c2 q1 = Some q2"
    using run_call_ok [OF q1(2), of c2] by auto
  have q: "sample_queue = q2"
    unfolding sample_queue_def q0_def [symmetric] c1_def [symmetric] c2_def [symmetric] using q1 q2 by simp
  have r1: "timer_run q1"
    using timer_step [OF timer_start, of "Timer_Call c1" 0 q1] q1(1) by (simp add: q0_def)
  have v1: "timed_run q1"
    using timed_step [OF timed_start, of "Timer_Call c1" 0 q1] q1(1) by (simp add: q0_def c1_def valid_time_def)
  show "timed_run sample_queue"
    using timed_step [OF v1, of "Timer_Call c2" q2] q2 by (simp add: q c2_def valid_time_def)
  show "timer_run sample_queue"
    using timer_step [OF r1, of "Timer_Call c2" q2] q2 by (simp add: q)
  have e1: "timers q1 = [(100, 16)] \<and> heap q1 16 = Some \<lparr>t_callback = 7, expiration = 100, interval = 1/2, repeats = True, sequence = 1\<rparr>
      \<and> heap q1 32 = None \<and> numCreated q1 = 1 \<and> activeTimers q1 = [(16, 1)]"
    using q1(1) by (auto simp: c1_def q0_def new_Timer_def new_TimerQueue_def big addTimerInLoop_def insert_timer_def
        resetTimerfd_def Let_def)
  have e2: "timers q2 = [(90, 32), (100, 16)] \<and> heap q2 16 = heap q1 16
      \<and> heap q2 32 = Some \<lparr>t_callback = 8, expiration = 90, interval = 0, repeats = False, sequence = 2\<rparr>"
    using q2 e1 by (auto simp: c2_def new_Timer_def big addTimerInLoop_def insert_timer_def resetTimerfd_def Let_def)
  show "timers sample_queue = [(90, 32), (100, 16)]" using e2 by (simp add: q)
  show "heap sample_queue 16 = Some \<lparr>t_callback = 7, expiration = 100, interval = 1/2, repeats = True, sequence = 1\<rparr>"
    "heap sample_queue 32 = Some \<lparr>t_callback = 8, expiration = 90, interval = 0, repeats = False, sequence = 2\<rparr>"
    using e1 e2 by (simp_all add: q)
  show "due 100 (snd ` set (timers sample_queue)) sample_queue = {16, 32}"
    using e1 e2 by (auto simp: q due_def)
qed

theorem timer_events_never_fail_witness:
  "\<exists>q'. timer_do (Timer_Fires (\<lambda>cb. [Cancel_Timer (16, 1)]) 100 101) sample_queue = Some q'"
  using timer_events_never_fail [OF sample_queue_run, of "Timer_Fires (\<lambda>cb. [Cancel_Timer (16, 1)]) 100 101"] by simp



text \<open>
  Cancelling is exact: outside the callbacks, cancelling a live timer removes it and frees it,
  and touches no other timer; cancelling anything else - a timer that has run, was cancelled before,
  or whose address has been given to a newer timer - changes nothing.
\<close>

theorem cancel_removes_only_its_timer:
  assumes "timer_run q"
  shows "\<exists>q'. cancelInLoop (a, s) q = Some q' \<and>
    (if a \<in> snd ` set (timers q) \<and> map_option sequence (heap q a) = Some s
     then set (timers q') = {x \<in> set (timers q). snd x \<noteq> a} \<and> heap q' = (heap q)(a := None)
     else q' = q)"
proof -
  note ok = timer_run_ok [OF assms(1)]
  let ?T = "snd ` set (timers q)"
  have live: "?T \<subseteq> dom (heap q)" using queue_okD(2) [OF ok] .
  have active: "(a, s) \<in> set (activeTimers q) \<longleftrightarrow> a \<in> ?T \<and> map_option sequence (heap q a) = Some s"
    using queue_okD(6) [OF ok] live by (force simp: id_of_def)
  show ?thesis
  proof (cases "(a, s) \<in> set (activeTimers q)")
    case True
    from cancelInLoop_active [OF ok True] obtain q' where q': "cancelInLoop (a, s) q = Some q'"
        "heap q' = (heap q)(a := None)" "queue_ok (?T - {a}) q'" "timers q' = sset_erase (entry_of q a) (timers q)"
      by blast
    have "x = entry_of q a \<longleftrightarrow> snd x = a" if "x \<in> set (timers q)" for x
      using queue_ok_entry [OF ok that] by (auto simp: entry_of_def)
    then have "set (timers q') = {x \<in> set (timers q). snd x \<noteq> a}"
      unfolding q'(4) by auto
    with q' True active show ?thesis by simp
  next
    case False
    with cancelInLoop_other [OF ok False] timer_run_idle [OF assms] active show ?thesis by auto
  qed
qed

theorem cancel_removes_only_its_timer_witness:
  "\<exists>q'. cancelInLoop (32, 2) sample_queue = Some q' \<and> heap q' 32 = None
     \<and> cancelInLoop (32, 9) sample_queue = Some sample_queue"
proof -
  have "32 \<in> snd ` set (timers sample_queue)"
    using sample_queue_due by (auto simp: due_def)
  with cancel_removes_only_its_timer [OF sample_queue_run, of 32 2]
    cancel_removes_only_its_timer [OF sample_queue_run, of 32 9] sample_queue_heap(2)
  show ?thesis by auto
qed



end
