(* ===== verification/Event_Channel.thy ===== *)
theory Event_Channel
  imports Prelude
begin

text \<open>
  muduo/net/Channel.h and Channel.cc: one file descriptor's registered events, received events and
  callbacks. The event masks are C \<open>int\<close>s (32-bit words) with the values of Linux's poll.h. A
  callback is a function on the state of the object that owns the channel; it may abort. The owner
  is reached by \<open>get\<close> and \<open>upd\<close> (its field that holds the channel), so that the callbacks see and
  change the channel itself. \<open>update\<close> and \<open>remove\<close> also call the poller (theory Pollers).
\<close>

definition POLLIN :: u32 where "POLLIN = 0x1"
definition POLLPRI :: u32 where "POLLPRI = 0x2"
definition POLLOUT :: u32 where "POLLOUT = 0x4"
definition POLLERR :: u32 where "POLLERR = 0x8"
definition POLLHUP :: u32 where "POLLHUP = 0x10"
definition POLLNVAL :: u32 where "POLLNVAL = 0x20"
definition POLLRDHUP :: u32 where "POLLRDHUP = 0x2000"

lemmas poll_masks = POLLIN_def POLLPRI_def POLLOUT_def POLLERR_def POLLHUP_def POLLNVAL_def POLLRDHUP_def

definition kNoneEvent :: u32 where "kNoneEvent = 0"
definition kReadEvent :: u32 where "kReadEvent = POLLIN OR POLLPRI"
definition kWriteEvent :: u32 where "kWriteEvent = POLLOUT"

lemmas event_masks = kNoneEvent_def kReadEvent_def kWriteEvent_def

record channel =
  ch_fd :: int
  events :: u32
  revents :: u32
  index :: int
  logHup :: bool
  tied :: bool
  eventHandling :: bool
  addedToLoop :: bool

definition new_Channel :: "int \<Rightarrow> channel" where
  "new_Channel fd = \<lparr>ch_fd = fd, events = 0, revents = 0, index = - 1, logHup = True,
     tied = False, eventHandling = False, addedToLoop = False\<rparr>"

definition set_revents :: "u32 \<Rightarrow> channel \<Rightarrow> channel" where
  "set_revents r c = c\<lparr>revents := r\<rparr>"

definition isNoneEvent :: "channel \<Rightarrow> bool" where
  "isNoneEvent c \<longleftrightarrow> events c = kNoneEvent"

definition channel_update :: "channel \<Rightarrow> channel" where
  "channel_update c = c\<lparr>addedToLoop := True\<rparr>"

definition enableReading :: "channel \<Rightarrow> channel" where
  "enableReading c = channel_update (c\<lparr>events := events c OR kReadEvent\<rparr>)"

definition disableReading :: "channel \<Rightarrow> channel" where
  "disableReading c = channel_update (c\<lparr>events := events c AND NOT kReadEvent\<rparr>)"

definition enableWriting :: "channel \<Rightarrow> channel" where
  "enableWriting c = channel_update (c\<lparr>events := events c OR kWriteEvent\<rparr>)"

definition disableWriting :: "channel \<Rightarrow> channel" where
  "disableWriting c = channel_update (c\<lparr>events := events c AND NOT kWriteEvent\<rparr>)"

definition disableAll :: "channel \<Rightarrow> channel" where
  "disableAll c = channel_update (c\<lparr>events := kNoneEvent\<rparr>)"

definition isWriting :: "channel \<Rightarrow> bool" where
  "isWriting c \<longleftrightarrow> events c AND kWriteEvent \<noteq> 0"

definition isReading :: "channel \<Rightarrow> bool" where
  "isReading c \<longleftrightarrow> events c AND kReadEvent \<noteq> 0"

definition set_index :: "int \<Rightarrow> channel \<Rightarrow> channel" where
  "set_index i c = c\<lparr>index := i\<rparr>"

definition doNotLogHup :: "channel \<Rightarrow> channel" where
  "doNotLogHup c = c\<lparr>logHup := False\<rparr>"

definition tie :: "channel \<Rightarrow> channel" where
  "tie c = c\<lparr>tied := True\<rparr>"

text \<open>
  \<open>remove\<close> ends in the poller's \<open>removeChannel\<close>, which asserts that the channel is in its map: it is
  there from its first \<open>update\<close> to its \<open>remove\<close>, which is what \<open>addedToLoop\<close> says. The assertions of
  the poller's \<open>updateChannel\<close> concern two channels with one descriptor and the index that only the
  poller writes: theory Pollers proves them for every sequence in which open descriptors are distinct.
\<close>

definition channel_remove :: "channel \<Rightarrow> channel option" where
  "channel_remove c = do {
     require (isNoneEvent c);
     require (addedToLoop c);
     Some (c\<lparr>addedToLoop := False\<rparr>) }"

text \<open>The destructor; \<open>present\<close> is what the loop's \<open>hasChannel\<close> says in its own thread.\<close>

definition delete_Channel :: "bool \<Rightarrow> bool \<Rightarrow> channel \<Rightarrow> unit option" where
  "delete_Channel inLoopThread present c = do {
     require (\<not> eventHandling c);
     require (\<not> addedToLoop c);
     require (inLoopThread \<longrightarrow> \<not> present) }"

subsection \<open>Dispatching an event\<close>

record 's callbacks =
  readCallback :: "(int \<Rightarrow> 's \<Rightarrow> 's option) option"
  writeCallback :: "('s \<Rightarrow> 's option) option"
  closeCallback :: "('s \<Rightarrow> 's option) option"
  errorCallback :: "('s \<Rightarrow> 's option) option"

text \<open>A \<open>boost::function\<close> is called when it is not empty.\<close>

fun call :: "('s \<Rightarrow> 's option) option \<Rightarrow> 's \<Rightarrow> 's option" where
  "call None s = Some s"
| "call (Some f) s = f s"

definition has :: "u32 \<Rightarrow> u32 \<Rightarrow> bool" where
  "has r m \<longleftrightarrow> r AND m \<noteq> 0"

definition handleEventWithGuard ::
    "('s \<Rightarrow> channel) \<Rightarrow> ((channel \<Rightarrow> channel) \<Rightarrow> 's \<Rightarrow> 's) \<Rightarrow> 's callbacks \<Rightarrow> int \<Rightarrow> 's \<Rightarrow> 's option" where
  "handleEventWithGuard get upd cbs receiveTime s = do {
     let s = upd (eventHandling_update (\<lambda>_. True)) s;
     s \<leftarrow> (if has (revents (get s)) POLLHUP \<and> \<not> has (revents (get s)) POLLIN
          then call (closeCallback cbs) s else Some s);
     s \<leftarrow> (if has (revents (get s)) (POLLERR OR POLLNVAL) then call (errorCallback cbs) s else Some s);
     s \<leftarrow> (if has (revents (get s)) (POLLIN OR POLLPRI OR POLLRDHUP)
          then call (map_option (\<lambda>f. f receiveTime) (readCallback cbs)) s else Some s);
     s \<leftarrow> (if has (revents (get s)) POLLOUT then call (writeCallback cbs) s else Some s);
     Some (upd (eventHandling_update (\<lambda>_. False)) s) }"

text \<open>\<open>alive\<close>: whether the tied owner could still be locked.\<close>

definition handleEvent ::
    "('s \<Rightarrow> channel) \<Rightarrow> ((channel \<Rightarrow> channel) \<Rightarrow> 's \<Rightarrow> 's) \<Rightarrow> 's callbacks \<Rightarrow> int \<Rightarrow> bool \<Rightarrow> 's \<Rightarrow> 's option" where
  "handleEvent get upd cbs receiveTime alive s =
     (if tied (get s)
      then (if alive then handleEventWithGuard get upd cbs receiveTime s else Some s)
      else handleEventWithGuard get upd cbs receiveTime s)"

lemma has_or: "has r (x OR y) \<longleftrightarrow> has r x \<or> has r y"
  by (simp add: has_def bit.conj_disj_distrib or_eq_0_iff)

definition eventsToString :: "int \<Rightarrow> u32 \<Rightarrow> string" where
  "eventsToString fd ev = dec_int fd @ '': ''
     @ (if has ev POLLIN then ''IN '' else [])
     @ (if has ev POLLPRI then ''PRI '' else [])
     @ (if has ev POLLOUT then ''OUT '' else [])
     @ (if has ev POLLHUP then ''HUP '' else [])
     @ (if has ev POLLRDHUP then ''RDHUP '' else [])
     @ (if has ev POLLERR then ''ERR '' else [])
     @ (if has ev POLLNVAL then ''NVAL '' else [])"

definition reventsToString :: "channel \<Rightarrow> string" where
  "reventsToString c = eventsToString (ch_fd c) (revents c)"

subsection \<open>The interest bits\<close>

lemma mask_disjoint [simp]:
  "kReadEvent AND kWriteEvent = 0" "kWriteEvent AND kReadEvent = 0" "kReadEvent \<noteq> 0" "kWriteEvent \<noteq> 0"
  "NOT kReadEvent AND kWriteEvent = kWriteEvent" "NOT kWriteEvent AND kReadEvent = kReadEvent"
  by (simp_all add: event_masks poll_masks)

lemma channel_interest [simp]:
  "isWriting (enableReading c) = isWriting c" "isReading (enableReading c)"
  "isWriting (disableReading c) = isWriting c" "\<not> isReading (disableReading c)"
  "isWriting (enableWriting c)" "isReading (enableWriting c) = isReading c"
  "\<not> isWriting (disableWriting c)" "isReading (disableWriting c) = isReading c"
  "\<not> isWriting (disableAll c)" "\<not> isReading (disableAll c)" "isNoneEvent (disableAll c)"
  by (simp_all add: isWriting_def isReading_def isNoneEvent_def enableReading_def disableReading_def
        enableWriting_def disableWriting_def disableAll_def channel_update_def kNoneEvent_def
        bit.conj_disj_distrib2 and.assoc)

lemma channel_interest_flags [simp]:
  "isWriting (c\<lparr>tied := b1\<rparr>) = isWriting c" "isReading (c\<lparr>tied := b1\<rparr>) = isReading c"
  "isWriting (c\<lparr>eventHandling := b2\<rparr>) = isWriting c" "isReading (c\<lparr>eventHandling := b2\<rparr>) = isReading c"
  "isWriting (c\<lparr>revents := r\<rparr>) = isWriting c" "isReading (c\<lparr>revents := r\<rparr>) = isReading c"
  "isWriting (c\<lparr>addedToLoop := b3\<rparr>) = isWriting c" "isReading (c\<lparr>addedToLoop := b3\<rparr>) = isReading c"
  "isNoneEvent (c\<lparr>tied := b1\<rparr>) = isNoneEvent c" "isNoneEvent (c\<lparr>eventHandling := b2\<rparr>) = isNoneEvent c"
  "isNoneEvent (c\<lparr>revents := r\<rparr>) = isNoneEvent c" "isNoneEvent (c\<lparr>addedToLoop := b3\<rparr>) = isNoneEvent c"
  by (simp_all add: isWriting_def isReading_def isNoneEvent_def)

lemma channel_frame [simp]:
  "revents (enableReading c) = revents c" "revents (disableReading c) = revents c"
  "revents (enableWriting c) = revents c" "revents (disableWriting c) = revents c"
  "revents (disableAll c) = revents c" "revents (tie c) = revents c"
  "tied (enableReading c) = tied c" "tied (disableReading c) = tied c"
  "tied (enableWriting c) = tied c" "tied (disableWriting c) = tied c"
  "tied (disableAll c) = tied c" "tied (tie c)"
  "isWriting (tie c) = isWriting c" "isReading (tie c) = isReading c" "isNoneEvent (tie c) = isNoneEvent c"
  by (simp_all add: enableReading_def disableReading_def enableWriting_def disableWriting_def
        disableAll_def tie_def channel_update_def)

lemma addedToLoop_update [simp]:
  "addedToLoop (enableReading c)" "addedToLoop (disableReading c)" "addedToLoop (enableWriting c)"
  "addedToLoop (disableWriting c)" "addedToLoop (disableAll c)" "addedToLoop (tie c) = addedToLoop c"
  "addedToLoop (set_revents r c) = addedToLoop c"
  by (simp_all add: enableReading_def disableReading_def enableWriting_def disableWriting_def
        disableAll_def tie_def channel_update_def set_revents_def)

lemma new_Channel_interest [simp]:
  "\<not> isWriting (new_Channel fd)" "\<not> isReading (new_Channel fd)" "isNoneEvent (new_Channel fd)"
  by (simp_all add: new_Channel_def isWriting_def isReading_def isNoneEvent_def kNoneEvent_def)

text \<open>
  The bits a channel ever registers are those of the two masks; such a channel listens to nothing
  exactly when it neither reads nor writes.
\<close>

definition interest_ok :: "channel \<Rightarrow> bool" where
  "interest_ok c \<longleftrightarrow> events c \<in> {0, kReadEvent, kWriteEvent, kReadEvent OR kWriteEvent}"

lemma interest_ok_intros [simp, inv_intros]:
  "interest_ok (new_Channel fd)" "interest_ok (disableAll c)"
  "interest_ok c \<Longrightarrow> interest_ok (enableReading c)" "interest_ok c \<Longrightarrow> interest_ok (disableReading c)"
  "interest_ok c \<Longrightarrow> interest_ok (enableWriting c)" "interest_ok c \<Longrightarrow> interest_ok (disableWriting c)"
  "interest_ok (tie c) = interest_ok c"
  "interest_ok (c\<lparr>tied := b1\<rparr>) = interest_ok c" "interest_ok (c\<lparr>eventHandling := b2\<rparr>) = interest_ok c"
  "interest_ok (c\<lparr>revents := r\<rparr>) = interest_ok c" "interest_ok (c\<lparr>addedToLoop := b3\<rparr>) = interest_ok c"
  by (auto simp: interest_ok_def new_Channel_def enableReading_def disableReading_def enableWriting_def
        disableWriting_def disableAll_def tie_def channel_update_def event_masks poll_masks)

lemma interest_none: "interest_ok c \<Longrightarrow> isNoneEvent c \<longleftrightarrow> \<not> isReading c \<and> \<not> isWriting c"
  by (auto simp: interest_ok_def isNoneEvent_def isReading_def isWriting_def event_masks poll_masks)

lemma isNoneEvent_disable [simp]:
  "isNoneEvent ch \<Longrightarrow> isNoneEvent (disableReading ch)" "isNoneEvent ch \<Longrightarrow> isNoneEvent (disableWriting ch)"
  by (simp_all add: isNoneEvent_def disableReading_def disableWriting_def channel_update_def kNoneEvent_def)

subsection \<open>Properties\<close>

text \<open>Callbacks that write their name on a log.\<close>

definition logging_callbacks :: "(channel \<times> string list) callbacks" where
  "logging_callbacks = \<lparr>readCallback = Some (\<lambda>t s. Some (apsnd (\<lambda>l. l @ [''read'']) s)),
     writeCallback = Some (\<lambda>s. Some (apsnd (\<lambda>l. l @ [''write'']) s)),
     closeCallback = Some (\<lambda>s. Some (apsnd (\<lambda>l. l @ [''close'']) s)),
     errorCallback = Some (\<lambda>s. Some (apsnd (\<lambda>l. l @ [''error'']) s))\<rparr>"

text \<open>
  handleEvent calls the callbacks in the fixed order close, error, read, write, each one at most
  once and exactly when its bits are set in revents (close only on a hang-up without readable data),
  and nothing at all when the tied owner has gone.
\<close>

theorem handleEvent_dispatch_order:
  "handleEvent fst apfst logging_callbacks t alive (c, []) = Some
    (if tied c \<and> \<not> alive then (c, []) else (c\<lparr>eventHandling := False\<rparr>,
       (if has (revents c) POLLHUP \<and> \<not> has (revents c) POLLIN then [''close''] else [])
       @ (if has (revents c) POLLERR \<or> has (revents c) POLLNVAL then [''error''] else [])
       @ (if has (revents c) POLLIN \<or> has (revents c) POLLPRI \<or> has (revents c) POLLRDHUP then [''read''] else [])
       @ (if has (revents c) POLLOUT then [''write''] else [])))"
  by (simp add: logging_callbacks_def handleEvent_def handleEventWithGuard_def has_or Let_def)

end
