(* ===== verification/Pollers.thy ===== *)
theory Pollers
  imports Event_Channel
begin

text \<open>
  muduo/net/Poller.h, Poller.cc, poller/PollPoller.cc and poller/EPollPoller.cc: the two ways a loop
  watches descriptors. The channels live in a heap of the loop (\<open>chan_heap\<close>, by address); a poller keeps
  the map from descriptors to channels and writes the channels' \<open>index\<close>. poll(2)'s array is part of
  PollPoller; the interest list the kernel keeps for epoll is modelled beside EPollPoller, with the
  errors of epoll_ctl (EEXIST, ENOENT). What the kernel reports is an argument.

  The locale \<open>poller\<close> is the contract of \<open>updateChannel\<close> and \<open>removeChannel\<close> for a client that registers
  a channel with some event first and removes it only after it has disabled all of them; both pollers
  are interpretations of it.
\<close>

type_synonym addr = nat
type_synonym chan_heap = "addr \<Rightarrow> channel option"
type_synonym chan_map = "(int \<times> addr) list"

definition hasChannel :: "addr \<Rightarrow> channel \<Rightarrow> chan_map \<Rightarrow> bool" where
  "hasChannel a c m \<longleftrightarrow> map_of m (ch_fd c) = Some a"

subsection \<open>PollPoller\<close>

record pollfd =
  pfd_fd :: int
  pfd_events :: u16
  pfd_revents :: u16

record poll_poller =
  pp_channels :: chan_map
  pollfds :: "pollfd list"

definition new_PollPoller :: poll_poller where
  "new_PollPoller = \<lparr>pp_channels = [], pollfds = []\<rparr>"

definition poll_updateChannel :: "addr \<Rightarrow> poll_poller \<Rightarrow> chan_heap \<Rightarrow> (poll_poller \<times> chan_heap) option" where
  "poll_updateChannel a p h = do {
     c \<leftarrow> h a;
     if index c < 0 then do {
       require (map_of (pp_channels p) (ch_fd c) = None);
       let pfd = \<lparr>pfd_fd = ch_fd c, pfd_events = ucast (events c), pfd_revents = 0\<rparr>;
       let pfds = pollfds p @ [pfd];
       let idx = int (length pfds) - 1;
       Some (p\<lparr>pollfds := pfds, pp_channels := amap_put (ch_fd c) a (pp_channels p)\<rparr>, h(a \<mapsto> set_index idx c)) }
     else do {
       require (map_of (pp_channels p) (ch_fd c) = Some a);
       let idx = index c;
       require (0 \<le> idx \<and> idx < int (length (pollfds p)));
       let pfd = pollfds p ! nat idx;
       require (pfd_fd pfd = ch_fd c \<or> pfd_fd pfd = - ch_fd c - 1);
       let pfd = \<lparr>pfd_fd = ch_fd c, pfd_events = ucast (events c), pfd_revents = 0\<rparr>;
       let pfd = (if isNoneEvent c then pfd\<lparr>pfd_fd := - ch_fd c - 1\<rparr> else pfd);
       Some (p\<lparr>pollfds := (pollfds p)[nat idx := pfd]\<rparr>, h) } }"

definition poll_removeChannel :: "addr \<Rightarrow> poll_poller \<Rightarrow> chan_heap \<Rightarrow> (poll_poller \<times> chan_heap) option" where
  "poll_removeChannel a p h = do {
     c \<leftarrow> h a;
     require (map_of (pp_channels p) (ch_fd c) = Some a);
     require (isNoneEvent c);
     let idx = index c;
     require (0 \<le> idx \<and> idx < int (length (pollfds p)));
     let pfd = pollfds p ! nat idx;
     require (pfd_fd pfd = - ch_fd c - 1 \<and> pfd_events pfd = ucast (events c));
     let chans = amap_erase (ch_fd c) (pp_channels p);
     if nat idx = length (pollfds p) - 1
     then Some (p\<lparr>pp_channels := chans, pollfds := butlast (pollfds p)\<rparr>, h)
     else do {
       let back = last (pollfds p);
       let channelAtEnd = (if pfd_fd back < 0 then - pfd_fd back - 1 else pfd_fd back);
       b \<leftarrow> map_of chans channelAtEnd;
       d \<leftarrow> h b;
       Some (p\<lparr>pp_channels := chans, pollfds := butlast ((pollfds p)[nat idx := back])\<rparr>, h(b \<mapsto> set_index idx d)) } }"

text \<open>The revents poll(2) wrote are in the array; \<open>revents > 0\<close> is on a signed short.\<close>

fun poll_fillActiveChannels ::
    "int \<Rightarrow> pollfd list \<Rightarrow> chan_map \<Rightarrow> chan_heap \<Rightarrow> (addr list \<times> chan_heap) option" where
  "poll_fillActiveChannels numEvents [] m h = Some ([], h)"
| "poll_fillActiveChannels numEvents (pfd # pfds) m h =
     (if \<not> 0 < numEvents then Some ([], h)
      else if 0 <s pfd_revents pfd
      then do {
        a \<leftarrow> map_of m (pfd_fd pfd);
        c \<leftarrow> h a;
        require (ch_fd c = pfd_fd pfd);
        (active, h) \<leftarrow> poll_fillActiveChannels (numEvents - 1) pfds m (h(a \<mapsto> set_revents (ucast (pfd_revents pfd)) c));
        Some (a # active, h) }
      else poll_fillActiveChannels numEvents pfds m h)"

definition poll_poll :: "u16 list \<Rightarrow> int \<Rightarrow> poll_poller \<Rightarrow> chan_heap \<Rightarrow> (addr list \<times> poll_poller \<times> chan_heap) option" where
  "poll_poll revs numEvents p h =
     (let p = p\<lparr>pollfds := map2 (\<lambda>pfd r. pfd\<lparr>pfd_revents := r\<rparr>) (pollfds p) revs\<rparr>
      in if 0 < numEvents
         then do { (active, h) \<leftarrow> poll_fillActiveChannels numEvents (pollfds p) (pp_channels p) h; Some (active, p, h) }
         else Some ([], p, h))"

subsection \<open>EPollPoller\<close>

definition kNew :: int where "kNew = - 1"
definition kAdded :: int where "kAdded = 1"
definition kDeleted :: int where "kDeleted = 2"
definition kInitEventListSize :: nat where "kInitEventListSize = 16"

lemmas epoll_index = kNew_def kAdded_def kDeleted_def

datatype epoll_op = EPOLL_CTL_ADD | EPOLL_CTL_DEL | EPOLL_CTL_MOD

record epoll_poller =
  ep_channels :: chan_map
  eventList_size :: nat
  ep_interest :: "int \<Rightarrow> (u32 \<times> addr) option"

definition new_EPollPoller :: epoll_poller where
  "new_EPollPoller = \<lparr>ep_channels = [], eventList_size = kInitEventListSize, ep_interest = (\<lambda>_. None)\<rparr>"

text \<open>epoll_ctl: the new interest list, or None for EEXIST and ENOENT.\<close>

fun epoll_ctl :: "epoll_op \<Rightarrow> int \<Rightarrow> u32 \<times> addr \<Rightarrow> (int \<Rightarrow> (u32 \<times> addr) option) \<Rightarrow> (int \<Rightarrow> (u32 \<times> addr) option) option" where
  "epoll_ctl EPOLL_CTL_ADD fd ev i = (if i fd = None then Some (i(fd \<mapsto> ev)) else None)"
| "epoll_ctl EPOLL_CTL_MOD fd ev i = (if i fd = None then None else Some (i(fd \<mapsto> ev)))"
| "epoll_ctl EPOLL_CTL_DEL fd ev i = (if i fd = None then None else Some (i(fd := None)))"

text \<open>A failing DEL is logged, the others are fatal.\<close>

definition epoll_update :: "epoll_op \<Rightarrow> addr \<Rightarrow> channel \<Rightarrow> epoll_poller \<Rightarrow> epoll_poller option" where
  "epoll_update operation a c p =
     (case epoll_ctl operation (ch_fd c) (events c, a) (ep_interest p) of
        Some i \<Rightarrow> Some (p\<lparr>ep_interest := i\<rparr>)
      | None \<Rightarrow> if operation = EPOLL_CTL_DEL then Some p else None)"

fun operationToString :: "epoll_op \<Rightarrow> string" where
  "operationToString EPOLL_CTL_ADD = ''ADD''"
| "operationToString EPOLL_CTL_DEL = ''DEL''"
| "operationToString EPOLL_CTL_MOD = ''MOD''"

definition epoll_updateChannel :: "addr \<Rightarrow> epoll_poller \<Rightarrow> chan_heap \<Rightarrow> (epoll_poller \<times> chan_heap) option" where
  "epoll_updateChannel a p h = do {
     c \<leftarrow> h a;
     if index c = kNew \<or> index c = kDeleted then do {
       p \<leftarrow> (if index c = kNew
            then do {
              require (map_of (ep_channels p) (ch_fd c) = None);
              Some (p\<lparr>ep_channels := amap_put (ch_fd c) a (ep_channels p)\<rparr>) }
            else do {
              require (map_of (ep_channels p) (ch_fd c) = Some a);
              Some p });
       let c = set_index kAdded c;
       p \<leftarrow> epoll_update EPOLL_CTL_ADD a c p;
       Some (p, h(a \<mapsto> c)) }
     else do {
       require (map_of (ep_channels p) (ch_fd c) = Some a);
       require (index c = kAdded);
       if isNoneEvent c then do {
         p \<leftarrow> epoll_update EPOLL_CTL_DEL a c p;
         Some (p, h(a \<mapsto> set_index kDeleted c)) }
       else do {
         p \<leftarrow> epoll_update EPOLL_CTL_MOD a c p;
         Some (p, h) } } }"

definition epoll_removeChannel :: "addr \<Rightarrow> epoll_poller \<Rightarrow> chan_heap \<Rightarrow> (epoll_poller \<times> chan_heap) option" where
  "epoll_removeChannel a p h = do {
     c \<leftarrow> h a;
     require (map_of (ep_channels p) (ch_fd c) = Some a);
     require (isNoneEvent c);
     require (index c = kAdded \<or> index c = kDeleted);
     let p = p\<lparr>ep_channels := amap_erase (ch_fd c) (ep_channels p)\<rparr>;
     p \<leftarrow> (if index c = kAdded then epoll_update EPOLL_CTL_DEL a c p else Some p);
     Some (p, h(a \<mapsto> set_index kNew c)) }"

fun epoll_fillActiveChannels ::
    "(u32 \<times> addr) list \<Rightarrow> chan_map \<Rightarrow> chan_heap \<Rightarrow> (addr list \<times> chan_heap) option" where
  "epoll_fillActiveChannels [] m h = Some ([], h)"
| "epoll_fillActiveChannels ((ev, a) # evs) m h = do {
     c \<leftarrow> h a;
     require (map_of m (ch_fd c) = Some a);
     (active, h) \<leftarrow> epoll_fillActiveChannels evs m (h(a \<mapsto> set_revents ev c));
     Some (a # active, h) }"

text \<open>
  \<open>poll\<close> first prints all registered descriptors into \<open>char tmpbuffer[4098]\<close> with sprintf, which does
  not look at the size: text that does not fit with its NUL overwrites the stack.
\<close>

definition tmpbuffer_size :: nat where "tmpbuffer_size = 4098"

definition tmpbuffer_text :: "chan_map \<Rightarrow> string" where
  "tmpbuffer_text m = concat (map (\<lambda>(fd, a). ''channelfd='' @ dec_int fd @ '' '') m)"

definition epoll_poll ::
    "(u32 \<times> addr) list \<Rightarrow> epoll_poller \<Rightarrow> chan_heap \<Rightarrow> (addr list \<times> epoll_poller \<times> chan_heap) option" where
  "epoll_poll reported p h = do {
     require (length (tmpbuffer_text (ep_channels p)) < tmpbuffer_size);
     let numEvents = length reported;
     if 0 < numEvents then do {
       require (numEvents \<le> eventList_size p);
       (active, h) \<leftarrow> epoll_fillActiveChannels reported (ep_channels p) h;
       let p = (if numEvents = eventList_size p then p\<lparr>eventList_size := eventList_size p * 2\<rparr> else p);
       Some (active, p, h) }
     else Some ([], p, h) }"

subsection \<open>The contract\<close>

text \<open>A change of a channel's events, \<open>Channel::update\<close> included, through either poller.\<close>

definition set_events ::
    "(addr \<Rightarrow> 'p \<Rightarrow> chan_heap \<Rightarrow> ('p \<times> chan_heap) option) \<Rightarrow> addr \<Rightarrow> u32 \<Rightarrow> 'p \<Rightarrow> chan_heap \<Rightarrow> ('p \<times> chan_heap) option" where
  "set_events updateChannel a ev p h = do { c \<leftarrow> h a; updateChannel a p (h(a \<mapsto> channel_update (c\<lparr>events := ev\<rparr>))) }"

definition event_set :: "u32 \<Rightarrow> bool" where
  "event_set ev \<longleftrightarrow> ev \<in> {0, kReadEvent, kWriteEvent, kReadEvent OR kWriteEvent}"

definition watch_of :: "u32 \<Rightarrow> u32 option" where
  "watch_of ev = (if ev = 0 then None else Some ev)"

definition same_fds :: "chan_heap \<Rightarrow> chan_heap \<Rightarrow> bool" where
  "same_fds h h' \<longleftrightarrow> (\<forall>b. map_option ch_fd (h' b) = map_option ch_fd (h b))"

datatype reg_op = Set_Events addr u32 | Remove addr

text \<open>
  The specification: which channel each descriptor belongs to, the events watched for it and the
  channels ever registered; \<open>fd\<close> gives the descriptor of a channel. None: not permitted.
\<close>

type_synonym watch = "chan_map \<times> (int \<Rightarrow> u32 option) \<times> addr set"

fun watch_step :: "(addr \<Rightarrow> int) \<Rightarrow> reg_op \<Rightarrow> watch \<Rightarrow> watch option" where
  "watch_step fd (Set_Events a ev) (r, w, used) =
     (if event_set ev \<and> (map_of r (fd a) = Some a \<or> a \<notin> used \<and> map_of r (fd a) = None \<and> ev \<noteq> 0)
      then Some (amap_put (fd a) a r, w(fd a := watch_of ev), insert a used) else None)"
| "watch_step fd (Remove a) (r, w, used) =
     (if map_of r (fd a) = Some a \<and> w (fd a) = None then Some (amap_erase (fd a) r, w, used) else None)"

fun watch_run :: "(addr \<Rightarrow> int) \<Rightarrow> reg_op list \<Rightarrow> watch \<Rightarrow> watch option" where
  "watch_run fd [] s = Some s"
| "watch_run fd (x # xs) s = do { s \<leftarrow> watch_step fd x s; watch_run fd xs s }"

fun poller_run ::
    "(addr \<Rightarrow> 'p \<Rightarrow> chan_heap \<Rightarrow> ('p \<times> chan_heap) option) \<Rightarrow> (addr \<Rightarrow> 'p \<Rightarrow> chan_heap \<Rightarrow> ('p \<times> chan_heap) option)
     \<Rightarrow> reg_op list \<Rightarrow> 'p \<Rightarrow> chan_heap \<Rightarrow> ('p \<times> chan_heap) option" where
  "poller_run upd rem [] p h = Some (p, h)"
| "poller_run upd rem (Set_Events a ev # xs) p h = do { (p, h) \<leftarrow> set_events upd a ev p h; poller_run upd rem xs p h }"
| "poller_run upd rem (Remove a # xs) p h = do { (p, h) \<leftarrow> rem a p h; poller_run upd rem xs p h }"

locale poller =
  fixes upd :: "addr \<Rightarrow> 'p \<Rightarrow> chan_heap \<Rightarrow> ('p \<times> chan_heap) option"
    and rem :: "addr \<Rightarrow> 'p \<Rightarrow> chan_heap \<Rightarrow> ('p \<times> chan_heap) option"
    and registered :: "'p \<Rightarrow> chan_map"
    and watched :: "'p \<Rightarrow> int \<Rightarrow> u32 option"
    and inv :: "addr set \<Rightarrow> 'p \<Rightarrow> chan_heap \<Rightarrow> bool"
  assumes set_law: "inv used p h \<Longrightarrow> h a = Some c \<Longrightarrow> 0 \<le> ch_fd c \<Longrightarrow> event_set ev \<Longrightarrow>
      map_of (registered p) (ch_fd c) = Some a \<or> a \<notin> used \<and> map_of (registered p) (ch_fd c) = None \<and> ev \<noteq> 0 \<Longrightarrow>
      \<exists>p' h'. set_events upd a ev p h = Some (p', h') \<and> inv (insert a used) p' h' \<and> same_fds h h'
        \<and> registered p' = amap_put (ch_fd c) a (registered p) \<and> watched p' = (watched p)(ch_fd c := watch_of ev)"
    and rem_law: "inv used p h \<Longrightarrow> h a = Some c \<Longrightarrow> map_of (registered p) (ch_fd c) = Some a \<Longrightarrow>
      watched p (ch_fd c) = None \<Longrightarrow>
      \<exists>p' h'. rem a p h = Some (p', h') \<and> inv used p' h' \<and> same_fds h h'
        \<and> registered p' = amap_erase (ch_fd c) (registered p) \<and> watched p' = watched p"
begin

lemma implements_watch:
  assumes "inv used p h" "\<forall>a. \<exists>c. h a = Some c \<and> ch_fd c = fd a \<and> 0 \<le> fd a"
    "watch_run fd ops (registered p, watched p, used) = Some (r, w, used')"
  shows "\<exists>p' h'. poller_run upd rem ops p h = Some (p', h') \<and> inv used' p' h' \<and> registered p' = r \<and> watched p' = w"
  using assms
proof (induction ops arbitrary: used p h)
  case Nil
  then show ?case by simp
next
  case (Cons x xs)
  have keep: "\<forall>a. \<exists>c. h' a = Some c \<and> ch_fd c = fd a \<and> 0 \<le> fd a" if "same_fds h h'" for h'
  proof
    fix a
    obtain c where "h a = Some c" "ch_fd c = fd a" "0 \<le> fd a" using Cons.prems(2) by blast
    with that show "\<exists>c. h' a = Some c \<and> ch_fd c = fd a \<and> 0 \<le> fd a"
      unfolding same_fds_def by (metis map_option_eq_Some)
  qed
  show ?case
  proof (cases x)
    case (Set_Events a ev)
    obtain c where c: "h a = Some c" "ch_fd c = fd a" "0 \<le> fd a" using Cons.prems(2) by blast
    from Cons.prems(3) Set_Events c have
      pre: "event_set ev" "map_of (registered p) (ch_fd c) = Some a \<or> a \<notin> used \<and> map_of (registered p) (ch_fd c) = None \<and> ev \<noteq> 0"
      and run: "watch_run fd xs (amap_put (fd a) a (registered p), (watched p)(fd a := watch_of ev), insert a used) = Some (r, w, used')"
      by (auto split: if_splits)
    obtain p1 h1 where s: "set_events upd a ev p h = Some (p1, h1)" "inv (insert a used) p1 h1" "same_fds h h1"
        "registered p1 = amap_put (fd a) a (registered p)" "watched p1 = (watched p)(fd a := watch_of ev)"
      using set_law [OF Cons.prems(1) c(1) _ pre] c by auto
    have "\<exists>p' h'. poller_run upd rem xs p1 h1 = Some (p', h') \<and> inv used' p' h' \<and> registered p' = r \<and> watched p' = w"
      by (rule Cons.IH [OF s(2) keep [OF s(3)]]) (simp only: s(4,5) run)
    then show ?thesis by (simp add: Set_Events s(1))
  next
    case (Remove a)
    obtain c where c: "h a = Some c" "ch_fd c = fd a" using Cons.prems(2) by blast
    from Cons.prems(3) Remove c have
      pre: "map_of (registered p) (ch_fd c) = Some a" "watched p (ch_fd c) = None"
      and run: "watch_run fd xs (amap_erase (fd a) (registered p), watched p, used) = Some (r, w, used')"
      by (auto split: if_splits)
    obtain p1 h1 where s: "rem a p h = Some (p1, h1)" "inv used p1 h1" "same_fds h h1"
        "registered p1 = amap_erase (fd a) (registered p)" "watched p1 = watched p"
      using rem_law [OF Cons.prems(1) c(1) pre] c by auto
    have "\<exists>p' h'. poller_run upd rem xs p1 h1 = Some (p', h') \<and> inv used' p' h' \<and> registered p' = r \<and> watched p' = w"
      by (rule Cons.IH [OF s(2) keep [OF s(3)]]) (simp only: s(4,5) run)
    then show ?thesis by (simp add: Remove s(1))
  qed
qed

end

subsection \<open>epoll keeps it\<close>

definition epoll_watched :: "epoll_poller \<Rightarrow> int \<Rightarrow> u32 option" where
  "epoll_watched p fd = (case ep_interest p fd of None \<Rightarrow> None | Some (ev, a) \<Rightarrow> watch_of ev)"

definition epoll_inv :: "addr set \<Rightarrow> epoll_poller \<Rightarrow> chan_heap \<Rightarrow> bool" where
  "epoll_inv used p h \<longleftrightarrow>
     (\<forall>fd a. map_of (ep_channels p) fd = Some a \<longrightarrow> a \<in> used \<and> (\<exists>c. h a = Some c \<and> ch_fd c = fd
        \<and> (index c = kAdded \<and> ep_interest p fd = Some (events c, a)
           \<or> index c = kDeleted \<and> ep_interest p fd = None \<and> events c = 0)))
     \<and> (\<forall>fd. map_of (ep_channels p) fd = None \<longrightarrow> ep_interest p fd = None)
     \<and> (\<forall>a c. a \<notin> used \<longrightarrow> h a = Some c \<longrightarrow> index c = kNew)"

lemma epoll_invD:
  assumes "epoll_inv used p h"
  shows "map_of (ep_channels p) fd = Some a \<Longrightarrow> a \<in> used"
    "map_of (ep_channels p) fd = Some a \<Longrightarrow> h a = Some c \<Longrightarrow> ch_fd c = fd
        \<and> (index c = kAdded \<and> ep_interest p fd = Some (events c, a)
           \<or> index c = kDeleted \<and> ep_interest p fd = None \<and> events c = 0)"
    "map_of (ep_channels p) fd = None \<Longrightarrow> ep_interest p fd = None"
    "a \<notin> used \<Longrightarrow> h a = Some c \<Longrightarrow> index c = kNew"
proof -
  show "map_of (ep_channels p) fd = Some a \<Longrightarrow> a \<in> used"
    "map_of (ep_channels p) fd = None \<Longrightarrow> ep_interest p fd = None"
    "a \<notin> used \<Longrightarrow> h a = Some c \<Longrightarrow> index c = kNew"
    using assms unfolding epoll_inv_def by blast+
  assume m: "map_of (ep_channels p) fd = Some a" and c: "h a = Some c"
  then obtain d where "h a = Some d" "ch_fd d = fd \<and> (index d = kAdded \<and> ep_interest p fd = Some (events d, a)
           \<or> index d = kDeleted \<and> ep_interest p fd = None \<and> events d = 0)"
    using assms unfolding epoll_inv_def by blast
  with c show "ch_fd c = fd \<and> (index c = kAdded \<and> ep_interest p fd = Some (events c, a)
           \<or> index c = kDeleted \<and> ep_interest p fd = None \<and> events c = 0)"
    by simp
qed

lemma epoll_inv_put:
  assumes "epoll_inv used p h" "h a = Some c" "ch_fd d = ch_fd c"
    and "index d = kAdded \<and> x = Some (events d, a) \<or> index d = kDeleted \<and> x = None \<and> events d = 0"
    and "ep_channels p' = amap_put (ch_fd c) a (ep_channels p)" "ep_interest p' = (ep_interest p)(ch_fd c := x)"
  shows "epoll_inv (insert a used) p' (h(a \<mapsto> d))"
  unfolding epoll_inv_def
proof (intro conjI allI impI)
  fix fd b
  assume b: "map_of (ep_channels p') fd = Some b"
  have "b \<in> insert a used \<and> (\<exists>e. (h(a \<mapsto> d)) b = Some e \<and> ch_fd e = fd
      \<and> (index e = kAdded \<and> ep_interest p' fd = Some (events e, b) \<or> index e = kDeleted \<and> ep_interest p' fd = None \<and> events e = 0))"
  proof (cases "fd = ch_fd c")
    case True
    with b have "b = a" by (simp add: assms(5))
    with True assms(3,4,6) show ?thesis by auto
  next
    case False
    with b have m: "map_of (ep_channels p) fd = Some b" by (simp add: assms(5))
    from assms(1) m obtain e where e: "b \<in> used" "h b = Some e" "ch_fd e = fd"
        "index e = kAdded \<and> ep_interest p fd = Some (events e, b) \<or> index e = kDeleted \<and> ep_interest p fd = None \<and> events e = 0"
      unfolding epoll_inv_def by blast
    with False assms(2) have "b \<noteq> a" by auto
    with e False assms(6) show ?thesis by auto
  qed
  then show "b \<in> insert a used" "\<exists>e. (h(a \<mapsto> d)) b = Some e \<and> ch_fd e = fd
      \<and> (index e = kAdded \<and> ep_interest p' fd = Some (events e, b) \<or> index e = kDeleted \<and> ep_interest p' fd = None \<and> events e = 0)"
    by auto
next
  fix fd
  assume "map_of (ep_channels p') fd = None"
  then show "ep_interest p' fd = None"
    using epoll_invD(3) [OF assms(1)] assms(5,6) by (auto split: if_splits)
next
  fix b e
  assume "b \<notin> insert a used" "(h(a \<mapsto> d)) b = Some e"
  then show "index e = kNew" using epoll_invD(4) [OF assms(1)] by auto
qed

lemma epoll_watched_put:
  "ep_interest p' = (ep_interest p)(fd := x) \<Longrightarrow> x = Some (ev, a) \<or> x = None \<and> ev = 0 \<Longrightarrow>
   epoll_watched p' = (epoll_watched p)(fd := watch_of ev)"
  by (auto simp: epoll_watched_def fun_eq_iff watch_of_def)

lemma amap_put_same: "amap_ok m \<Longrightarrow> map_of m k = Some v \<Longrightarrow> amap_put k v m = m"
  by (induction k v m rule: amap_put.induct) (force dest: map_of_SomeD)+

lemma epoll_set_law:
  assumes "epoll_inv used p h" "amap_ok (ep_channels p)" "h a = Some c"
    and "map_of (ep_channels p) (ch_fd c) = Some a \<or> a \<notin> used \<and> map_of (ep_channels p) (ch_fd c) = None \<and> ev \<noteq> 0"
  shows "\<exists>p' h'. set_events epoll_updateChannel a ev p h = Some (p', h') \<and> epoll_inv (insert a used) p' h' \<and> same_fds h h'
    \<and> ep_channels p' = amap_put (ch_fd c) a (ep_channels p) \<and> epoll_watched p' = (epoll_watched p)(ch_fd c := watch_of ev)"
proof -
  let ?fd = "ch_fd c" and ?c = "channel_update (c\<lparr>events := ev\<rparr>)"
  have c': "ch_fd ?c = ?fd" "events ?c = ev" "index ?c = index c"
    by (simp_all add: channel_update_def)
  obtain i p' x where r: "epoll_updateChannel a p (h(a \<mapsto> ?c)) = Some (p', h(a \<mapsto> set_index i ?c))"
      "ep_channels p' = amap_put ?fd a (ep_channels p)" "ep_interest p' = (ep_interest p)(?fd := x)"
      "i = kAdded \<and> x = Some (ev, a) \<or> i = kDeleted \<and> x = None \<and> ev = 0"
  proof (cases "map_of (ep_channels p) ?fd")
    case None
    then have "index c = kNew" "ep_interest p ?fd = None"
      using assms(3,4) epoll_invD(3,4) [OF assms(1)] by auto
    with None show thesis
      by (intro that [of "p\<lparr>ep_channels := amap_put ?fd a (ep_channels p), ep_interest := (ep_interest p)(?fd \<mapsto> (ev, a))\<rparr>" kAdded "Some (ev, a)"])
        (simp_all add: epoll_updateChannel_def c' epoll_update_def set_index_def channel_update_def)
  next
    case (Some b)
    then have m: "map_of (ep_channels p) ?fd = Some a" using assms(4) by auto
    note same = amap_put_same [OF assms(2) m]
    consider (added) "index c = kAdded" "ep_interest p ?fd = Some (events c, a)"
      | (deleted) "index c = kDeleted" "ep_interest p ?fd = None"
      using epoll_invD(2) [OF assms(1) m assms(3)] by auto
    then show thesis
    proof cases
      case deleted
      then show thesis using m same
        by (intro that [of "p\<lparr>ep_interest := (ep_interest p)(?fd \<mapsto> (ev, a))\<rparr>" kAdded "Some (ev, a)"])
          (simp_all add: epoll_updateChannel_def c' epoll_update_def set_index_def channel_update_def epoll_index)
    next
      case added
      show thesis
      proof (cases "ev = 0")
        case True
        with added m same show thesis
          by (intro that [of "p\<lparr>ep_interest := (ep_interest p)(?fd := None)\<rparr>" kDeleted None])
            (simp_all add: epoll_updateChannel_def c' epoll_update_def set_index_def channel_update_def epoll_index
              isNoneEvent_def kNoneEvent_def)
      next
        case False
        have "set_index kAdded ?c = ?c" using added by (simp add: set_index_def channel_update_def)
        with False added m same show thesis
          by (intro that [of "p\<lparr>ep_interest := (ep_interest p)(?fd \<mapsto> (ev, a))\<rparr>" kAdded "Some (ev, a)"])
            (simp_all add: epoll_updateChannel_def c' epoll_update_def epoll_index isNoneEvent_def kNoneEvent_def)
      qed
    qed
  qed
  have "epoll_inv (insert a used) p' (h(a \<mapsto> set_index i ?c))"
    by (rule epoll_inv_put [OF assms(1,3) _ _ r(2,3)]) (use r(4) c' in \<open>auto simp: set_index_def\<close>)
  moreover have "epoll_watched p' = (epoll_watched p)(?fd := watch_of ev)"
    by (rule epoll_watched_put [OF r(3)]) (use r(4) in auto)
  moreover have "same_fds h (h(a \<mapsto> set_index i ?c))"
    using assms(3) c'(1) by (simp add: same_fds_def set_index_def)
  ultimately show ?thesis
    using r(1,2) assms(3) by (simp add: set_events_def)
qed

lemma epoll_rem_law:
  assumes "epoll_inv used p h" "h a = Some c" "map_of (ep_channels p) (ch_fd c) = Some a"
    "epoll_watched p (ch_fd c) = None"
  shows "\<exists>p' h'. epoll_removeChannel a p h = Some (p', h') \<and> epoll_inv used p' h' \<and> same_fds h h'
    \<and> ep_channels p' = amap_erase (ch_fd c) (ep_channels p) \<and> epoll_watched p' = epoll_watched p"
proof -
  let ?fd = "ch_fd c"
  note c = epoll_invD(2) [OF assms(1,3,2)]
  have ev: "events c = 0"
    using c assms(4) by (auto simp: epoll_watched_def watch_of_def split: if_splits)
  define p' where "p' = p\<lparr>ep_channels := amap_erase ?fd (ep_channels p), ep_interest := (ep_interest p)(?fd := None)\<rparr>"
  have same: "ep_interest p ?fd = None \<Longrightarrow> p\<lparr>ep_channels := amap_erase ?fd (ep_channels p)\<rparr> = p'"
    by (simp add: p'_def fun_upd_idem)
  have run: "epoll_removeChannel a p h = Some (p', h(a \<mapsto> set_index kNew c))"
    using c assms(2,3) ev same
    by (auto simp: epoll_removeChannel_def isNoneEvent_def kNoneEvent_def epoll_update_def epoll_index p'_def)
  have "epoll_inv used p' (h(a \<mapsto> set_index kNew c))"
    unfolding epoll_inv_def
  proof (intro conjI allI impI)
    fix fd b
    assume b: "map_of (ep_channels p') fd = Some b"
    then have m: "map_of (ep_channels p) fd = Some b" "fd \<noteq> ?fd"
      by (auto simp: p'_def split: if_splits)
    then obtain e where e: "h b = Some e" "ch_fd e = fd" "b \<in> used"
      using assms(1) unfolding epoll_inv_def by blast
    with m(2) assms(2) have "b \<noteq> a" by auto
    with e m epoll_invD(2) [OF assms(1) m(1) e(1)] show "b \<in> used"
      "\<exists>e. (h(a \<mapsto> set_index kNew c)) b = Some e \<and> ch_fd e = fd \<and> (index e = kAdded \<and> ep_interest p' fd = Some (events e, b)
        \<or> index e = kDeleted \<and> ep_interest p' fd = None \<and> events e = 0)"
      by (auto simp: p'_def)
  next
    fix fd
    assume "map_of (ep_channels p') fd = None"
    then show "ep_interest p' fd = None"
      using epoll_invD(3) [OF assms(1)] by (auto simp: p'_def split: if_splits)
  next
    fix b e
    assume "b \<notin> used" "(h(a \<mapsto> set_index kNew c)) b = Some e"
    then show "index e = kNew"
      using epoll_invD(1) [OF assms(1,3)] epoll_invD(4) [OF assms(1)] by (auto split: if_splits)
  qed
  moreover have "epoll_watched p' = epoll_watched p"
    using assms(4) by (auto simp: epoll_watched_def p'_def fun_eq_iff)
  moreover have "same_fds h (h(a \<mapsto> set_index kNew c))"
    using assms(2) by (simp add: same_fds_def set_index_def)
  ultimately show ?thesis using run by (simp add: p'_def)
qed

definition epoll_ok :: "addr set \<Rightarrow> epoll_poller \<Rightarrow> chan_heap \<Rightarrow> bool" where
  "epoll_ok used p h \<longleftrightarrow> epoll_inv used p h \<and> amap_ok (ep_channels p)"

interpretation epoll: poller epoll_updateChannel epoll_removeChannel ep_channels epoll_watched epoll_ok
proof
  fix used p h a c ev
  assume *: "epoll_ok used p h" "h a = Some c" "0 \<le> ch_fd c" "event_set ev"
    "map_of (ep_channels p) (ch_fd c) = Some a \<or> a \<notin> used \<and> map_of (ep_channels p) (ch_fd c) = None \<and> ev \<noteq> 0"
  then show "\<exists>p' h'. set_events epoll_updateChannel a ev p h = Some (p', h') \<and> epoll_ok (insert a used) p' h' \<and> same_fds h h'
    \<and> ep_channels p' = amap_put (ch_fd c) a (ep_channels p) \<and> epoll_watched p' = (epoll_watched p)(ch_fd c := watch_of ev)"
    using epoll_set_law [of used p h a c ev] unfolding epoll_ok_def by fastforce
next
  fix used p h a c
  assume "epoll_ok used p h" "h a = Some c" "map_of (ep_channels p) (ch_fd c) = Some a" "epoll_watched p (ch_fd c) = None"
  then show "\<exists>p' h'. epoll_removeChannel a p h = Some (p', h') \<and> epoll_ok used p' h' \<and> same_fds h h'
    \<and> ep_channels p' = amap_erase (ch_fd c) (ep_channels p) \<and> epoll_watched p' = epoll_watched p"
    using epoll_rem_law [of used p h a c] unfolding epoll_ok_def by fastforce
qed

subsection \<open>poll(2) keeps it\<close>

definition slot_fd :: "pollfd \<Rightarrow> int" where
  "slot_fd pfd = (if pfd_fd pfd < 0 then - pfd_fd pfd - 1 else pfd_fd pfd)"

definition slot_ok :: "pollfd \<Rightarrow> channel \<Rightarrow> bool" where
  "slot_ok pfd c \<longleftrightarrow> event_set (events c) \<and> pfd_events pfd = ucast (events c)
     \<and> pfd_fd pfd = (if events c = 0 then - ch_fd c - 1 else ch_fd c)"

text \<open>What poll(2) looks at: entries with a negative descriptor are ignored.\<close>

definition poll_watched :: "poll_poller \<Rightarrow> int \<Rightarrow> u32 option" where
  "poll_watched p fd =
     (if fd < 0 then None else map_option (\<lambda>pfd. ucast (pfd_events pfd)) (find (\<lambda>pfd. pfd_fd pfd = fd) (pollfds p)))"

definition poll_inv :: "addr set \<Rightarrow> poll_poller \<Rightarrow> chan_heap \<Rightarrow> bool" where
  "poll_inv used p h \<longleftrightarrow>
     (\<forall>fd a. map_of (pp_channels p) fd = Some a \<longrightarrow> a \<in> used \<and> (\<exists>c. h a = Some c \<and> ch_fd c = fd \<and> 0 \<le> fd
        \<and> (\<exists>i < length (pollfds p). index c = int i \<and> slot_ok (pollfds p ! i) c)))
     \<and> (\<forall>i < length (pollfds p). \<exists>a c. map_of (pp_channels p) (slot_fd (pollfds p ! i)) = Some a \<and> h a = Some c \<and> index c = int i)
     \<and> (\<forall>a c. a \<notin> used \<longrightarrow> h a = Some c \<longrightarrow> index c = - 1)"

lemma slot_fd_ok: "slot_ok pfd c \<Longrightarrow> 0 \<le> ch_fd c \<Longrightarrow> slot_fd pfd = ch_fd c"
  by (auto simp: slot_ok_def slot_fd_def)

lemma poll_inv_registered:
  assumes "poll_inv used p h" "map_of (pp_channels p) fd = Some a"
  obtains c i where "h a = Some c" "ch_fd c = fd" "0 \<le> fd" "a \<in> used"
    "i < length (pollfds p)" "index c = int i" "slot_ok (pollfds p ! i) c" "slot_fd (pollfds p ! i) = fd"
  using assms slot_fd_ok unfolding poll_inv_def by metis

lemma poll_inv_slot:
  assumes "poll_inv used p h" "i < length (pollfds p)"
  obtains a c where "map_of (pp_channels p) (slot_fd (pollfds p ! i)) = Some a" "h a = Some c" "index c = int i"
    "ch_fd c = slot_fd (pollfds p ! i)" "0 \<le> ch_fd c" "slot_ok (pollfds p ! i) c" "a \<in> used"
proof -
  from assms obtain a c where a: "map_of (pp_channels p) (slot_fd (pollfds p ! i)) = Some a" "h a = Some c" "index c = int i"
    unfolding poll_inv_def by blast
  from assms(1) a(1) show thesis
  proof (rule poll_inv_registered)
    fix d j
    assume "h a = Some d" "ch_fd d = slot_fd (pollfds p ! i)" "0 \<le> slot_fd (pollfds p ! i)" "a \<in> used"
      "index d = int j" "slot_ok (pollfds p ! j) d"
    with a show thesis by (intro that [OF a]) simp_all
  qed
qed

lemma poll_inv_unused: "poll_inv used p h \<Longrightarrow> a \<notin> used \<Longrightarrow> h a = Some c \<Longrightarrow> index c = - 1"
  unfolding poll_inv_def by blast

lemma event_set_ucast: "event_set ev \<Longrightarrow> ucast (ucast ev :: u16) = ev"
  by (auto simp: event_set_def event_masks poll_masks)

lemma poll_watched_chan:
  assumes "poll_inv used p h"
  shows "poll_watched p fd = (case map_of (pp_channels p) fd of None \<Rightarrow> None | Some a \<Rightarrow> (case h a of None \<Rightarrow> None | Some c \<Rightarrow> watch_of (events c)))"
proof (cases "map_of (pp_channels p) fd")
  case None
  have "find (\<lambda>pfd. pfd_fd pfd = fd) (pollfds p) = None" if "0 \<le> fd"
    unfolding find_None_iff
  proof
    assume "\<exists>x. x \<in> set (pollfds p) \<and> pfd_fd x = fd"
    then obtain i where i: "i < length (pollfds p)" "pfd_fd (pollfds p ! i) = fd" by (auto simp: in_set_conv_nth)
    from assms i(1) show False by (rule poll_inv_slot) (use i(2) None that in \<open>simp add: slot_fd_def\<close>)
  qed
  with None show ?thesis by (auto simp: poll_watched_def)
next
  case (Some a)
  obtain c i where c: "h a = Some c" "ch_fd c = fd" "0 \<le> fd" "i < length (pollfds p)" "index c = int i" "slot_ok (pollfds p ! i) c"
    using assms Some by (rule poll_inv_registered)
  have uniq: "j = i" if j: "j < length (pollfds p)" "pfd_fd (pollfds p ! j) = fd" for j
  proof -
    obtain b d where "map_of (pp_channels p) (slot_fd (pollfds p ! j)) = Some b" "h b = Some d" "index d = int j"
      using assms j(1) by (rule poll_inv_slot)
    with j(2) c Some show ?thesis by (simp add: slot_fd_def)
  qed
  show ?thesis
  proof (cases "events c = 0")
    case True
    have "pfd_fd x \<noteq> fd" if "x \<in> set (pollfds p)" for x
    proof
      assume x: "pfd_fd x = fd"
      from that obtain j where j: "j < length (pollfds p)" "x = pollfds p ! j" by (auto simp: in_set_conv_nth)
      with x uniq have "j = i" by simp
      with x j c True show False by (simp add: slot_ok_def)
    qed
    then have "find (\<lambda>pfd. pfd_fd pfd = fd) (pollfds p) = None" unfolding find_None_iff by blast
    with Some c True show ?thesis by (simp add: poll_watched_def watch_of_def)
  next
    case False
    have "pfd_fd (pollfds p ! j) \<noteq> fd" if "j < i" for j
      using uniq [of j] that c(4) by auto
    moreover have "pfd_fd (pollfds p ! i) = fd" using c False by (simp add: slot_ok_def)
    ultimately have "find (\<lambda>pfd. pfd_fd pfd = fd) (pollfds p) = Some (pollfds p ! i)"
      unfolding find_Some_iff using c(4) by blast
    with Some c False show ?thesis by (simp add: poll_watched_def watch_of_def slot_ok_def event_set_ucast)
  qed
qed

lemma poll_inv_keep:
  \<comment> \<open>A registered channel other than the changed one keeps its slot.\<close>
  assumes "poll_inv used p h" "map_of (pp_channels p) fd = Some b" "h a = Some c" "fd \<noteq> ch_fd c"
  obtains e i where "b \<noteq> a" "h b = Some e" "ch_fd e = fd" "0 \<le> fd" "b \<in> used"
    "i < length (pollfds p)" "index e = int i" "slot_ok (pollfds p ! i) e" "slot_fd (pollfds p ! i) = fd"
  using assms(1,2)
proof (rule poll_inv_registered)
  fix e i
  assume e: "h b = Some e" "ch_fd e = fd" "0 \<le> fd" "b \<in> used"
    "i < length (pollfds p)" "index e = int i" "slot_ok (pollfds p ! i) e" "slot_fd (pollfds p ! i) = fd"
  with assms(3,4) have "b \<noteq> a" by auto
  from that [OF this e] show thesis .
qed

lemma poll_inv_new:
  assumes inv: "poll_inv used p h" and a: "h a = Some c" "a \<notin> used" "map_of (pp_channels p) (ch_fd c) = None" "0 \<le> ch_fd c"
    and d: "ch_fd d = ch_fd c" "index d = int (length (pollfds p))" "slot_ok pfd d"
    and p': "pp_channels p' = amap_put (ch_fd c) a (pp_channels p)" "pollfds p' = pollfds p @ [pfd]"
  shows "poll_inv (insert a used) p' (h(a \<mapsto> d))"
  unfolding poll_inv_def
proof (intro conjI allI impI)
  fix fd b
  assume b: "map_of (pp_channels p') fd = Some b"
  have "b \<in> insert a used \<and> (\<exists>e. (h(a \<mapsto> d)) b = Some e \<and> ch_fd e = fd \<and> 0 \<le> fd
      \<and> (\<exists>i<length (pollfds p'). index e = int i \<and> slot_ok (pollfds p' ! i) e))"
  proof (cases "fd = ch_fd c")
    case True
    with b have "b = a" by (simp add: p')
    with True show ?thesis using a d by (auto simp: p' intro!: exI [of _ "length (pollfds p)"])
  next
    case False
    with b have m: "map_of (pp_channels p) fd = Some b" by (simp add: p')
    obtain e i where "b \<noteq> a" "h b = Some e" "ch_fd e = fd" "0 \<le> fd" "b \<in> used"
        "i < length (pollfds p)" "index e = int i" "slot_ok (pollfds p ! i) e"
      using inv m a(1) False by (rule poll_inv_keep)
    then show ?thesis by (auto simp: p' nth_append intro!: exI [of _ i])
  qed
  then show "b \<in> insert a used" "\<exists>e. (h(a \<mapsto> d)) b = Some e \<and> ch_fd e = fd \<and> 0 \<le> fd
      \<and> (\<exists>i<length (pollfds p'). index e = int i \<and> slot_ok (pollfds p' ! i) e)" by blast+
next
  fix i
  assume "i < length (pollfds p')"
  then consider (old) "i < length (pollfds p)" | (new) "i = length (pollfds p)" by (fastforce simp: p')
  then show "\<exists>b e. map_of (pp_channels p') (slot_fd (pollfds p' ! i)) = Some b \<and> (h(a \<mapsto> d)) b = Some e \<and> index e = int i"
  proof cases
    case old
    obtain b e where b: "map_of (pp_channels p) (slot_fd (pollfds p ! i)) = Some b" "h b = Some e" "index e = int i" "b \<in> used"
      using inv old by (rule poll_inv_slot)
    moreover have "b \<noteq> a" "slot_fd (pollfds p ! i) \<noteq> ch_fd c" using b a by auto
    ultimately show ?thesis using old by (simp add: p' nth_append)
  next
    case new
    with d a show ?thesis by (simp add: p' slot_fd_ok)
  qed
next
  fix b e
  assume "b \<notin> insert a used" "(h(a \<mapsto> d)) b = Some e"
  then show "index e = - 1" using poll_inv_unused [OF inv] by auto
qed

lemma poll_inv_change:
  assumes inv: "poll_inv used p h" and a: "h a = Some c" "map_of (pp_channels p) (ch_fd c) = Some a"
    and d: "ch_fd d = ch_fd c" "index d = index c" "slot_ok pfd d"
    and p': "pp_channels p' = pp_channels p" "pollfds p' = (pollfds p)[nat (index c) := pfd]"
  shows "poll_inv used p' (h(a \<mapsto> d))"
proof -
  obtain k where k: "k < length (pollfds p)" "index c = int k" "a \<in> used" "0 \<le> ch_fd c" "slot_fd (pollfds p ! k) = ch_fd c"
  proof (rule poll_inv_registered [OF inv a(2)])
    fix c' k
    assume "h a = Some c'" "0 \<le> ch_fd c" "a \<in> used" "k < length (pollfds p)" "index c' = int k" "slot_fd (pollfds p ! k) = ch_fd c"
    with a(1) show thesis by (intro that) auto
  qed
  note p2 = p'(2) [unfolded k(2) nat_int]
  show ?thesis
    unfolding poll_inv_def
  proof (intro conjI allI impI)
    fix fd b
    assume b: "map_of (pp_channels p') fd = Some b"
    then have m: "map_of (pp_channels p) fd = Some b" by (simp add: p')
    have "b \<in> used \<and> (\<exists>e. (h(a \<mapsto> d)) b = Some e \<and> ch_fd e = fd \<and> 0 \<le> fd
        \<and> (\<exists>i<length (pollfds p'). index e = int i \<and> slot_ok (pollfds p' ! i) e))"
    proof (cases "fd = ch_fd c")
      case True
      with m a have "b = a" by simp
      with True show ?thesis using a d k by (auto simp: p2 intro!: exI [of _ k])
    next
      case False
      obtain e i where e: "b \<noteq> a" "h b = Some e" "ch_fd e = fd" "0 \<le> fd" "b \<in> used"
          "i < length (pollfds p)" "index e = int i" "slot_ok (pollfds p ! i) e" "slot_fd (pollfds p ! i) = fd"
        using inv m a(1) False by (rule poll_inv_keep)
      with False k have "i \<noteq> k" by auto
      with e show ?thesis by (auto simp: p2 intro!: exI [of _ i])
    qed
    then show "b \<in> used" "\<exists>e. (h(a \<mapsto> d)) b = Some e \<and> ch_fd e = fd \<and> 0 \<le> fd
        \<and> (\<exists>i<length (pollfds p'). index e = int i \<and> slot_ok (pollfds p' ! i) e)" by blast+
  next
    fix i
    assume i': "i < length (pollfds p')"
    then have i: "i < length (pollfds p)" by (simp add: p2)
    obtain b e where b: "map_of (pp_channels p) (slot_fd (pollfds p ! i)) = Some b" "h b = Some e" "index e = int i"
      using inv i by (rule poll_inv_slot)
    show "\<exists>b e. map_of (pp_channels p') (slot_fd (pollfds p' ! i)) = Some b \<and> (h(a \<mapsto> d)) b = Some e \<and> index e = int i"
    proof (cases "i = k")
      case True
      with d a k show ?thesis by (simp add: p2 p'(1) slot_fd_ok)
    next
      case False
      then have "b \<noteq> a" using b a(1) k(2) by auto
      with b False show ?thesis by (simp add: p2 p'(1))
    qed
  next
    fix b e
    assume "b \<notin> used" "(h(a \<mapsto> d)) b = Some e"
    then show "index e = - 1" using poll_inv_unused [OF inv] k(3) by (auto split: if_splits)
  qed
qed

lemma poll_watched_step:
  \<comment> \<open>Only the registered channel whose events changed is watched differently.\<close>
  assumes "poll_inv used p h" "poll_inv used' p' h'"
    and "map_of (pp_channels p') = (map_of (pp_channels p))(fd \<mapsto> a)" "map_option events (h' a) = Some ev"
    and "\<And>b. b \<noteq> a \<Longrightarrow> h' b = h b" "\<And>fd'. fd' \<noteq> fd \<Longrightarrow> map_of (pp_channels p) fd' \<noteq> Some a"
  shows "poll_watched p' = (poll_watched p)(fd := watch_of ev)"
proof
  fix fd'
  have new: "poll_watched p' fd' = (case ((map_of (pp_channels p))(fd \<mapsto> a)) fd' of None \<Rightarrow> None
      | Some a \<Rightarrow> (case h' a of None \<Rightarrow> None | Some c \<Rightarrow> watch_of (events c)))"
    unfolding poll_watched_chan [OF assms(2)] assms(3) ..
  show "poll_watched p' fd' = ((poll_watched p)(fd := watch_of ev)) fd'"
  proof (cases "fd' = fd")
    case True
    with new assms(4) show ?thesis by auto
  next
    case False
    then have "h' b = h b" if "map_of (pp_channels p) fd' = Some b" for b
      using assms(5) [of b] assms(6) [of fd'] that by auto
    with False new show ?thesis
      by (auto simp: poll_watched_chan [OF assms(1)] split: option.split)
  qed
qed

lemma poll_set_law:
  assumes "poll_inv used p h" "amap_ok (pp_channels p)" "h a = Some c" "0 \<le> ch_fd c" "event_set ev"
    and "map_of (pp_channels p) (ch_fd c) = Some a \<or> a \<notin> used \<and> map_of (pp_channels p) (ch_fd c) = None \<and> ev \<noteq> 0"
  shows "\<exists>p' h'. set_events poll_updateChannel a ev p h = Some (p', h') \<and> poll_inv (insert a used) p' h' \<and> same_fds h h'
    \<and> pp_channels p' = amap_put (ch_fd c) a (pp_channels p) \<and> poll_watched p' = (poll_watched p)(ch_fd c := watch_of ev)"
proof -
  let ?fd = "ch_fd c" and ?c = "channel_update (c\<lparr>events := ev\<rparr>)"
  have c': "ch_fd ?c = ?fd" "events ?c = ev" "index ?c = index c"
    by (simp_all add: channel_update_def)
  have other: "map_of (pp_channels p) fd' \<noteq> Some a" if "fd' \<noteq> ?fd" for fd'
    using poll_inv_keep [OF assms(1) _ assms(3) that] by blast
  obtain p' d where r: "poll_updateChannel a p (h(a \<mapsto> ?c)) = Some (p', h(a \<mapsto> d))" "events d = ev" "ch_fd d = ?fd"
      "pp_channels p' = amap_put ?fd a (pp_channels p)" "poll_inv (insert a used) p' (h(a \<mapsto> d))"
  proof (cases "map_of (pp_channels p) ?fd")
    case None
    then have "a \<notin> used" "ev \<noteq> 0" using assms(6) by auto
    then have idx: "index c = - 1" using poll_inv_unused [OF assms(1)] assms(3) by auto
    define pfd where "pfd = \<lparr>pfd_fd = ?fd, pfd_events = ucast ev, pfd_revents = 0\<rparr>"
    define p' where "p' = p\<lparr>pollfds := pollfds p @ [pfd], pp_channels := amap_put ?fd a (pp_channels p)\<rparr>"
    define d where "d = set_index (int (length (pollfds p))) ?c"
    have d: "ch_fd d = ?fd" "index d = int (length (pollfds p))" "events d = ev"
      by (simp_all add: d_def set_index_def c')
    have "poll_updateChannel a p (h(a \<mapsto> ?c)) = Some (p', h(a \<mapsto> d))"
      using None idx c' by (simp add: poll_updateChannel_def p'_def d_def pfd_def)
    moreover have "poll_inv (insert a used) p' (h(a \<mapsto> d))"
      by (rule poll_inv_new [OF assms(1,3) \<open>a \<notin> used\<close> None assms(4) d(1,2)])
        (use d \<open>ev \<noteq> 0\<close> assms(5) in \<open>simp_all add: slot_ok_def pfd_def p'_def\<close>)
    ultimately show thesis using d by (intro that [of p' d]) (simp_all add: p'_def)
  next
    case (Some b)
    then have m: "map_of (pp_channels p) ?fd = Some a" using assms(6) by auto
    obtain k where k: "k < length (pollfds p)" "index c = int k" "a \<in> used" "slot_ok (pollfds p ! k) c"
    proof (rule poll_inv_registered [OF assms(1) m])
      fix c' k
      assume "h a = Some c'" "a \<in> used" "k < length (pollfds p)" "index c' = int k" "slot_ok (pollfds p ! k) c'"
      with assms(3) show thesis by (intro that) auto
    qed
    define pfd where "pfd = \<lparr>pfd_fd = (if ev = 0 then - ?fd - 1 else ?fd), pfd_events = ucast ev, pfd_revents = 0\<rparr>"
    define p' where "p' = p\<lparr>pollfds := (pollfds p)[k := pfd]\<rparr>"
    have "pfd_fd (pollfds p ! k) = ?fd \<or> pfd_fd (pollfds p ! k) = - ?fd - 1"
      using k(4) by (auto simp: slot_ok_def)
    then have "poll_updateChannel a p (h(a \<mapsto> ?c)) = Some (p', h(a \<mapsto> ?c))"
      using m k by (simp add: poll_updateChannel_def p'_def pfd_def isNoneEvent_def kNoneEvent_def channel_update_def)
    moreover have "poll_inv used p' (h(a \<mapsto> ?c))"
      by (rule poll_inv_change [OF assms(1,3) m c'(1,3)])
        (use k assms(5) in \<open>simp_all add: slot_ok_def pfd_def p'_def channel_update_def\<close>)
    moreover have "insert a used = used" using k(3) by blast
    moreover have "pp_channels p' = amap_put ?fd a (pp_channels p)"
      using amap_put_same [OF assms(2) m] by (simp add: p'_def)
    ultimately show thesis using c' by (intro that [of p' ?c]) simp_all
  qed
  moreover have "poll_watched p' = (poll_watched p)(?fd := watch_of ev)"
    by (rule poll_watched_step [OF assms(1) r(5), where a = a]) (use r other in simp_all)
  moreover have "same_fds h (h(a \<mapsto> d))"
    using assms(3) r(3) by (simp add: same_fds_def)
  ultimately show ?thesis
    using assms(3) by (simp add: set_events_def)
qed

text \<open>
  Removing slot \<open>k\<close>: what was last moves there, and the channel \<open>b\<close> it belongs to is told.
\<close>

lemma poll_inv_remove:
  assumes inv: "poll_inv used p h" and a: "h a = Some c" "map_of (pp_channels p) (ch_fd c) = Some a"
    and k: "k < length (pollfds p)" "index c = int k"
    and b: "map_of (pp_channels p) (slot_fd (pollfds p ! (length (pollfds p) - 1))) = Some b" "h b = Some d"
      "index d = int (length (pollfds p) - 1)"
    and p': "pp_channels p' = amap_erase (ch_fd c) (pp_channels p)" "pollfds p' = butlast ((pollfds p)[k := last (pollfds p)])"
    and h': "h' = (if k = length (pollfds p) - 1 then h else h(b \<mapsto> set_index (int k) d))"
  shows "poll_inv used p' h'"
proof -
  let ?n = "length (pollfds p) - 1"
  have len: "length (pollfds p') = ?n" by (simp add: p')
  have last: "last (pollfds p) = pollfds p ! ?n" using k(1) by (intro last_conv_nth) auto
  have slot: "pollfds p' ! i = (if i = k then pollfds p ! ?n else pollfds p ! i)" if "i < ?n" for i
    using that k(1) by (simp add: p' nth_butlast last nth_list_update)
  obtain c' k' where "h a = Some c'" "index c' = int k'" "slot_fd (pollfds p ! k') = ch_fd c" "a \<in> used"
    using inv a(2) by (rule poll_inv_registered)
  with a k have fdk: "slot_fd (pollfds p ! k) = ch_fd c" by simp
  show ?thesis
    unfolding poll_inv_def
  proof (intro conjI allI impI)
    fix fd x
    assume x: "map_of (pp_channels p') fd = Some x"
    then have m: "map_of (pp_channels p) fd = Some x" "fd \<noteq> ch_fd c" by (auto simp: p' split: if_splits)
    obtain e i where e: "x \<noteq> a" "h x = Some e" "ch_fd e = fd" "0 \<le> fd" "x \<in> used"
        "i < length (pollfds p)" "index e = int i" "slot_ok (pollfds p ! i) e" "slot_fd (pollfds p ! i) = fd"
      using inv m(1) a(1) m(2) by (rule poll_inv_keep)
    have "i \<noteq> k" using fdk e(9) m(2) by auto
    have "x \<in> used \<and> (\<exists>e. h' x = Some e \<and> ch_fd e = fd \<and> 0 \<le> fd
        \<and> (\<exists>i<length (pollfds p'). index e = int i \<and> slot_ok (pollfds p' ! i) e))"
    proof (cases "i = ?n")
      case True
      with \<open>i \<noteq> k\<close> k(1) have "k < ?n" by simp
      moreover from this have "pollfds p' ! k = pollfds p ! ?n" by (simp add: slot)
      moreover have "x = b" "e = d" using e True m b by auto
      then have "h' x = Some (set_index (int k) e)" using \<open>k < ?n\<close> by (simp add: h')
      ultimately show ?thesis using e True
        by (auto simp: len set_index_def slot_ok_def intro!: exI [of _ k])
    next
      case False
      then have "i < ?n" using e(6) by simp
      moreover have "x \<noteq> b" using e(2,7) b(2,3) False by auto
      then have "h' x = Some e" using e by (simp add: h')
      ultimately show ?thesis using e \<open>i \<noteq> k\<close> by (auto simp: len slot intro!: exI [of _ i])
    qed
    then show "x \<in> used" "\<exists>e. h' x = Some e \<and> ch_fd e = fd \<and> 0 \<le> fd
        \<and> (\<exists>i<length (pollfds p'). index e = int i \<and> slot_ok (pollfds p' ! i) e)" by blast+
  next
    fix i
    assume "i < length (pollfds p')"
    then have i: "i < ?n" by (simp add: len)
    define j where "j = (if i = k then ?n else i)"
    have j: "j < length (pollfds p)" "j \<noteq> k" "pollfds p' ! i = pollfds p ! j" using i k(1) by (auto simp: j_def slot)
    obtain x e where x: "map_of (pp_channels p) (slot_fd (pollfds p ! j)) = Some x" "h x = Some e" "index e = int j"
        "ch_fd e = slot_fd (pollfds p ! j)" "x \<in> used"
      using inv j(1) by (rule poll_inv_slot)
    then have "x \<noteq> a" using a(1) k(2) j(2) by auto
    then have "ch_fd c \<noteq> slot_fd (pollfds p ! j)" using a(2) x(1) by auto
    then have m: "map_of (pp_channels p') (slot_fd (pollfds p' ! i)) = Some x" using x(1) by (simp add: p'(1) j(3))
    have "\<exists>e. h' x = Some e \<and> index e = int i"
    proof (cases "i = k")
      case True
      with x b i show ?thesis by (simp add: h' j_def set_index_def)
    next
      case False
      then have "x \<noteq> b" using x b i by (auto simp: j_def)
      with False x show ?thesis by (simp add: h' j_def)
    qed
    with m show "\<exists>b e. map_of (pp_channels p') (slot_fd (pollfds p' ! i)) = Some b \<and> h' b = Some e \<and> index e = int i"
      by blast
  next
    fix x e
    assume x: "x \<notin> used" "h' x = Some e"
    have "b \<in> used" using inv b(1) by (rule poll_inv_registered)
    with x have "h x = Some e" by (auto simp: h' split: if_splits)
    with x(1) show "index e = - 1" using poll_inv_unused [OF inv] by blast
  qed
qed

lemma poll_rem_law:
  assumes inv: "poll_inv used p h" and a: "h a = Some c" "map_of (pp_channels p) (ch_fd c) = Some a"
    and w: "poll_watched p (ch_fd c) = None"
  shows "\<exists>p' h'. poll_removeChannel a p h = Some (p', h') \<and> poll_inv used p' h' \<and> same_fds h h'
    \<and> pp_channels p' = amap_erase (ch_fd c) (pp_channels p) \<and> poll_watched p' = poll_watched p"
proof -
  let ?n = "length (pollfds p) - 1"
  obtain k where k: "k < length (pollfds p)" "index c = int k" "slot_ok (pollfds p ! k) c" "slot_fd (pollfds p ! k) = ch_fd c"
  proof (rule poll_inv_registered [OF inv a(2)])
    fix c' k
    assume "h a = Some c'" "k < length (pollfds p)" "index c' = int k" "slot_ok (pollfds p ! k) c'" "slot_fd (pollfds p ! k) = ch_fd c"
    with a(1) show thesis by (intro that) auto
  qed
  have none: "events c = 0"
    using w a by (simp add: poll_watched_chan [OF inv] watch_of_def split: if_splits)
  have slot: "pfd_fd (pollfds p ! k) = - ch_fd c - 1" "pfd_events (pollfds p ! k) = 0"
    using k(3) none by (auto simp: slot_ok_def)
  have last: "last (pollfds p) = pollfds p ! ?n" using k(1) by (intro last_conv_nth) auto
  have n: "?n < length (pollfds p)" using k(1) by simp
  obtain b d where b: "map_of (pp_channels p) (slot_fd (pollfds p ! ?n)) = Some b" "h b = Some d" "index d = int ?n"
      "ch_fd d = slot_fd (pollfds p ! ?n)"
    using inv n by (rule poll_inv_slot)
  define p' where "p' = p\<lparr>pp_channels := amap_erase (ch_fd c) (pp_channels p), pollfds := butlast ((pollfds p)[k := last (pollfds p)])\<rparr>"
  define h' where "h' = (if k = ?n then h else h(b \<mapsto> set_index (int k) d))"
  have run: "poll_removeChannel a p h = Some (p', h')"
  proof (cases "k = ?n")
    case True
    have "(pollfds p)[k := last (pollfds p)] = pollfds p" unfolding last True by simp
    with True have *: "p' = p\<lparr>pp_channels := amap_erase (ch_fd c) (pp_channels p), pollfds := butlast (pollfds p)\<rparr>" "h' = h"
      by (simp_all add: p'_def h'_def)
    show ?thesis
      using a k(1,2) True [symmetric] slot none unfolding *
      by (simp add: poll_removeChannel_def isNoneEvent_def kNoneEvent_def Let_def)
  next
    case False
    then have "b \<noteq> a" using b a k by auto
    then have "slot_fd (pollfds p ! ?n) \<noteq> ch_fd c" using b(1) a(2) by auto
    then show ?thesis
      using a k(1,2) False slot none b(1,2) unfolding p'_def h'_def
      by (simp add: poll_removeChannel_def isNoneEvent_def kNoneEvent_def Let_def last slot_fd_def [symmetric])
  qed
  have inv': "poll_inv used p' h'"
    by (rule poll_inv_remove [OF inv a k(1,2) b(1-3)]) (simp_all add: p'_def h'_def)
  have ev: "map_option events (h' x) = map_option events (h x)" "map_option ch_fd (h' x) = map_option ch_fd (h x)" for x
    using b(2) by (auto simp: h'_def set_index_def)
  have "poll_watched p' = poll_watched p"
  proof
    fix fd
    have alt: "(case h' x of None \<Rightarrow> None | Some c \<Rightarrow> watch_of (events c)) =
        (case h x of None \<Rightarrow> None | Some c \<Rightarrow> watch_of (events c))" for x
      using ev(1) [of x] by (cases "h x"; cases "h' x") simp_all
    have ch: "map_of (pp_channels p') fd = (if fd = ch_fd c then None else map_of (pp_channels p) fd)" for fd
      by (simp add: p'_def)
    show "poll_watched p' fd = poll_watched p fd"
    proof (cases "fd = ch_fd c")
      case True
      have "poll_watched p' fd = None" unfolding poll_watched_chan [OF inv'] ch True by simp
      with w True show ?thesis by simp
    next
      case False
      then show ?thesis unfolding poll_watched_chan [OF inv] poll_watched_chan [OF inv'] ch alt by simp
    qed
  qed
  moreover have "same_fds h h'" by (simp add: same_fds_def ev)
  ultimately show ?thesis using run inv' by (simp add: p'_def)
qed

definition poll_ok :: "addr set \<Rightarrow> poll_poller \<Rightarrow> chan_heap \<Rightarrow> bool" where
  "poll_ok used p h \<longleftrightarrow> poll_inv used p h \<and> amap_ok (pp_channels p)"

interpretation poll: poller poll_updateChannel poll_removeChannel pp_channels poll_watched poll_ok
proof
  fix used p h a c ev
  assume *: "poll_ok used p h" "h a = Some c" "0 \<le> ch_fd c" "event_set ev"
    "map_of (pp_channels p) (ch_fd c) = Some a \<or> a \<notin> used \<and> map_of (pp_channels p) (ch_fd c) = None \<and> ev \<noteq> 0"
  then show "\<exists>p' h'. set_events poll_updateChannel a ev p h = Some (p', h') \<and> poll_ok (insert a used) p' h' \<and> same_fds h h'
    \<and> pp_channels p' = amap_put (ch_fd c) a (pp_channels p) \<and> poll_watched p' = (poll_watched p)(ch_fd c := watch_of ev)"
    using poll_set_law [of used p h a c ev] unfolding poll_ok_def by fastforce
next
  fix used p h a c
  assume "poll_ok used p h" "h a = Some c" "map_of (pp_channels p) (ch_fd c) = Some a" "poll_watched p (ch_fd c) = None"
  then show "\<exists>p' h'. poll_removeChannel a p h = Some (p', h') \<and> poll_ok used p' h' \<and> same_fds h h'
    \<and> pp_channels p' = amap_erase (ch_fd c) (pp_channels p) \<and> poll_watched p' = poll_watched p"
    using poll_rem_law [of used p h a c] unfolding poll_ok_def by fastforce
qed

subsection \<open>The properties\<close>

text \<open>A loop whose channels have all just been constructed; \<open>fd\<close> gives their descriptors.\<close>

definition fresh_channels :: "(addr \<Rightarrow> int) \<Rightarrow> chan_heap" where
  "fresh_channels fd a = Some (new_Channel (fd a))"

abbreviation run_poll where "run_poll \<equiv> poller_run poll_updateChannel poll_removeChannel"
abbreviation run_epoll where "run_epoll \<equiv> poller_run epoll_updateChannel epoll_removeChannel"

lemma poll_ok_new: "poll_ok {} new_PollPoller (fresh_channels fd)"
  by (simp add: poll_ok_def poll_inv_def new_PollPoller_def fresh_channels_def new_Channel_def)

lemma epoll_ok_new: "epoll_ok {} new_EPollPoller (fresh_channels fd)"
  by (simp add: epoll_ok_def epoll_inv_def new_EPollPoller_def fresh_channels_def new_Channel_def kNew_def)

lemma watched_new: "poll_watched new_PollPoller = (\<lambda>_. None)" "epoll_watched new_EPollPoller = (\<lambda>_. None)"
  by (auto simp: poll_watched_def new_PollPoller_def epoll_watched_def new_EPollPoller_def)

text \<open>
  C3: PollPoller and EPollPoller are interchangeable. Take any sequence of registrations, changes and
  removals that a loop may make (a channel is first registered with an event, its descriptor is not
  shared, it is removed once it watches nothing, and a removed channel is not registered again). From
  fresh channels both pollers carry the whole sequence out without an abort (so the index bookkeeping,
  the swap-and-pop of poll's array and the ADD, MOD and DEL of epoll never go wrong), and at the end
  both have the same channels registered and the kernel watches the same descriptors for the same
  events, those of the specification.
\<close>

theorem pollers_agree:
  assumes "\<forall>a. 0 \<le> fd a" "watch_run fd ops ([], \<lambda>_. None, {}) = Some (r, w, used)"
  shows "\<exists>pp h ep k. run_poll ops new_PollPoller (fresh_channels fd) = Some (pp, h)
      \<and> run_epoll ops new_EPollPoller (fresh_channels fd) = Some (ep, k)
      \<and> pp_channels pp = r \<and> ep_channels ep = r \<and> poll_watched pp = w \<and> epoll_watched ep = w"
proof -
  have fresh: "\<forall>a. \<exists>c. fresh_channels fd a = Some c \<and> ch_fd c = fd a \<and> 0 \<le> fd a"
    using assms(1) by (simp add: fresh_channels_def new_Channel_def)
  have "watch_run fd ops (pp_channels new_PollPoller, poll_watched new_PollPoller, {}) = Some (r, w, used)"
    "watch_run fd ops (ep_channels new_EPollPoller, epoll_watched new_EPollPoller, {}) = Some (r, w, used)"
    using assms(2) by (simp_all add: watched_new) (simp_all add: new_PollPoller_def new_EPollPoller_def)
  from poll.implements_watch [OF poll_ok_new fresh this(1)] epoll.implements_watch [OF epoll_ok_new fresh this(2)]
  show ?thesis by blast
qed

lemma pollers_agree_witness:
  "\<exists>pp h ep k. run_poll [Set_Events 0 kReadEvent, Set_Events 3 kReadEvent, Set_Events 0 0, Remove 0] new_PollPoller (fresh_channels int) = Some (pp, h)
      \<and> run_epoll [Set_Events 0 kReadEvent, Set_Events 3 kReadEvent, Set_Events 0 0, Remove 0] new_EPollPoller (fresh_channels int) = Some (ep, k)
      \<and> pp_channels pp = [(3, 3)] \<and> ep_channels ep = [(3, 3)] \<and> poll_watched pp = (\<lambda>_. None)(3 := Some kReadEvent) \<and> epoll_watched ep = (\<lambda>_. None)(3 := Some kReadEvent)"
proof (rule pollers_agree)
  show "\<forall>a. 0 \<le> int a" by simp
  show "watch_run int [Set_Events 0 kReadEvent, Set_Events 3 kReadEvent, Set_Events 0 0, Remove 0] ([], \<lambda>_. None, {})
      = Some ([(3, 3)], (\<lambda>_. None)(3 := Some kReadEvent), {0, 3})"
    by (auto simp: event_set_def event_masks poll_masks watch_of_def amap_erase_def fun_eq_iff)
qed

lemma length_tmpbuffer_text: "12 * length m \<le> length (tmpbuffer_text m)"
proof (induction m)
  case (Cons x m)
  obtain fd a where x: "x = (fd, a)" by fastforce
  have "dec_int fd \<noteq> []" by (simp add: dec_int_def)
  then obtain y ys where "dec_int fd = y # ys" by (cases "dec_int fd") auto
  with Cons show ?case by (simp add: tmpbuffer_text_def x)
qed (simp add: tmpbuffer_text_def)

text \<open>
  EPollPoller::poll prints every registered descriptor into a buffer of 4098 bytes on its stack,
  each as at least 12 characters, before it waits. With 342 or more registered channels (a server with
  that many connections, in one loop) every call runs past the end of the buffer.
\<close>

theorem epoll_poll_overflows_its_buffer:
  assumes "342 \<le> length (ep_channels p)"
  shows "epoll_poll reported p h = None"
proof -
  have "\<not> length (tmpbuffer_text (ep_channels p)) < tmpbuffer_size"
    using length_tmpbuffer_text [of "ep_channels p"] assms by (simp add: tmpbuffer_size_def)
  then show ?thesis by (simp add: epoll_poll_def)
qed

lemma epoll_poll_overflows_its_buffer_witness:
  "epoll_poll [] (new_EPollPoller\<lparr>ep_channels := map (\<lambda>i. (int i, i)) [0..<342]\<rparr>) (fresh_channels int) = None"
  by (rule epoll_poll_overflows_its_buffer) simp

text \<open>
  Outside that contract the two pollers differ. A channel that is first registered with no events and
  then removed (what the Acceptor of a server that was never started does in its destructor), and a
  channel that is registered again after its removal, make PollPoller abort in an assertion, while
  EPollPoller carries both sequences out.
\<close>

theorem pollers_differ_outside_contract:
  assumes "0 \<le> fd a" "e \<noteq> kNoneEvent"
  shows "run_poll [Set_Events a kNoneEvent, Remove a] new_PollPoller (fresh_channels fd) = None
    \<and> run_poll [Set_Events a e, Set_Events a kNoneEvent, Remove a, Set_Events a e] new_PollPoller (fresh_channels fd) = None
    \<and> run_epoll [Set_Events a kNoneEvent, Remove a] new_EPollPoller (fresh_channels fd) \<noteq> None
    \<and> run_epoll [Set_Events a e, Set_Events a kNoneEvent, Remove a, Set_Events a e] new_EPollPoller (fresh_channels fd) \<noteq> None"
proof -
  let ?c = "new_Channel (fd a)"
  note D = set_events_def fresh_channels_def new_PollPoller_def new_EPollPoller_def new_Channel_def poll_updateChannel_def
      poll_removeChannel_def epoll_updateChannel_def epoll_removeChannel_def epoll_update_def isNoneEvent_def kNoneEvent_def
      set_index_def epoll_index amap_erase_def channel_update_def Let_def
  have odd: "2 * fd a \<noteq> - 1" by presburger
  have e: "e \<noteq> 0" using assms(2) by (simp add: kNoneEvent_def)
  have "run_poll [Set_Events a kNoneEvent, Remove a] new_PollPoller (fresh_channels fd) = None"
    using assms(1) odd by (simp add: D)
  moreover have "run_poll [Set_Events a e, Set_Events a kNoneEvent, Remove a, Set_Events a e] new_PollPoller (fresh_channels fd) = None"
    using assms(1) odd e by (simp add: D)
  moreover have "run_epoll [Set_Events a kNoneEvent, Remove a] new_EPollPoller (fresh_channels fd) \<noteq> None"
    by (simp add: D)
  moreover have "run_epoll [Set_Events a e, Set_Events a kNoneEvent, Remove a, Set_Events a e] new_EPollPoller (fresh_channels fd) \<noteq> None"
    using e by (simp add: D)
  ultimately show ?thesis by simp
qed

lemma pollers_differ_outside_contract_witness:
  "run_poll [Set_Events 7 kNoneEvent, Remove 7] new_PollPoller (fresh_channels int) = None"
  using pollers_differ_outside_contract [of int 7 kReadEvent] by (simp add: event_masks poll_masks)

end
