(* ===== verification/Event_Loop.thy ===== *)
theory Event_Loop
  imports Prelude
begin

text \<open>
  muduo/net/EventLoop.h and EventLoop.cpp: the loop of one thread, with the calls other threads make
  into it. The loop's own thread is a state machine whose position \<open>pos\<close> is the place in \<open>loop\<close> and
  \<open>doPendingFunctors\<close> it has reached; other threads interleave between any two of its steps. A callback
  (of a channel or a functor) is the list of calls it makes on the loop, given by the parameters
  \<open>handler\<close> and \<open>body\<close>; what a callback runs through \<open>runInLoop\<close> in the loop's thread is part of its own
  list. \<open>queueInLoop\<close> and \<open>quit\<close> of another thread are two steps, the change of the shared variable and
  the write to the eventfd; \<open>waking\<close> counts the threads between the two. \<open>queued\<close> and \<open>executed\<close> are logs.

  The poller is in theory Pollers; here it is its contract: poll returns with some active channels, the
  wakeup channel only when the eventfd is readable.
\<close>

definition kPollTimeMs :: int where "kPollTimeMs = - 1"

datatype 'f loop_call = C_queue 'f | C_quit

datatype active_channel = Wakeup_Channel | Other_Channel nat

datatype loop_pos = Outside | At_Test | In_Poll | Handling | Swapping | Calling | Returned

record 'f event_loop =
  looping :: bool
  quit_flag :: bool
  evHandling :: bool
  callingPendingFunctors :: bool
  iteration :: int
  pendingFunctors :: "'f list"
  eventfd :: nat
  activeChannels :: "active_channel list"
  currentActiveChannel :: "active_channel option"
  pos :: loop_pos
  to_handle :: "active_channel list"
  functors :: "'f list"
  todo :: "'f loop_call list"
  waking :: nat
  queued :: "'f list"
  executed :: "'f list"

definition new_EventLoop :: "'f event_loop" where
  "new_EventLoop = \<lparr>looping = False, quit_flag = False, evHandling = False, callingPendingFunctors = False,
     iteration = 0, pendingFunctors = [], eventfd = 0, activeChannels = [], currentActiveChannel = None,
     pos = Outside, to_handle = [], functors = [], todo = [], waking = 0, queued = [], executed = []\<rparr>"

text \<open>A second loop in a thread is fatal; \<open>t_loopInThisThread\<close> maps a thread to its loop.\<close>

definition construct_EventLoop :: "nat \<Rightarrow> nat \<Rightarrow> (nat \<Rightarrow> nat option) \<Rightarrow> ('f event_loop \<times> (nat \<Rightarrow> nat option)) option" where
  "construct_EventLoop tid this loopOf = do {
     require (loopOf tid = None);
     Some (new_EventLoop, loopOf(tid \<mapsto> this)) }"

definition eventfd_max :: nat where "eventfd_max = 2 ^ 64 - 2"

text \<open>A write that would pass the largest count fails with EAGAIN and is only logged.\<close>

definition wakeup :: "'f event_loop \<Rightarrow> 'f event_loop" where
  "wakeup s = (if eventfd s < eventfd_max then s\<lparr>eventfd := eventfd s + 1\<rparr> else s)"

definition loop_handleRead :: "'f event_loop \<Rightarrow> 'f event_loop" where
  "loop_handleRead s = s\<lparr>eventfd := 0\<rparr>"

definition push_functor :: "'f \<Rightarrow> 'f event_loop \<Rightarrow> 'f event_loop" where
  "push_functor cb s = s\<lparr>pendingFunctors := pendingFunctors s @ [cb], queued := queued s @ [cb]\<rparr>"

definition queueSize :: "'f event_loop \<Rightarrow> nat" where
  "queueSize s = length (pendingFunctors s)"

text \<open>
  In the loop's own thread the push and the wakeup are one step: nobody else takes the functors. In
  another thread the wakeup is due after the push.
\<close>

definition queueInLoop :: "bool \<Rightarrow> 'f \<Rightarrow> 'f event_loop \<Rightarrow> 'f event_loop" where
  "queueInLoop isInLoopThread cb s =
     (let s = push_functor cb s
      in if \<not> isInLoopThread then s\<lparr>waking := waking s + 1\<rparr>
         else if callingPendingFunctors s then wakeup s else s)"

definition loop_quit :: "bool \<Rightarrow> 'f event_loop \<Rightarrow> 'f event_loop" where
  "loop_quit isInLoopThread s =
     (let s = s\<lparr>quit_flag := True\<rparr>
      in if \<not> isInLoopThread then s\<lparr>waking := waking s + 1\<rparr> else s)"

fun do_call :: "'f loop_call \<Rightarrow> 'f event_loop \<Rightarrow> 'f event_loop" where
  "do_call (C_queue cb) s = queueInLoop True cb s"
| "do_call C_quit s = loop_quit True s"

definition runInLoop :: "('f \<Rightarrow> 'f loop_call list) \<Rightarrow> bool \<Rightarrow> 'f \<Rightarrow> 'f event_loop \<Rightarrow> 'f event_loop" where
  "runInLoop body isInLoopThread cb s =
     (if isInLoopThread then fold do_call (body cb) s else queueInLoop False cb s)"

subsection \<open>The loop\<close>

definition loop_enter :: "'f event_loop \<Rightarrow> 'f event_loop option" where
  "loop_enter s = do {
     require (\<not> looping s);
     Some (s\<lparr>looping := True, quit_flag := False, pos := At_Test\<rparr>) }"

definition test_quit :: "'f event_loop \<Rightarrow> 'f event_loop" where
  "test_quit s = (if quit_flag s then s\<lparr>looping := False, pos := Returned\<rparr>
     else s\<lparr>activeChannels := [], pos := In_Poll\<rparr>)"

definition poll_return :: "active_channel list \<Rightarrow> 'f event_loop \<Rightarrow> 'f event_loop option" where
  "poll_return active s = do {
     require (Wakeup_Channel \<in> set active \<longrightarrow> 0 < eventfd s);
     let s = s\<lparr>activeChannels := active, to_handle := active, iteration := iteration s + 1, pos := Handling\<rparr>;
     Some (if active \<noteq> [] then s\<lparr>evHandling := True\<rparr> else s) }"

definition handle_next :: "(nat \<Rightarrow> 'f loop_call list) \<Rightarrow> 'f event_loop \<Rightarrow> 'f event_loop" where
  "handle_next handler s =
     (case to_handle s of
        ch # chs \<Rightarrow>
          (let s = s\<lparr>currentActiveChannel := Some ch, to_handle := chs\<rparr>
           in case ch of Wakeup_Channel \<Rightarrow> loop_handleRead s | Other_Channel c \<Rightarrow> s\<lparr>todo := handler c\<rparr>)
      | [] \<Rightarrow> s\<lparr>currentActiveChannel := None, evHandling := False, callingPendingFunctors := True, pos := Swapping\<rparr>)"

definition swap_functors :: "'f event_loop \<Rightarrow> 'f event_loop" where
  "swap_functors s = s\<lparr>functors := pendingFunctors s, pendingFunctors := [], pos := Calling\<rparr>"

definition call_next :: "('f \<Rightarrow> 'f loop_call list) \<Rightarrow> 'f event_loop \<Rightarrow> 'f event_loop" where
  "call_next body s =
     (case functors s of
        f # fs \<Rightarrow> s\<lparr>functors := fs, executed := executed s @ [f], todo := body f\<rparr>
      | [] \<Rightarrow> s\<lparr>callingPendingFunctors := False, pos := At_Test\<rparr>)"

text \<open>One step of the loop's thread; \<open>active\<close> is what poll returns with, if this step is its return.\<close>

definition thread_step ::
    "(nat \<Rightarrow> 'f loop_call list) \<Rightarrow> ('f \<Rightarrow> 'f loop_call list) \<Rightarrow> active_channel list \<Rightarrow> 'f event_loop \<Rightarrow> 'f event_loop option" where
  "thread_step handler body active s =
     (case todo s of
        c # cs \<Rightarrow> Some (do_call c (s\<lparr>todo := cs\<rparr>))
      | [] \<Rightarrow>
         (case pos s of
            Outside \<Rightarrow> loop_enter s
          | At_Test \<Rightarrow> Some (test_quit s)
          | In_Poll \<Rightarrow> poll_return active s
          | Handling \<Rightarrow> Some (handle_next handler s)
          | Swapping \<Rightarrow> Some (swap_functors s)
          | Calling \<Rightarrow> Some (call_next body s)
          | Returned \<Rightarrow> None))"

text \<open>
  What can happen: a step of the loop's thread, a call its own thread makes before \<open>loop\<close>, and the calls
  of other threads and the write that ends them.
\<close>

datatype 'f loop_event = E_thread "active_channel list" | E_before "'f loop_call" | E_queue 'f | E_quit | E_wakeup

fun loop_do ::
    "(nat \<Rightarrow> 'f loop_call list) \<Rightarrow> ('f \<Rightarrow> 'f loop_call list) \<Rightarrow> 'f loop_event \<Rightarrow> 'f event_loop \<Rightarrow> 'f event_loop option" where
  "loop_do handler body (E_thread active) s = thread_step handler body active s"
| "loop_do handler body (E_before c) s = (if pos s = Outside then Some (do_call c s) else None)"
| "loop_do handler body (E_queue f) s = Some (runInLoop body False f s)"
| "loop_do handler body E_quit s = Some (loop_quit False s)"
| "loop_do handler body E_wakeup s = (if 0 < waking s then Some (wakeup (s\<lparr>waking := waking s - 1\<rparr>)) else None)"

fun loop_run ::
    "(nat \<Rightarrow> 'f loop_call list) \<Rightarrow> ('f \<Rightarrow> 'f loop_call list) \<Rightarrow> 'f loop_event list \<Rightarrow> 'f event_loop \<Rightarrow> 'f event_loop option" where
  "loop_run handler body [] s = Some s"
| "loop_run handler body (e # es) s = do { s \<leftarrow> loop_do handler body e s; loop_run handler body es s }"

text \<open>The guard of \<open>removeChannel\<close>; what the poller does is the parameter \<open>rem\<close>.\<close>

definition loop_removeChannel :: "bool \<Rightarrow> active_channel \<Rightarrow> ('p \<Rightarrow> 'p option) \<Rightarrow> 'f event_loop \<Rightarrow> 'p \<Rightarrow> 'p option" where
  "loop_removeChannel isInLoopThread ch rem s p = do {
     require isInLoopThread;
     require (evHandling s \<longrightarrow> currentActiveChannel s = Some ch \<or> ch \<notin> set (activeChannels s));
     rem p }"

definition loop_updateChannel :: "bool \<Rightarrow> ('p \<Rightarrow> 'p option) \<Rightarrow> 'p \<Rightarrow> 'p option" where
  "loop_updateChannel isInLoopThread upd p = do { require isInLoopThread; upd p }"

lemmas loop_ops = wakeup_def loop_handleRead_def push_functor_def queueInLoop_def loop_quit_def runInLoop_def
  loop_enter_def test_quit_def poll_return_def handle_next_def swap_functors_def call_next_def thread_step_def

subsection \<open>What holds in every state\<close>

text \<open>
  A functor waits only where the loop will still take it in this round, or somebody has made or is about
  to make the eventfd readable.
\<close>

definition woken :: "'f event_loop \<Rightarrow> bool" where
  "woken s \<longleftrightarrow> 0 < eventfd s \<or> 0 < waking s"

definition loop_inv :: "'f event_loop \<Rightarrow> bool" where
  "loop_inv s \<longleftrightarrow>
     (pendingFunctors s \<noteq> [] \<longrightarrow> pos s \<in> {Outside, At_Test, In_Poll, Calling} \<longrightarrow> woken s)
     \<and> (quit_flag s \<longrightarrow> pos s = In_Poll \<longrightarrow> woken s)
     \<and> queued s = executed s @ functors s @ pendingFunctors s
     \<and> (functors s \<noteq> [] \<longrightarrow> pos s = Calling)
     \<and> (todo s \<noteq> [] \<longrightarrow> pos s \<in> {Handling, Calling})
     \<and> (callingPendingFunctors s \<longleftrightarrow> pos s \<in> {Swapping, Calling})
     \<and> (evHandling s \<longrightarrow> pos s = Handling)
     \<and> (looping s \<longleftrightarrow> pos s \<notin> {Outside, Returned})"

lemma loop_inv_new: "loop_inv new_EventLoop"
  by (simp add: loop_inv_def new_EventLoop_def)

lemma eventfd_max_pos: "0 < eventfd_max"
  by (simp add: eventfd_max_def)

lemma woken_wakeup: "woken (wakeup s)"
  using eventfd_max_pos by (auto simp: woken_def wakeup_def)

lemma wakeup_frame [simp]:
  "pendingFunctors (wakeup s) = pendingFunctors s" "quit_flag (wakeup s) = quit_flag s" "pos (wakeup s) = pos s"
  "queued (wakeup s) = queued s" "executed (wakeup s) = executed s" "functors (wakeup s) = functors s" "todo (wakeup s) = todo s"
  "callingPendingFunctors (wakeup s) = callingPendingFunctors s" "evHandling (wakeup s) = evHandling s"
  "looping (wakeup s) = looping s" "to_handle (wakeup s) = to_handle s" "waking (wakeup s) = waking s"
  by (simp_all add: wakeup_def)

lemma do_call_inv:
  assumes "loop_inv s" "pos s \<in> {Handling, Calling} \<or> pos s = Outside \<and> c = C_quit"
  shows "loop_inv (do_call c s)"
proof (cases c)
  case (C_queue f)
  with assms have "woken (do_call c s)" if "callingPendingFunctors s"
    using that by (simp add: queueInLoop_def Let_def woken_wakeup push_functor_def)
  moreover have "pos s = Handling \<or> pos s = Calling" using assms(2) C_queue by auto
  ultimately show ?thesis using assms(1) C_queue
    by (elim disjE; simp add: loop_inv_def queueInLoop_def push_functor_def Let_def)
next
  case C_quit
  with assms show ?thesis
    by (elim disjE conjE insertE emptyE; simp add: loop_inv_def loop_quit_def woken_def)
qed

lemma thread_step_inv:
  assumes "loop_inv s" "thread_step handler body active s = Some s'"
  shows "loop_inv s'"
proof (cases "todo s")
  case (Cons c cs)
  have "loop_inv (s\<lparr>todo := cs\<rparr>)" "pos s \<in> {Handling, Calling}"
    using assms(1) Cons by (simp_all add: loop_inv_def woken_def)
  then have "loop_inv (do_call c (s\<lparr>todo := cs\<rparr>))" by (intro do_call_inv) auto
  with assms(2) Cons show ?thesis by (simp add: thread_step_def)
next
  case Nil
  note step = assms(2) [unfolded thread_step_def Nil list.case]
  show ?thesis
  proof (cases "pos s")
    case Handling
    then have *: "s' = handle_next handler s" using step by simp
    show ?thesis
    proof (cases "to_handle s")
      case (Cons ch chs)
      then show ?thesis using Handling assms(1) Nil
        by (cases ch) (simp_all add: * handle_next_def loop_inv_def loop_handleRead_def)
    qed (use Handling assms(1) Nil in \<open>simp add: * handle_next_def loop_inv_def\<close>)
  next
    case Calling
    then have *: "s' = call_next body s" using step by simp
    show ?thesis using Calling assms(1) Nil
      by (cases "functors s") (simp_all add: * call_next_def loop_inv_def woken_def)
  next
    case Outside
    then have "\<not> looping s" "s' = s\<lparr>looping := True, quit_flag := False, pos := At_Test\<rparr>"
      using step by (simp_all add: loop_enter_def require_def split: if_splits)
    then show ?thesis using Outside assms(1) Nil by (simp add: loop_inv_def woken_def)
  next
    case At_Test
    then have *: "s' = test_quit s" using step by simp
    show ?thesis using At_Test assms(1) Nil
      by (cases "quit_flag s") (simp_all add: * test_quit_def loop_inv_def woken_def)
  next
    case In_Poll
    then have "poll_return active s = Some s'" using step by simp
    then show ?thesis using In_Poll assms(1) Nil
      by (cases "Wakeup_Channel \<in> set active \<longrightarrow> 0 < eventfd s"; cases "active = []")
        (auto simp: poll_return_def loop_inv_def)
  next
    case Swapping
    then have *: "s' = swap_functors s" using step by simp
    show ?thesis using Swapping assms(1) Nil by (simp add: * swap_functors_def loop_inv_def)
  qed (use step in simp)
qed

lemma loop_do_inv:
  assumes "loop_inv s" "loop_do handler body e s = Some s'" "\<forall>f. e \<noteq> E_before (C_queue f)"
  shows "loop_inv s'"
proof (cases e)
  case (E_thread active)
  with assms show ?thesis by (auto intro: thread_step_inv)
next
  case (E_before c)
  then have "c = C_quit" using assms(3) by (cases c) auto
  then have "pos s = Outside" "s' = loop_quit True s"
    using assms(2) E_before by (simp_all split: if_splits)
  then show ?thesis using assms(1) by (simp add: loop_inv_def loop_quit_def woken_def)
next
  case E_wakeup
  have "woken (wakeup t)" for t :: "'a event_loop" by (rule woken_wakeup)
  moreover have "s' = wakeup (s\<lparr>waking := waking s - 1\<rparr>)" using assms(2) E_wakeup by (simp split: if_splits)
  ultimately show ?thesis using assms(1) by (simp add: loop_inv_def)
next
  case (E_queue f)
  then have "s' = push_functor f s\<lparr>waking := waking s + 1\<rparr>"
    using assms(2) by (simp add: runInLoop_def queueInLoop_def push_functor_def Let_def)
  with assms(1) show ?thesis by (simp add: loop_inv_def push_functor_def woken_def)
next
  case E_quit
  then have "s' = s\<lparr>quit_flag := True, waking := waking s + 1\<rparr>"
    using assms(2) by (simp add: loop_quit_def)
  with assms(1) show ?thesis by (simp add: loop_inv_def woken_def)
qed

lemma loop_run_inv:
  assumes "loop_run handler body es s = Some s'" "\<forall>f. E_before (C_queue f) \<notin> set es" "loop_inv s"
  shows "loop_inv s'"
  using assms
proof (induction es arbitrary: s)
  case (Cons e es)
  then obtain t where t: "loop_do handler body e s = Some t" "loop_run handler body es t = Some s'"
    by (cases "loop_do handler body e s") simp_all
  have e: "\<forall>f. e \<noteq> E_before (C_queue f)" and es: "\<forall>f. E_before (C_queue f) \<notin> set es"
    using Cons.prems(2) by auto
  show ?case by (rule Cons.IH [OF t(2) es loop_do_inv [OF Cons.prems(3) t(1) e]])
qed simp

text \<open>The order of the functors does not depend on when they are queued.\<close>

definition in_order :: "'f event_loop \<Rightarrow> bool" where
  "in_order s \<longleftrightarrow> queued s = executed s @ functors s @ pendingFunctors s \<and> (functors s \<noteq> [] \<longrightarrow> pos s = Calling)
     \<and> (todo s \<noteq> [] \<longrightarrow> pos s \<in> {Handling, Calling})"

lemma in_order_frame [simp]:
  "in_order (s\<lparr>waking := n\<rparr>) = in_order s" "in_order (s\<lparr>quit_flag := b\<rparr>) = in_order s"
  "in_order (wakeup s) = in_order s" "in_order s \<Longrightarrow> in_order (push_functor f s)"
  by (auto simp: in_order_def push_functor_def)

lemma do_call_order: "in_order s \<Longrightarrow> in_order (do_call c s)"
  by (cases c) (simp_all add: queueInLoop_def loop_quit_def Let_def)

lemma thread_step_order:
  assumes "in_order s" "thread_step handler body active s = Some s'"
  shows "in_order s'"
proof (cases "todo s")
  case (Cons c cs)
  have "in_order (s\<lparr>todo := cs\<rparr>)" using assms(1) Cons by (simp add: in_order_def)
  from do_call_order [OF this, of c] assms(2) Cons show ?thesis by (simp add: thread_step_def)
next
  case Nil
  with assms show ?thesis
    by (cases "pos s"; cases "to_handle s"; cases "functors s")
      (auto simp: thread_step_def in_order_def loop_enter_def test_quit_def poll_return_def handle_next_def swap_functors_def
        call_next_def loop_handleRead_def run_simps Let_def split: active_channel.splits if_splits)
qed

lemma loop_do_order: "in_order s \<Longrightarrow> loop_do handler body e s = Some s' \<Longrightarrow> in_order s'"
  by (cases e) (auto simp: runInLoop_def queueInLoop_def loop_quit_def Let_def
      intro: thread_step_order do_call_order split: if_splits)

lemma loop_run_order: "loop_run handler body es s = Some s' \<Longrightarrow> in_order s \<Longrightarrow> in_order s'"
  by (induction es arbitrary: s) (auto simp: run_simps dest: loop_do_order)

subsection \<open>Rounds of the loop\<close>

text \<open>Steps of the loop's thread that do not return from poll.\<close>

definition thread_runs ::
    "(nat \<Rightarrow> 'f loop_call list) \<Rightarrow> ('f \<Rightarrow> 'f loop_call list) \<Rightarrow> 'f event_loop \<Rightarrow> 'f event_loop \<Rightarrow> bool" where
  "thread_runs handler body s s' \<longleftrightarrow> (\<exists>n. loop_run handler body (replicate n (E_thread [])) s = Some s')"

lemma loop_run_append:
  "loop_run handler body (es @ es') s = do { s \<leftarrow> loop_run handler body es s; loop_run handler body es' s }"
  by (induction es arbitrary: s) (auto split: Option.bind_splits)

lemma thread_runs_refl: "thread_runs handler body s s"
  unfolding thread_runs_def by (rule exI [of _ 0]) simp

lemma thread_runs_trans:
  "thread_runs handler body s t \<Longrightarrow> thread_runs handler body t u \<Longrightarrow> thread_runs handler body s u"
  unfolding thread_runs_def
proof (elim exE)
  fix n k
  assume "loop_run handler body (replicate n (E_thread [])) s = Some t" "loop_run handler body (replicate k (E_thread [])) t = Some u"
  then show "\<exists>n. loop_run handler body (replicate n (E_thread [])) s = Some u"
    by (intro exI [of _ "n + k"]) (simp add: replicate_add loop_run_append)
qed

lemma thread_runs_step: "thread_step handler body [] s = Some t \<Longrightarrow> thread_runs handler body s t"
  unfolding thread_runs_def by (rule exI [of _ 1]) simp

lemma do_call_frame [simp]:
  "pos (do_call c s) = pos s" "todo (do_call c s) = todo s" "functors (do_call c s) = functors s"
  "executed (do_call c s) = executed s" "to_handle (do_call c s) = to_handle s"
  "todo_update f (do_call c s) = do_call c (todo_update f s)"
  by (cases c; simp add: queueInLoop_def push_functor_def loop_quit_def Let_def wakeup_def)+

lemma do_call_pending: "\<exists>ys. pendingFunctors (do_call c s) = pendingFunctors s @ ys"
  by (cases c) (simp_all add: queueInLoop_def push_functor_def loop_quit_def Let_def)

lemma runs_calls:
  "\<exists>t ys. thread_runs handler body s t \<and> todo t = [] \<and> pos t = pos s \<and> functors t = functors s
    \<and> executed t = executed s \<and> to_handle t = to_handle s \<and> pendingFunctors t = pendingFunctors s @ ys"
proof (induction "todo s" arbitrary: s)
  case Nil
  then show ?case using thread_runs_refl by fastforce
next
  case (Cons c cs)
  define u where "u = do_call c (s\<lparr>todo := cs\<rparr>)"
  have "thread_step handler body [] s = Some u"
    by (simp add: thread_step_def Cons.hyps(2) [symmetric] u_def)
  moreover obtain ys where "pendingFunctors u = pendingFunctors s @ ys"
    using do_call_pending [of c "s\<lparr>todo := cs\<rparr>"] by (auto simp: u_def)
  moreover have "cs = todo u" by (simp add: u_def)
  from Cons.hyps(1) [OF this] obtain t zs where "thread_runs handler body u t" "todo t = []" "pos t = pos u" "functors t = functors u"
    "executed t = executed u" "to_handle t = to_handle u" "pendingFunctors t = pendingFunctors u @ zs" by blast
  ultimately show ?case
    by (intro exI [of _ t] exI [of _ "ys @ zs"]) (auto simp: u_def intro: thread_runs_trans thread_runs_step)
qed

lemma runs_handlers:
  "pos s = Handling \<Longrightarrow> \<exists>t ys. thread_runs handler body s t \<and> pos t = Swapping \<and> todo t = [] \<and> functors t = functors s
    \<and> executed t = executed s \<and> pendingFunctors t = pendingFunctors s @ ys"
proof (induction "to_handle s" arbitrary: s)
  case Nil
  obtain t ys where t: "thread_runs handler body s t" "todo t = []" "pos t = Handling" "functors t = functors s"
      "executed t = executed s" "to_handle t = []" "pendingFunctors t = pendingFunctors s @ ys"
    using runs_calls [of handler body s] Nil by auto
  then have "thread_step handler body [] t = Some (handle_next handler t)" by (simp add: thread_step_def)
  with t show ?case
    by (intro exI [of _ "handle_next handler t"] exI [of _ ys])
      (auto simp: handle_next_def intro: thread_runs_trans thread_runs_step)
next
  case (Cons ch chs)
  obtain t ys where t: "thread_runs handler body s t" "todo t = []" "pos t = Handling" "functors t = functors s"
      "executed t = executed s" "to_handle t = ch # chs" "pendingFunctors t = pendingFunctors s @ ys"
    using runs_calls [of handler body s] Cons by auto
  define u where "u = handle_next handler t"
  have "thread_step handler body [] t = Some u" using t by (simp add: thread_step_def u_def)
  moreover have u: "chs = to_handle u" "pos u = Handling" "functors u = functors s" "executed u = executed s"
      "pendingFunctors u = pendingFunctors s @ ys"
    using t by (simp_all add: u_def handle_next_def Let_def loop_handleRead_def split: active_channel.split)
  moreover obtain v zs where "thread_runs handler body u v" "pos v = Swapping" "todo v = []" "functors v = functors u"
      "executed v = executed u" "pendingFunctors v = pendingFunctors u @ zs"
    using Cons.hyps(1) [OF u(1,2)] by blast
  moreover from this calculation(1) t(1) have "thread_runs handler body s v"
    by (blast intro: thread_runs_trans thread_runs_step)
  ultimately show ?case
    by (intro exI [of _ v] exI [of _ "ys @ zs"]) simp
qed

lemma runs_functors:
  "pos s = Calling \<Longrightarrow> \<exists>t. thread_runs handler body s t \<and> pos t = At_Test \<and> executed t = executed s @ functors s"
proof (induction "functors s" arbitrary: s)
  case Nil
  obtain t ys where t: "thread_runs handler body s t" "todo t = []" "pos t = Calling" "functors t = []"
      "executed t = executed s"
    using runs_calls [of handler body s] Nil by auto
  then have "thread_step handler body [] t = Some (call_next body t)" by (simp add: thread_step_def)
  with t Nil show ?case
    by (intro exI [of _ "call_next body t"]) (auto simp: call_next_def intro: thread_runs_trans thread_runs_step)
next
  case (Cons f fs)
  obtain t where t: "thread_runs handler body s t" "todo t = []" "pos t = Calling" "functors t = f # fs"
      "executed t = executed s"
    using runs_calls [of handler body s] Cons by auto
  define u where "u = call_next body t"
  have "thread_step handler body [] t = Some u" using t by (simp add: thread_step_def u_def)
  moreover have u: "fs = functors u" "pos u = Calling" "executed u = executed s @ [f]"
    using t by (simp_all add: u_def call_next_def)
  moreover obtain v where "thread_runs handler body u v" "pos v = At_Test" "executed v = executed u @ functors u"
    using Cons.hyps(1) [OF u(1,2)] by blast
  moreover from this calculation(1) t(1) have "thread_runs handler body s v"
    by (blast intro: thread_runs_trans thread_runs_step)
  ultimately show ?case using Cons.hyps(2) [symmetric]
    by (intro exI [of _ v]) simp
qed

lemma runs_round:
  assumes "pos s = Handling"
  shows "\<exists>t ys. thread_runs handler body s t \<and> pos t = At_Test \<and> executed t = executed s @ pendingFunctors s @ ys"
proof -
  obtain t ys where t: "thread_runs handler body s t" "pos t = Swapping" "todo t = []" "executed t = executed s"
      "pendingFunctors t = pendingFunctors s @ ys"
    using runs_handlers [OF assms] by blast
  define u where "u = swap_functors t"
  have u: "thread_step handler body [] t = Some u" using t by (simp add: thread_step_def u_def)
  obtain v where "thread_runs handler body u v" "pos v = At_Test" "executed v = executed u @ functors u"
    using runs_functors [of u handler body] by (auto simp: u_def swap_functors_def)
  moreover from this(1) t(1) u have "thread_runs handler body s v"
    by (blast intro: thread_runs_trans thread_runs_step)
  ultimately show ?thesis using t
    by (intro exI [of _ v] exI [of _ ys]) (simp add: u_def swap_functors_def)
qed

text \<open>
  C17: No wakeup is lost. While the loop's thread waits in poll (without a time limit), a functor queued
  by any thread at any moment, or a quit of another thread, has made the eventfd readable or its thread
  is about to write to it: under every interleaving of the loop with the calls of other threads, the
  loop never sleeps on work. (Its own thread queues nothing before it enters the loop.)
\<close>

theorem no_lost_wakeup:
  assumes "loop_run handler body es new_EventLoop = Some s" "\<forall>f. E_before (C_queue f) \<notin> set es"
    and "pos s = In_Poll" "pendingFunctors s \<noteq> [] \<or> quit_flag s"
  shows "0 < eventfd s \<or> 0 < waking s"
  using loop_run_inv [OF assms(1,2) loop_inv_new] assms(3,4) by (auto simp: loop_inv_def woken_def)

lemma no_lost_wakeup_witness:
  "\<exists>s. loop_run (\<lambda>_. []) (\<lambda>_. []) [E_thread [], E_queue (7 :: nat), E_thread [], E_wakeup] new_EventLoop = Some s
    \<and> pos s = In_Poll \<and> (0 < eventfd s \<or> 0 < waking s)"
proof -
  obtain s where s: "loop_run (\<lambda>_. []) (\<lambda>_. []) [E_thread [], E_queue (7 :: nat), E_thread [], E_wakeup] new_EventLoop = Some s"
    "pos s = In_Poll" "pendingFunctors s = [7]"
    using eventfd_max_pos by (simp add: loop_ops new_EventLoop_def)
  with no_lost_wakeup [OF s(1)] show ?thesis by auto
qed

text \<open>
  C18: Functors run exactly once, in the order they were queued: at every moment what has run, what the
  loop has taken out and what still waits are together the sequence of all queued functors, by whichever
  thread and whenever they were queued, before loop is entered too.
\<close>

theorem functors_run_once_in_order:
  assumes "loop_run handler body es new_EventLoop = Some s"
  shows "executed s @ functors s @ pendingFunctors s = queued s"
proof -
  have "in_order (new_EventLoop :: 'a event_loop)" by (simp add: in_order_def new_EventLoop_def)
  from loop_run_order [OF assms this] show ?thesis by (simp add: in_order_def)
qed

lemma functors_run_once_in_order_witness:
  "\<exists>s. loop_run (\<lambda>_. []) (\<lambda>f. [C_queue (f + 1)]) ([E_queue (7 :: nat), E_wakeup, E_thread [], E_thread [], E_thread [Wakeup_Channel]]
        @ replicate 5 (E_thread [])) new_EventLoop = Some s
    \<and> queued s = [7, 8] \<and> executed s @ functors s @ pendingFunctors s = queued s"
proof -
  obtain s where s: "loop_run (\<lambda>_. []) (\<lambda>f. [C_queue (f + 1)]) ([E_queue (7 :: nat), E_wakeup, E_thread [], E_thread [], E_thread [Wakeup_Channel]]
        @ replicate 5 (E_thread [])) new_EventLoop = Some s" "queued s = [7, 8]"
    using eventfd_max_pos by (simp add: loop_ops new_EventLoop_def eval_nat_numeral)
  with functors_run_once_in_order [OF s(1)] show ?thesis by auto
qed

text \<open>
  C19: Queued functors do run, provided the loop's own thread queues none before it enters the loop (such a
  functor can wait for ever, see below): once the writes to the eventfd that are due are made, poll can return, and
  the loop's thread alone then runs every functor that was waiting, in order, before anything queued
  later, and comes back to its test, whatever the functors themselves queue and in spite of functors
  that queue themselves again.
\<close>

theorem waiting_functors_run:
  assumes "loop_run handler body es new_EventLoop = Some s" "\<forall>f. E_before (C_queue f) \<notin> set es"
    and "pos s = In_Poll" "pendingFunctors s \<noteq> []"
  shows "\<exists>n t ys. loop_run handler body (replicate (waking s) E_wakeup @ E_thread [Wakeup_Channel] # replicate n (E_thread [])) s = Some t
    \<and> pos t = At_Test \<and> executed t = executed s @ pendingFunctors s @ ys"
proof -
  have inv: "loop_inv s" by (rule loop_run_inv [OF assms(1,2) loop_inv_new])
  have todo: "todo s = []" using inv assms(3) by (auto simp: loop_inv_def)
  have awake: "0 < eventfd s \<or> 0 < waking s"
    using inv assms(3,4) by (simp add: loop_inv_def woken_def)
  have wakes: "\<exists>u. loop_run handler body (replicate k E_wakeup) s = Some u \<and> 0 < eventfd u \<and> pos u = pos s
      \<and> todo u = todo s \<and> executed u = executed s \<and> pendingFunctors u = pendingFunctors s"
    if "waking s = k" "0 < eventfd s \<or> 0 < k" for k and s :: "'a event_loop"
    using that
  proof (induction k arbitrary: s)
    case (Suc k)
    define u where "u = wakeup (s\<lparr>waking := waking s - 1\<rparr>)"
    have "waking u = k" "0 < eventfd u" using Suc.prems(1) eventfd_max_pos by (simp_all add: u_def wakeup_def)
    moreover have "loop_do handler body E_wakeup s = Some u" using Suc.prems(1) by (simp add: u_def)
    ultimately show ?case using Suc.IH [of u] by (simp add: u_def)
  qed simp
  obtain u where u: "loop_run handler body (replicate (waking s) E_wakeup) s = Some u" "0 < eventfd u" "pos u = In_Poll"
      "todo u = []" "executed u = executed s" "pendingFunctors u = pendingFunctors s"
    using wakes [OF refl awake] assms(3) todo by auto
  obtain v where v: "poll_return [Wakeup_Channel] u = Some v" "pos v = Handling" "executed v = executed s"
      "pendingFunctors v = pendingFunctors s"
    using u by (auto simp: poll_return_def)
  then have "loop_do handler body (E_thread [Wakeup_Channel]) u = Some v" using u by (simp add: thread_step_def)
  moreover obtain t n ys where "loop_run handler body (replicate n (E_thread [])) v = Some t" "pos t = At_Test"
      "executed t = executed s @ pendingFunctors s @ ys"
    using runs_round [OF v(2), of handler body] unfolding v(3,4) thread_runs_def by blast
  ultimately show ?thesis using u(1) by (auto simp: loop_run_append)
qed

lemma waiting_functors_run_witness:
  "\<exists>s n t ys. loop_run (\<lambda>_. []) (\<lambda>f. [C_queue f]) [E_thread [], E_thread [], E_queue (7 :: nat)] new_EventLoop = Some s
    \<and> loop_run (\<lambda>_. []) (\<lambda>f. [C_queue f]) (replicate (waking s) E_wakeup @ E_thread [Wakeup_Channel] # replicate n (E_thread [])) s = Some t
    \<and> executed t = [7] @ ys"
proof -
  obtain s where s: "loop_run (\<lambda>_. []) (\<lambda>f. [C_queue f]) [E_thread [], E_thread [], E_queue (7 :: nat)] new_EventLoop = Some s"
    "pos s = In_Poll" "pendingFunctors s = [7]" "executed s = []"
    by (simp add: loop_ops new_EventLoop_def)
  with waiting_functors_run [OF s(1)] show ?thesis by fastforce
qed

text \<open>
  What is asked for before the loop is entered is lost. A functor that the loop's own thread queues
  before it calls loop writes nothing to the eventfd, and loop then waits in poll, which has no time
  limit, with the functor pending; and a quit before loop is forgotten.
\<close>

theorem calls_before_loop_are_lost:
  "\<exists>s. loop_run handler body [E_before (C_queue f), E_before C_quit, E_thread [], E_thread []] new_EventLoop = Some s
    \<and> pos s = In_Poll \<and> kPollTimeMs < 0 \<and> pendingFunctors s = [f] \<and> \<not> quit_flag s \<and> eventfd s = 0 \<and> waking s = 0"
  by (simp add: loop_ops new_EventLoop_def kPollTimeMs_def)

end
