(* ===== verification/Connector_Model.thy ===== *)
theory Connector_Model
  imports Event_Channel
begin

text \<open>
  muduo/net/Connector.h and Connector.cpp: making a connection, with retries. The loop appears as the
  functors the connector has queued (\<open>pending\<close>) and the retry timers it has set (\<open>retry_timers\<close>, their
  delays). What the kernel answers is an argument: the new socket and the errno of connect, SO_ERROR and
  whether the socket is connected to itself. \<open>owned\<close> holds the descriptors the connector has open,
  \<open>handed\<close> those it gave to \<open>newConnectionCallback\<close>, \<open>bad_close\<close> whether it ever closed a descriptor it
  did not own, \<open>delays\<close> the delays of the retries since it was constructed or restarted.
\<close>

definition kMaxRetryDelayMs :: int where "kMaxRetryDelayMs = 30 * 1000"
definition kInitRetryDelayMs :: int where "kInitRetryDelayMs = 500"

datatype connector_state = C_Disconnected | C_Connecting | C_Connected

datatype connector_functor = F_startInLoop | F_stopInLoop | F_resetChannel

record connector =
  connect_wanted :: bool
  cstate :: connector_state
  conn_chan :: "channel option"
  retryDelayMs :: int
  pending :: "connector_functor list"
  retry_timers :: "int list"
  owned :: "int list"
  handed :: "int list"
  bad_close :: bool
  delays :: "int list"

definition new_Connector :: connector where
  "new_Connector = \<lparr>connect_wanted = False, cstate = C_Disconnected, conn_chan = None,
     retryDelayMs = kInitRetryDelayMs, pending = [], retry_timers = [], owned = [], handed = [],
     bad_close = False, delays = []\<rparr>"

definition delete_Connector :: "connector \<Rightarrow> unit option" where
  "delete_Connector c = require (conn_chan c = None)"

text \<open>errno, with Linux's numbers.\<close>

definition EPERM :: nat where "EPERM = 1"
definition EINTR :: nat where "EINTR = 4"
definition EBADF :: nat where "EBADF = 9"
definition EAGAIN :: nat where "EAGAIN = 11"
definition EACCES :: nat where "EACCES = 13"
definition EFAULT :: nat where "EFAULT = 14"
definition ENOTSOCK :: nat where "ENOTSOCK = 88"
definition EAFNOSUPPORT :: nat where "EAFNOSUPPORT = 97"
definition EADDRINUSE :: nat where "EADDRINUSE = 98"
definition EADDRNOTAVAIL :: nat where "EADDRNOTAVAIL = 99"
definition ENETUNREACH :: nat where "ENETUNREACH = 101"
definition EISCONN :: nat where "EISCONN = 106"
definition ECONNREFUSED :: nat where "ECONNREFUSED = 111"
definition EALREADY :: nat where "EALREADY = 114"
definition EINPROGRESS :: nat where "EINPROGRESS = 115"

lemmas errnos = EPERM_def EINTR_def EBADF_def EAGAIN_def EACCES_def EFAULT_def ENOTSOCK_def EAFNOSUPPORT_def
  EADDRINUSE_def EADDRNOTAVAIL_def ENETUNREACH_def EISCONN_def ECONNREFUSED_def EALREADY_def EINPROGRESS_def

definition queue_functor :: "connector_functor \<Rightarrow> connector \<Rightarrow> connector" where
  "queue_functor f c = c\<lparr>pending := pending c @ [f]\<rparr>"

definition close_fd :: "int \<Rightarrow> connector \<Rightarrow> connector" where
  "close_fd fd c = c\<lparr>owned := remove1 fd (owned c), bad_close := bad_close c \<or> fd \<notin> set (owned c)\<rparr>"

definition connector_setState :: "connector_state \<Rightarrow> connector \<Rightarrow> connector" where
  "connector_setState st c = c\<lparr>cstate := st\<rparr>"

definition retry :: "int \<Rightarrow> connector \<Rightarrow> connector" where
  "retry sockfd c =
     (let c = close_fd sockfd c;
          c = connector_setState C_Disconnected c
      in if connect_wanted c
         then c\<lparr>retry_timers := retry_timers c @ [retryDelayMs c], delays := delays c @ [retryDelayMs c],
                retryDelayMs := min (retryDelayMs c * 2) kMaxRetryDelayMs\<rparr>
         else c)"

definition connecting :: "int \<Rightarrow> connector \<Rightarrow> connector option" where
  "connecting sockfd c = do {
     let c = connector_setState C_Connecting c;
     require (conn_chan c = None);
     Some (c\<lparr>conn_chan := Some (enableWriting (new_Channel sockfd))\<rparr>) }"

text \<open>The socket and the errno of connect (0: success).\<close>

type_synonym connect_answer = "int \<times> nat"

fun connector_connect :: "connect_answer \<Rightarrow> connector \<Rightarrow> connector option" where
  "connector_connect (sockfd, savedErrno) c = do {
     require (0 \<le> sockfd);
     let c = c\<lparr>owned := sockfd # owned c\<rparr>;
     if savedErrno \<in> {0, EINPROGRESS, EINTR, EISCONN} then connecting sockfd c
     else if savedErrno \<in> {EAGAIN, EADDRINUSE, EADDRNOTAVAIL, ECONNREFUSED, ENETUNREACH} then Some (retry sockfd c)
     else if savedErrno \<in> {EACCES, EPERM, EAFNOSUPPORT, EALREADY, EBADF, EFAULT, ENOTSOCK} then Some (close_fd sockfd c)
     else Some (close_fd sockfd c) }"

definition startInLoop :: "connect_answer \<Rightarrow> connector \<Rightarrow> connector option" where
  "startInLoop ans c = do {
     require (cstate c = C_Disconnected);
     if connect_wanted c then connector_connect ans c else Some c }"

definition connector_start :: "bool \<Rightarrow> connect_answer \<Rightarrow> connector \<Rightarrow> connector option" where
  "connector_start isInLoopThread ans c =
     (let c = c\<lparr>connect_wanted := True\<rparr>
      in if isInLoopThread then startInLoop ans c else Some (queue_functor F_startInLoop c))"

definition connector_stop :: "connector \<Rightarrow> connector" where
  "connector_stop c = queue_functor F_stopInLoop (c\<lparr>connect_wanted := False\<rparr>)"

definition removeAndResetChannel :: "connector \<Rightarrow> (int \<times> connector) option" where
  "removeAndResetChannel c = do {
     ch \<leftarrow> conn_chan c;
     let ch = disableAll ch;
     ch \<leftarrow> channel_remove ch;
     let sockfd = ch_fd ch;
     Some (sockfd, queue_functor F_resetChannel (c\<lparr>conn_chan := Some ch\<rparr>)) }"

definition resetChannel :: "connector \<Rightarrow> connector option" where
  "resetChannel c =
     (case conn_chan c of
        None \<Rightarrow> Some c
      | Some ch \<Rightarrow> do { delete_Channel True False ch; Some (c\<lparr>conn_chan := None\<rparr>) })"

definition stopInLoop :: "connector \<Rightarrow> connector option" where
  "stopInLoop c =
     (if cstate c = C_Connecting then do {
        let c = connector_setState C_Disconnected c;
        (sockfd, c) \<leftarrow> removeAndResetChannel c;
        Some (retry sockfd c) }
      else Some c)"

definition restart_connector :: "connect_answer \<Rightarrow> connector \<Rightarrow> connector option" where
  "restart_connector ans c =
     (let c = connector_setState C_Disconnected c;
          c = c\<lparr>retryDelayMs := kInitRetryDelayMs, delays := [], connect_wanted := True\<rparr>
      in startInLoop ans c)"

definition connector_handleWrite :: "nat \<Rightarrow> bool \<Rightarrow> connector \<Rightarrow> connector option" where
  "connector_handleWrite err selfConnect c =
     (if cstate c = C_Connecting then do {
        (sockfd, c) \<leftarrow> removeAndResetChannel c;
        if err \<noteq> 0 then Some (retry sockfd c)
        else if selfConnect then Some (retry sockfd c)
        else do {
          let c = connector_setState C_Connected c;
          Some (if connect_wanted c then c\<lparr>owned := remove1 sockfd (owned c), handed := handed c @ [sockfd]\<rparr>
                else close_fd sockfd c) } }
      else do {
        require (cstate c = C_Disconnected);
        Some c })"

definition connector_handleError :: "connector \<Rightarrow> connector option" where
  "connector_handleError c =
     (if cstate c = C_Connecting then do {
        (sockfd, c) \<leftarrow> removeAndResetChannel c;
        Some (retry sockfd c) }
      else Some c)"

text \<open>The channel of a connection attempt has a write and an error callback.\<close>

definition connector_callbacks :: "nat \<Rightarrow> bool \<Rightarrow> connector callbacks" where
  "connector_callbacks err selfConnect = \<lparr>readCallback = None,
     writeCallback = Some (connector_handleWrite err selfConnect), closeCallback = None,
     errorCallback = Some connector_handleError\<rparr>"

definition upd_chan :: "(channel \<Rightarrow> channel) \<Rightarrow> connector \<Rightarrow> connector" where
  "upd_chan f c = c\<lparr>conn_chan := map_option f (conn_chan c)\<rparr>"

text \<open>An event of the channel, as poll reports it.\<close>

definition connector_event :: "u32 \<Rightarrow> nat \<Rightarrow> bool \<Rightarrow> connector \<Rightarrow> connector option" where
  "connector_event evs err selfConnect c = do {
     ch \<leftarrow> conn_chan c;
     handleEvent (\<lambda>c. the (conn_chan c)) upd_chan (connector_callbacks err selfConnect) 0 True
       (upd_chan (set_revents evs) c) }"

subsection \<open>What can happen\<close>

datatype connector_step =
    K_start bool connect_answer
  | K_stop
  | K_restart connect_answer
  | K_functor connect_answer
  | K_timer nat connect_answer
  | K_event u32 nat bool

fun run_connector_functor :: "connect_answer \<Rightarrow> connector_functor \<Rightarrow> connector \<Rightarrow> connector option" where
  "run_connector_functor ans F_startInLoop c = startInLoop ans c"
| "run_connector_functor ans F_stopInLoop c = stopInLoop c"
| "run_connector_functor ans F_resetChannel c = resetChannel c"

fun connector_do :: "connector_step \<Rightarrow> connector \<Rightarrow> connector option" where
  "connector_do (K_start isInLoopThread ans) c = connector_start isInLoopThread ans c"
| "connector_do K_stop c = Some (connector_stop c)"
| "connector_do (K_restart ans) c = restart_connector ans c"
| "connector_do (K_functor ans) c =
     (case pending c of [] \<Rightarrow> None | f # fs \<Rightarrow> run_connector_functor ans f (c\<lparr>pending := fs\<rparr>))"
| "connector_do (K_timer i ans) c =
     (if i < length (retry_timers c)
      then startInLoop ans (c\<lparr>retry_timers := take i (retry_timers c) @ drop (Suc i) (retry_timers c)\<rparr>) else None)"
| "connector_do (K_event evs err selfConnect) c = connector_event evs err selfConnect c"

fun connector_run :: "connector_step list \<Rightarrow> connector \<Rightarrow> connector option" where
  "connector_run [] c = Some c"
| "connector_run (k # ks) c = do { c \<leftarrow> connector_do k c; connector_run ks c }"

text \<open>
  A disciplined client: start only a connector that is at rest, restart one whose connection has been
  handed over (as TcpClient does). The loop's part: a functor runs when one is queued; functors queued
  while events are handled run before a timer of at least half a second fires; a channel without events
  is not polled.
\<close>

definition at_rest :: "connector \<Rightarrow> bool" where
  "at_rest c \<longleftrightarrow> cstate c = C_Disconnected \<and> conn_chan c = None \<and> retry_timers c = [] \<and> F_startInLoop \<notin> set (pending c)"

fun connector_may :: "connector_step \<Rightarrow> connector \<Rightarrow> bool" where
  "connector_may (K_start isInLoopThread ans) c \<longleftrightarrow> 0 \<le> fst ans \<and> at_rest c"
| "connector_may K_stop c \<longleftrightarrow> True"
| "connector_may (K_restart ans) c \<longleftrightarrow> 0 \<le> fst ans \<and> cstate c = C_Connected \<and> conn_chan c = None"
| "connector_may (K_functor ans) c \<longleftrightarrow> 0 \<le> fst ans \<and> pending c \<noteq> []"
| "connector_may (K_timer i ans) c \<longleftrightarrow> 0 \<le> fst ans \<and> i < length (retry_timers c) \<and> F_resetChannel \<notin> set (pending c)"
| "connector_may (K_event evs err selfConnect) c \<longleftrightarrow> (case conn_chan c of None \<Rightarrow> False | Some ch \<Rightarrow> \<not> isNoneEvent ch)"

inductive connector_reach :: "connector \<Rightarrow> bool" where
  init: "connector_reach new_Connector"
| step: "connector_reach c \<Longrightarrow> connector_may k c \<Longrightarrow> connector_do k c = Some c' \<Longrightarrow> connector_reach c'"

subsection \<open>The invariant\<close>

definition backoff :: "nat \<Rightarrow> int" where
  "backoff n = min (kInitRetryDelayMs * 2 ^ n) kMaxRetryDelayMs"

lemma backoff_Suc: "min (backoff n * 2) kMaxRetryDelayMs = backoff (Suc n)"
  by (auto simp: backoff_def kInitRetryDelayMs_def kMaxRetryDelayMs_def min_def)

lemma backoff_0 [simp]: "backoff 0 = kInitRetryDelayMs"
  by (simp add: backoff_def kInitRetryDelayMs_def kMaxRetryDelayMs_def)

text \<open>\<open>inEvent\<close> says whether the channel is handling an event.\<close>

definition connector_inv :: "bool \<Rightarrow> connector \<Rightarrow> bool" where
  "connector_inv inEvent c \<longleftrightarrow>
     \<not> bad_close c \<and> retryDelayMs c = backoff (length (delays c)) \<and> delays c = map backoff [0..<length (delays c)]
     \<and> (\<forall>ch. conn_chan c = Some ch \<longrightarrow> eventHandling ch = inEvent \<and> \<not> tied ch)
     \<and> (if cstate c = C_Connecting
        then (\<exists>ch. conn_chan c = Some ch \<and> owned c = [ch_fd ch] \<and> isWriting ch)
          \<and> retry_timers c = [] \<and> F_resetChannel \<notin> set (pending c) \<and> F_startInLoop \<notin> set (pending c)
        else owned c = [] \<and> (\<forall>ch. conn_chan c = Some ch \<longrightarrow> isNoneEvent ch \<and> \<not> addedToLoop ch)
          \<and> count_list (pending c) F_resetChannel = (if conn_chan c = None then 0 else 1)
          \<and> (F_startInLoop \<in> set (pending c) \<longrightarrow> conn_chan c = None)
          \<and> length (retry_timers c) + count_list (pending c) F_startInLoop \<le> (if cstate c = C_Disconnected then 1 else 0))"

lemma connector_inv_new: "connector_inv inEvent new_Connector"
  by (simp add: connector_inv_def new_Connector_def)

lemma backoff_snoc:
  "ds = map backoff [0..<length ds] \<Longrightarrow> ds @ [backoff (length ds)] = map backoff [0..<Suc (length ds)]"
  by simp

lemma attempt_channel [simp]:
  "ch_fd (enableWriting ch) = ch_fd ch" "ch_fd (new_Channel fd) = fd" "ch_fd (disableAll ch) = ch_fd ch"
  "eventHandling (enableWriting ch) = eventHandling ch" "\<not> eventHandling (new_Channel fd)"
  "eventHandling (disableAll ch) = eventHandling ch" "\<not> tied (new_Channel fd)"
  "addedToLoop (enableWriting ch)" "addedToLoop (disableAll ch)"
  by (simp_all add: enableWriting_def new_Channel_def disableAll_def channel_update_def)

text \<open>A connector that can connect.\<close>

definition connector_idle :: "connector \<Rightarrow> bool" where
  "connector_idle c \<longleftrightarrow> \<not> bad_close c \<and> retryDelayMs c = backoff (length (delays c)) \<and> delays c = map backoff [0..<length (delays c)]
     \<and> cstate c = C_Disconnected \<and> conn_chan c = None \<and> owned c = [] \<and> retry_timers c = []
     \<and> F_resetChannel \<notin> set (pending c) \<and> F_startInLoop \<notin> set (pending c)"

lemma connector_idle_inv: "connector_idle c \<Longrightarrow> connector_inv inEvent c"
  by (auto simp: connector_idle_def connector_inv_def count_list_0_iff)

lemma retry_backoff:
  assumes "retryDelayMs c = backoff (length (delays c))" "delays c = map backoff [0..<length (delays c)]"
  shows "retryDelayMs (retry fd c) = backoff (length (delays (retry fd c)))
    \<and> delays (retry fd c) = map backoff [0..<length (delays (retry fd c))]"
  using assms backoff_snoc [OF assms(2)]
  by (simp add: retry_def close_fd_def connector_setState_def Let_def backoff_Suc)

lemma retry_frame [simp]:
  "cstate (retry fd c) = C_Disconnected" "conn_chan (retry fd c) = conn_chan c" "pending (retry fd c) = pending c"
  "owned (retry fd c) = remove1 fd (owned c)" "bad_close (retry fd c) = (bad_close c \<or> fd \<notin> set (owned c))"
  "retry_timers (retry fd c) = retry_timers c @ (if connect_wanted c then [retryDelayMs c] else [])"
  "handed (retry fd c) = handed c"
  by (simp_all add: retry_def close_fd_def connector_setState_def Let_def)

lemma startInLoop_idle:
  assumes "connector_idle c" "0 \<le> fst ans"
  shows "\<exists>c'. startInLoop ans c = Some c' \<and> connector_inv False c'"
proof -
  obtain fd e where ans: "ans = (fd, e)" by fastforce
  show ?thesis
  proof (cases "connect_wanted c")
    case False
    with assms show ?thesis by (simp add: startInLoop_def connector_idle_def connector_idle_inv [OF assms(1)])
  next
    case True
    define d where "d = c\<lparr>owned := [fd]\<rparr>"
    have run: "startInLoop ans c = (if e \<in> {0, EINPROGRESS, EINTR, EISCONN} then connecting fd d
        else if e \<in> {EAGAIN, EADDRINUSE, EADDRNOTAVAIL, ECONNREFUSED, ENETUNREACH} then Some (retry fd d) else Some (close_fd fd d))"
      using assms True by (simp add: ans startInLoop_def connector_idle_def d_def Let_def)
    define d' where "d' = d\<lparr>cstate := C_Connecting, conn_chan := Some (enableWriting (new_Channel fd))\<rparr>"
    have d': "connecting fd d = Some d'" "connector_inv False d'"
      using assms(1) by (simp_all add: connecting_def connector_setState_def d_def d'_def connector_inv_def connector_idle_def)
    have "connector_inv False (retry fd d)"
      using assms(1) retry_backoff [of d fd]
      by (auto simp: connector_inv_def connector_idle_def d_def count_list_0_iff)
    moreover have "connector_inv False (close_fd fd d)"
      using assms(1) by (auto simp: connector_inv_def connector_idle_def d_def close_fd_def count_list_0_iff)
    ultimately show ?thesis using d' unfolding run by auto
  qed
qed


text \<open>What a connection attempt leaves when its channel is released and its socket closed or given away.\<close>

lemma removeAndResetChannel_connecting:
  assumes "connector_inv b c" "cstate c = C_Connecting"
  obtains ch where "conn_chan c = Some ch" "owned c = [ch_fd ch]"
    "removeAndResetChannel c = Some (ch_fd ch, queue_functor F_resetChannel (c\<lparr>conn_chan := Some (disableAll ch\<lparr>addedToLoop := False\<rparr>)\<rparr>))"
  using assms that
  by (auto simp: connector_inv_def removeAndResetChannel_def channel_remove_def Let_def)

lemma released_retry_inv:
  assumes "connector_inv b c" "cstate c = C_Connecting" "conn_chan c = Some ch" "owned c = [ch_fd ch]"
  shows "connector_inv b (retry (ch_fd ch) (queue_functor F_resetChannel (c\<lparr>cstate := st, conn_chan := Some (disableAll ch\<lparr>addedToLoop := False\<rparr>)\<rparr>)))"
proof -
  define d where "d = queue_functor F_resetChannel (c\<lparr>cstate := st, conn_chan := Some (disableAll ch\<lparr>addedToLoop := False\<rparr>)\<rparr>)"
  have "retryDelayMs d = backoff (length (delays d))" "delays d = map backoff [0..<length (delays d)]"
    using assms(1) by (simp_all add: d_def queue_functor_def connector_inv_def)
  note r = retry_backoff [OF this, of "ch_fd ch"]
  show ?thesis
    using assms r unfolding d_def [symmetric]
    by (auto simp: connector_inv_def d_def queue_functor_def count_list_0_iff)
qed

lemma released_connected_inv:
  assumes "connector_inv b c" "cstate c = C_Connecting" "conn_chan c = Some ch" "owned c = [ch_fd ch]"
  shows "connector_inv b (close_fd (ch_fd ch) (connector_setState C_Connected (queue_functor F_resetChannel (c\<lparr>conn_chan := Some (disableAll ch\<lparr>addedToLoop := False\<rparr>)\<rparr>))))"
    "connector_inv b (let d = connector_setState C_Connected (queue_functor F_resetChannel (c\<lparr>conn_chan := Some (disableAll ch\<lparr>addedToLoop := False\<rparr>)\<rparr>))
       in d\<lparr>owned := remove1 (ch_fd ch) (owned d), handed := handed d @ [ch_fd ch]\<rparr>)"
  using assms
  by (simp_all add: connector_inv_def queue_functor_def close_fd_def connector_setState_def count_list_0_iff)

lemma handleWrite_ok:
  assumes "connector_inv True c" "cstate c \<noteq> C_Connected" "conn_chan c \<noteq> None"
  shows "\<exists>c'. connector_handleWrite err self c = Some c' \<and> connector_inv True c' \<and> conn_chan c' \<noteq> None"
proof (cases "cstate c = C_Connecting")
  case True
  with assms(1) obtain ch where ch: "conn_chan c = Some ch" "owned c = [ch_fd ch]"
    "removeAndResetChannel c = Some (ch_fd ch, queue_functor F_resetChannel (c\<lparr>conn_chan := Some (disableAll ch\<lparr>addedToLoop := False\<rparr>)\<rparr>))"
    by (rule removeAndResetChannel_connecting)
  note inv = released_retry_inv [OF assms(1) True ch(1,2), of C_Connecting] released_connected_inv [OF assms(1) True ch(1,2)]
  have "c\<lparr>cstate := C_Connecting\<rparr> = c" using True by simp
  then have "c\<lparr>cstate := C_Connecting, conn_chan := x\<rparr> = c\<lparr>conn_chan := x\<rparr>" for x by simp
  with inv show ?thesis
    unfolding connector_handleWrite_def
    by (simp add: True ch(3) Let_def) (simp add: queue_functor_def close_fd_def connector_setState_def)
next
  case False
  with assms show ?thesis by (cases "cstate c") (simp_all add: connector_handleWrite_def)
qed

lemma handleError_ok:
  assumes "connector_inv True c" "cstate c \<noteq> C_Connected" "conn_chan c \<noteq> None"
  shows "\<exists>c'. connector_handleError c = Some c' \<and> connector_inv True c' \<and> cstate c' \<noteq> C_Connected \<and> conn_chan c' \<noteq> None"
proof (cases "cstate c = C_Connecting")
  case True
  with assms(1) obtain ch where ch: "conn_chan c = Some ch" "owned c = [ch_fd ch]"
    "removeAndResetChannel c = Some (ch_fd ch, queue_functor F_resetChannel (c\<lparr>conn_chan := Some (disableAll ch\<lparr>addedToLoop := False\<rparr>)\<rparr>))"
    by (rule removeAndResetChannel_connecting)
  have "c\<lparr>cstate := C_Connecting\<rparr> = c" using True by simp
  then have "c\<lparr>cstate := C_Connecting, conn_chan := x\<rparr> = c\<lparr>conn_chan := x\<rparr>" for x by simp
  with released_retry_inv [OF assms(1) True ch(1,2), of C_Connecting] show ?thesis
    by (simp add: connector_handleError_def True ch(3)) (simp add: queue_functor_def)
qed (use assms in \<open>simp add: connector_handleError_def\<close>)

lemma connector_inv_flag:
  "connector_inv b c \<Longrightarrow> connector_inv b' (upd_chan (eventHandling_update (\<lambda>_. b')) c)"
  by (cases "conn_chan c") (auto simp: connector_inv_def upd_chan_def)

lemma connector_inv_revents: "connector_inv b c \<Longrightarrow> connector_inv b (upd_chan (set_revents r) c)"
  by (cases "conn_chan c") (auto simp: connector_inv_def upd_chan_def set_revents_def)

lemma upd_chan_frame [simp]:
  "cstate (upd_chan f c) = cstate c" "conn_chan (upd_chan f c) = map_option f (conn_chan c)"
  by (simp_all add: upd_chan_def)

lemma connector_event_ok:
  assumes "connector_inv False c" "conn_chan c = Some ch" "\<not> isNoneEvent ch"
  shows "\<exists>c'. connector_event evs err self c = Some c' \<and> connector_inv False c'"
proof -
  have st: "cstate c = C_Connecting"
    using assms by (auto simp: connector_inv_def split: if_splits)
  define d where "d = upd_chan (eventHandling_update (\<lambda>_. True)) (upd_chan (set_revents evs) c)"
  have d: "connector_inv True d" "cstate d \<noteq> C_Connected" "conn_chan d \<noteq> None"
    using connector_inv_flag [OF connector_inv_revents [OF assms(1)]] st assms(2) by (auto simp: d_def)
  obtain e where e: "(if has (revents (the (conn_chan d))) (POLLERR OR POLLNVAL) then connector_handleError d else Some d) = Some e"
    "connector_inv True e" "cstate e \<noteq> C_Connected" "conn_chan e \<noteq> None"
    using handleError_ok [OF d] d by (cases "has (revents (the (conn_chan d))) (POLLERR OR POLLNVAL)") force+
  obtain f where f: "(if has (revents (the (conn_chan e))) POLLOUT then connector_handleWrite err self e else Some e) = Some f"
    "connector_inv True f"
    using handleWrite_ok [OF e(2-4), of err self] e(2) by (cases "has (revents (the (conn_chan e))) POLLOUT") force+
  have "\<not> tied ch" using assms(1,2) by (simp add: connector_inv_def)
  then have "connector_event evs err self c = Some (upd_chan (eventHandling_update (\<lambda>_. False)) f)"
    using assms(2) e(1) f(1)
    by (simp add: connector_event_def handleEvent_def handleEventWithGuard_def set_revents_def
        d_def [unfolded upd_chan_frame, symmetric] connector_callbacks_def Let_def cong: if_cong)
  with connector_inv_flag [OF f(2)] show ?thesis by blast
qed

lemma resetChannel_ok:
  assumes "connector_inv False c" "pending c = F_resetChannel # fs"
  shows "\<exists>c'. resetChannel (c\<lparr>pending := fs\<rparr>) = Some c' \<and> connector_inv False c'"
proof (cases "conn_chan c")
  case None
  with assms show ?thesis by (auto simp: connector_inv_def split: if_splits)
next
  case (Some ch)
  have "cstate c \<noteq> C_Connecting" using assms by (auto simp: connector_inv_def)
  with assms Some show ?thesis
    by (auto simp: resetChannel_def delete_Channel_def connector_inv_def)
qed

lemma stopInLoop_ok:
  assumes "connector_inv False c"
  shows "\<exists>c'. stopInLoop c = Some c' \<and> connector_inv False c'"
proof (cases "cstate c = C_Connecting")
  case True
  with assms obtain ch where ch: "conn_chan c = Some ch" "owned c = [ch_fd ch]"
    by (rule removeAndResetChannel_connecting)
  have "removeAndResetChannel (c\<lparr>cstate := C_Disconnected\<rparr>) =
      Some (ch_fd ch, queue_functor F_resetChannel (c\<lparr>cstate := C_Disconnected, conn_chan := Some (disableAll ch\<lparr>addedToLoop := False\<rparr>)\<rparr>))"
    by (simp add: removeAndResetChannel_def channel_remove_def ch Let_def)
  with released_retry_inv [OF assms True ch] True show ?thesis
    by (simp add: stopInLoop_def connector_setState_def)
qed (use assms in \<open>simp add: stopInLoop_def\<close>)

lemma connector_do_ok:
  assumes inv: "connector_inv False c" and may: "connector_may k c"
  shows "\<exists>c'. connector_do k c = Some c' \<and> connector_inv False c'"
proof (cases k)
  case (K_start inLoop ans)
  then have rest: "at_rest c" "0 \<le> fst ans" using may by auto
  show ?thesis
  proof (cases inLoop)
    case True
    have "connector_idle (c\<lparr>connect_wanted := True\<rparr>)"
      using rest(1) inv by (auto simp: connector_idle_def at_rest_def connector_inv_def count_list_0_iff)
    from startInLoop_idle [OF this rest(2)] True K_start show ?thesis by (simp add: connector_start_def)
  next
    case False
    with K_start rest(1) inv show ?thesis
      by (auto simp: connector_start_def queue_functor_def connector_inv_def at_rest_def count_list_0_iff)
  qed
next
  case K_stop
  with inv show ?thesis by (auto simp: connector_stop_def queue_functor_def connector_inv_def)
next
  case (K_restart ans)
  define d where "d = c\<lparr>cstate := C_Disconnected, retryDelayMs := kInitRetryDelayMs, delays := [], connect_wanted := True\<rparr>"
  have "connector_idle d"
    using K_restart may inv by (auto simp: connector_idle_def connector_inv_def count_list_0_iff d_def)
  from startInLoop_idle [OF this] K_restart may show ?thesis
    by (auto simp: restart_connector_def connector_setState_def d_def)
next
  case (K_functor ans)
  then obtain f fs where f: "pending c = f # fs" and ans: "0 \<le> fst ans" using may by (cases "pending c") auto
  show ?thesis
  proof (cases f)
    case F_startInLoop
    have "cstate c = C_Disconnected"
      using inv f F_startInLoop by (cases "cstate c") (auto simp: connector_inv_def)
    moreover from this have "connector_idle (c\<lparr>pending := fs\<rparr>)"
      using inv f F_startInLoop by (auto simp: connector_idle_def connector_inv_def count_list_0_iff)
    ultimately show ?thesis using startInLoop_idle [OF _ ans] K_functor f F_startInLoop by simp
  next
    case F_stopInLoop
    have "connector_inv False (c\<lparr>pending := fs\<rparr>)"
      using inv f F_stopInLoop by (auto simp: connector_inv_def)
    from stopInLoop_ok [OF this] K_functor f F_stopInLoop show ?thesis by simp
  next
    case F_resetChannel
    with resetChannel_ok [OF inv] K_functor f show ?thesis by simp
  qed
next
  case (K_timer i ans)
  then have i: "0 \<le> fst ans" "i < length (retry_timers c)" "F_resetChannel \<notin> set (pending c)" using may by auto
  define d where "d = c\<lparr>retry_timers := take i (retry_timers c) @ drop (Suc i) (retry_timers c)\<rparr>"
  have st: "cstate c = C_Disconnected" using inv i(2) by (cases "cstate c") (auto simp: connector_inv_def)
  have "length (retry_timers c) + count_list (pending c) F_startInLoop \<le> 1"
    using inv st by (simp add: connector_inv_def)
  then have "length (retry_timers c) = 1" "i = 0" "F_startInLoop \<notin> set (pending c)"
    using i(2) by (auto simp flip: count_list_0_iff)
  then have "connector_idle d"
    using inv i(3) st by (auto simp: d_def connector_idle_def connector_inv_def count_list_0_iff split: if_splits)
  from startInLoop_idle [OF this i(1)] K_timer i(2) show ?thesis by (simp add: d_def)
next
  case (K_event evs err self)
  with may connector_event_ok [OF inv] show ?thesis by (auto split: option.splits)
qed

lemma connector_reach_inv: "connector_reach c \<Longrightarrow> connector_inv False c"
proof (induction rule: connector_reach.induct)
  case init
  show ?case by (rule connector_inv_new)
next
  case (step c k c')
  with connector_do_ok [of c k] show ?case by auto
qed

subsection \<open>The properties\<close>

text \<open>A refused attempt: started, waiting to be tried again.\<close>

definition refused :: connector where
  "refused = new_Connector\<lparr>connect_wanted := True, retryDelayMs := 1000, retry_timers := [500], delays := [500]\<rparr>"

lemma refused_reach: "connector_reach refused"
proof (rule connector_reach.step [OF connector_reach.init, of "K_start True (7, ECONNREFUSED)"])
  show "connector_do (K_start True (7, ECONNREFUSED)) new_Connector = Some refused"
    by (simp add: connector_start_def startInLoop_def new_Connector_def refused_def retry_def close_fd_def
        connector_setState_def errnos kInitRetryDelayMs_def kMaxRetryDelayMs_def)
qed (simp add: at_rest_def new_Connector_def)



text \<open>
  No descriptor leaks and none is closed twice: at every moment the connector owns exactly the socket
  of the attempt in progress, registered for writing, and none in any other state; each socket it created
  was closed once or handed over.
\<close>

theorem connector_owns_the_attempt:
  assumes "connector_reach c"
  shows "\<not> bad_close c \<and> (case cstate c of
      C_Connecting \<Rightarrow> (\<exists>ch. conn_chan c = Some ch \<and> owned c = [ch_fd ch] \<and> isWriting ch)
    | _ \<Rightarrow> owned c = [] \<and> (case conn_chan c of None \<Rightarrow> True | Some ch \<Rightarrow> isNoneEvent ch))"
  using connector_reach_inv [OF assms]
  by (cases "cstate c"; cases "conn_chan c") (auto simp: connector_inv_def)

lemma connector_owns_the_attempt_witness: "\<not> bad_close refused \<and> owned refused = []"
  using connector_owns_the_attempt [OF refused_reach] by (simp add: refused_def new_Connector_def)

text \<open>
  Retries back off: since it was made or restarted, the connector has waited 500 ms, 1 s, 2 s and so
  on before its attempts, doubled each time and at most 30 s, and at most one retry is ever scheduled.
\<close>

theorem retries_back_off:
  assumes "connector_reach c"
  shows "delays c = map (\<lambda>n. min (500 * 2 ^ n) 30000) [0..<length (delays c)] \<and> length (retry_timers c) \<le> 1"
proof -
  have "delays c = map backoff [0..<length (delays c)]" "length (retry_timers c) \<le> 1"
    using connector_reach_inv [OF assms] by (auto simp: connector_inv_def split: if_splits)
  moreover have "backoff = (\<lambda>n. min (500 * 2 ^ n) 30000)"
    by (simp add: backoff_def fun_eq_iff kInitRetryDelayMs_def kMaxRetryDelayMs_def)
  ultimately show ?thesis by simp
qed

lemma retries_back_off_witness:
  "delays refused = map (\<lambda>n. min (500 * 2 ^ n) 30000) [0..<length (delays refused)] \<and> length (retry_timers refused) \<le> 1"
  by (rule retries_back_off [OF refused_reach])

text \<open>
  Without that discipline the assertions of the connector do fail. It aborts when start follows stop
  at once while an attempt is in progress (the old channel is not reset yet); when start follows stop
  while a retry timer is running, which stop does not cancel; and when start is called again on a
  connector whose connection was handed over.
\<close>

theorem connector_aborts_undisciplined:
  "connector_run [K_start True (7, EINPROGRESS), K_stop, K_start False (8, 0), K_functor (8, 0), K_functor (8, 0)] new_Connector = None
   \<and> connector_run [K_start True (7, ECONNREFUSED), K_stop, K_functor (8, 0), K_start True (8, EINPROGRESS), K_timer 0 (9, 0)] new_Connector = None
   \<and> connector_run [K_start True (7, EINPROGRESS), K_event POLLOUT 0 False, K_functor (8, 0), K_start True (8, 0)] new_Connector = None"
  by (simp add: connector_start_def startInLoop_def new_Connector_def retry_def close_fd_def connector_setState_def
      errnos connecting_def connector_stop_def queue_functor_def stopInLoop_def removeAndResetChannel_def
      connector_event_def handleEvent_def handleEventWithGuard_def connector_callbacks_def connector_handleWrite_def
      channel_remove_def resetChannel_def delete_Channel_def Let_def new_Channel_def enableWriting_def disableAll_def
      channel_update_def isNoneEvent_def upd_chan_def set_revents_def has_def poll_masks)

end
