(* ===== verification/Sockets_Model.thy ===== *)
theory Sockets_Model
  imports Endian Connector_Model
begin

text \<open>
  muduo/net/InetAddress.h, InetAddress.cc, the decisions SocketsOps.cc makes around the system calls,
  and muduo/net/Acceptor.h, Acceptor.cc. A socket address is the union of sockaddr_in and sockaddr_in6:
  the family and the port (both at the same place in either), the word at offset 4 (the IPv4 address, or
  the flow label) and the 16 bytes of the IPv6 address. inet_ntop for IPv6 and inet_pton are arguments. The process's
  descriptors and the queue of connections the kernel has completed are the record \<open>kernel\<close>.
\<close>

subsection \<open>Addresses\<close>

definition AF_UNSPEC :: u16 where "AF_UNSPEC = 0"
definition AF_INET :: u16 where "AF_INET = 2"
definition AF_INET6 :: u16 where "AF_INET6 = 10"

lemmas families = AF_UNSPEC_def AF_INET_def AF_INET6_def

record sockaddr =
  sa_family :: u16
  sa_port :: u16
  sa_word :: u32
  sa_addr6 :: "byte list"

definition zero_sockaddr :: sockaddr where
  "zero_sockaddr = \<lparr>sa_family = 0, sa_port = 0, sa_word = 0, sa_addr6 = replicate 16 0\<rparr>"

definition INADDR_ANY :: u32 where "INADDR_ANY = 0"
definition INADDR_LOOPBACK :: u32 where "INADDR_LOOPBACK = 0x7f000001"

definition new_InetAddress :: "u16 \<Rightarrow> bool \<Rightarrow> bool \<Rightarrow> sockaddr" where
  "new_InetAddress port loopbackOnly ipv6 =
     (if ipv6
      then zero_sockaddr\<lparr>sa_family := AF_INET6, sa_addr6 := (if loopbackOnly then replicate 15 0 @ [1] else replicate 16 0),
             sa_port := hostToNetwork16 port\<rparr>
      else zero_sockaddr\<lparr>sa_family := AF_INET,
             sa_word := hostToNetwork32 (if loopbackOnly then INADDR_LOOPBACK else INADDR_ANY),
             sa_port := hostToNetwork16 port\<rparr>)"

definition toPort :: "sockaddr \<Rightarrow> u16" where
  "toPort a = networkToHost16 (sa_port a)"

definition ipNetEndian :: "sockaddr \<Rightarrow> u32 option" where
  "ipNetEndian a = do { require (sa_family a = AF_INET); Some (sa_word a) }"

text \<open>inet_ntop for AF_INET: the four bytes, as they lie in memory.\<close>

fun join_dots :: "string list \<Rightarrow> string" where
  "join_dots [] = []"
| "join_dots [s] = s"
| "join_dots (s # ss) = s @ ''.'' @ join_dots ss"

definition dotted :: "u32 \<Rightarrow> string" where
  "dotted w = join_dots (map (\<lambda>b. dec_nat (unat b)) (memory 4 w))"

definition INET_ADDRSTRLEN :: nat where "INET_ADDRSTRLEN = 16"
definition INET6_ADDRSTRLEN :: nat where "INET6_ADDRSTRLEN = 46"

definition toIp :: "(byte list \<Rightarrow> string) \<Rightarrow> nat \<Rightarrow> sockaddr \<Rightarrow> string option" where
  "toIp inet_ntop6 bufsize a =
     (if sa_family a = AF_INET then do { require (INET_ADDRSTRLEN \<le> bufsize); Some (dotted (sa_word a)) }
      else if sa_family a = AF_INET6 then do { require (INET6_ADDRSTRLEN \<le> bufsize); Some (inet_ntop6 (sa_addr6 a)) }
      else Some [])"

definition toIpPort :: "(byte list \<Rightarrow> string) \<Rightarrow> nat \<Rightarrow> sockaddr \<Rightarrow> string option" where
  "toIpPort inet_ntop6 bufsize a = do {
     buf \<leftarrow> toIp inet_ntop6 bufsize a;
     let end' = length buf;
     require (end' < bufsize);
     Some (buf @ take (bufsize - end' - 1) ('':'' @ dec_nat (unat (networkToHost16 (sa_port a))))) }"

text \<open>
  inet_pton is an argument, None for a text that is no address; the address then stays as it was. On
  the whole, a bad text gives 0.0.0.0 (or ::), which only the log tells.
\<close>

definition fromIpPort :: "(string \<Rightarrow> u32 option) \<Rightarrow> string \<Rightarrow> u16 \<Rightarrow> sockaddr \<Rightarrow> sockaddr" where
  "fromIpPort inet_pton4 ip port a =
     (let a = a\<lparr>sa_family := AF_INET, sa_port := hostToNetwork16 port\<rparr>
      in case inet_pton4 ip of None \<Rightarrow> a | Some w \<Rightarrow> a\<lparr>sa_word := w\<rparr>)"

definition fromIpPort6 :: "(string \<Rightarrow> byte list option) \<Rightarrow> string \<Rightarrow> u16 \<Rightarrow> sockaddr \<Rightarrow> sockaddr" where
  "fromIpPort6 inet_pton6 ip port a =
     (let a = a\<lparr>sa_family := AF_INET6, sa_port := hostToNetwork16 port\<rparr>
      in case inet_pton6 ip of None \<Rightarrow> a | Some w \<Rightarrow> a\<lparr>sa_addr6 := w\<rparr>)"

definition InetAddress_of_ip ::
    "(string \<Rightarrow> u32 option) \<Rightarrow> (string \<Rightarrow> byte list option) \<Rightarrow> string \<Rightarrow> u16 \<Rightarrow> bool \<Rightarrow> sockaddr" where
  "InetAddress_of_ip inet_pton4 inet_pton6 ip port ipv6 =
     (if ipv6 then fromIpPort6 inet_pton6 ip port zero_sockaddr else fromIpPort inet_pton4 ip port zero_sockaddr)"

text \<open>gethostbyname_r: None, or the type, the length and the first address of the host. Only the address is stored.\<close>

definition resolve :: "(u16 \<times> nat \<times> u32) option \<Rightarrow> sockaddr \<Rightarrow> (bool \<times> sockaddr) option" where
  "resolve he out =
     (case he of
        Some (h_addrtype, h_length, h_addr) \<Rightarrow> do {
          require (h_addrtype = AF_INET \<and> h_length = 4);
          Some (True, out\<lparr>sa_word := h_addr\<rparr>) }
      | None \<Rightarrow> Some (False, out))"

text \<open>getsockname and getpeername leave the zeroed address when they fail.\<close>

definition getAddr :: "sockaddr option \<Rightarrow> sockaddr" where
  "getAddr answer = (case answer of None \<Rightarrow> zero_sockaddr | Some a \<Rightarrow> a)"

definition isSelfConnect :: "sockaddr option \<Rightarrow> sockaddr option \<Rightarrow> bool" where
  "isSelfConnect local_answer peer_answer =
     (let localaddr = getAddr local_answer; peeraddr = getAddr peer_answer
      in if sa_family localaddr = AF_INET
         then sa_port localaddr = sa_port peeraddr \<and> sa_word localaddr = sa_word peeraddr
         else if sa_family localaddr = AF_INET6
         then sa_port localaddr = sa_port peeraddr \<and> sa_addr6 localaddr = sa_addr6 peeraddr
         else False)"

text \<open>getSocketError: SO_ERROR, or errno when getsockopt itself fails.\<close>

fun getSocketError :: "nat + nat \<Rightarrow> nat" where
  "getSocketError (Inl e) = e"
| "getSocketError (Inr optval) = optval"

lemma toPort_of_ip [simp]: "toPort (InetAddress_of_ip p4 p6 ip port v6) = port"
  by (simp add: toPort_def InetAddress_of_ip_def fromIpPort_def fromIpPort6_def Let_def split: option.split)

lemma toPort_new [simp]: "toPort (new_InetAddress port loopbackOnly ipv6) = port"
  by (simp add: toPort_def new_InetAddress_def)

lemma length_dec_byte: "length (dec_nat (unat (b :: byte))) \<le> 3"
  using unsigned_less [of b, where ?'a = nat] by (intro length_dec_nat) simp_all

lemma memory_4: "memory 4 w = [memory 4 w ! 0, memory 4 w ! 1, memory 4 w ! 2, memory 4 w ! 3]"
  by (rule nth_equalityI) (auto simp: less_Suc_eq numeral_eq_Suc)

lemma length_dotted: "length (dotted w) \<le> 15"
proof -
  let ?l = "\<lambda>i. length (dec_nat (unat (memory 4 w ! i)))"
  have "length (dotted w) = ?l 0 + ?l 1 + ?l 2 + ?l 3 + 3"
    unfolding dotted_def by (subst memory_4) simp
  moreover have "?l i \<le> 3" for i by (rule length_dec_byte)
  then have "?l 0 + ?l 1 + ?l 2 + ?l 3 \<le> 3 + 3 + 3 + 3" by (intro add_mono)
  ultimately show ?thesis by simp
qed

lemma length_port: "length (dec_nat (unat (p :: u16))) \<le> 5"
  using unsigned_less [of p, where ?'a = nat] by (intro length_dec_nat) simp_all

lemma toIpPort_v4:
  assumes "sa_family a = AF_INET"
  shows "toIpPort inet_ntop6 64 a = Some (dotted (sa_word a) @ '':'' @ dec_nat (unat (toPort a)))"
  using assms length_dotted [of "sa_word a"] length_port [of "toPort a"]
  by (simp add: toIpPort_def toIp_def INET_ADDRSTRLEN_def toPort_def)

lemma toIpPort_v4_length:
  "sa_family a = AF_INET \<Longrightarrow> toIpPort inet_ntop6 64 a = Some s \<Longrightarrow> length s \<le> 21"
  using length_dotted [of "sa_word a"] length_port [of "toPort a"] by (auto simp: toIpPort_v4)

subsection \<open>Accepting\<close>

definition ENFILE :: nat where "ENFILE = 23"
definition EINVAL :: nat where "EINVAL = 22"
definition EMFILE :: nat where "EMFILE = 24"
definition EPROTO :: nat where "EPROTO = 71"
definition EOPNOTSUPP :: nat where "EOPNOTSUPP = 95"
definition ECONNABORTED :: nat where "ECONNABORTED = 103"
definition ENOBUFS :: nat where "ENOBUFS = 105"
definition ENOMEM :: nat where "ENOMEM = 12"

lemmas accept_errnos = errnos ENFILE_def EINVAL_def EMFILE_def EPROTO_def EOPNOTSUPP_def ECONNABORTED_def
  ENOBUFS_def ENOMEM_def

record kernel =
  backlog :: nat
  used_fds :: nat
  max_fds :: nat

text \<open>accept(2): \<open>fault\<close> is a failure the kernel may report for reasons of its own.\<close>

definition accept4 :: "nat option \<Rightarrow> kernel \<Rightarrow> nat + kernel" where
  "accept4 fault k =
     (case fault of
        Some e \<Rightarrow> Inl e
      | None \<Rightarrow> if backlog k = 0 then Inl EAGAIN
               else if max_fds k \<le> used_fds k then Inl EMFILE
               else Inr (k\<lparr>backlog := backlog k - 1, used_fds := used_fds k + 1\<rparr>))"

definition close_one :: "kernel \<Rightarrow> kernel" where
  "close_one k = k\<lparr>used_fds := used_fds k - 1\<rparr>"

definition open_one :: "kernel \<Rightarrow> kernel option" where
  "open_one k = (if used_fds k < max_fds k then Some (k\<lparr>used_fds := used_fds k + 1\<rparr>) else None)"

text \<open>An errno that is not expected ends the process (LOG_FATAL).\<close>

definition sockets_accept :: "nat option \<Rightarrow> kernel \<Rightarrow> (nat + kernel) option" where
  "sockets_accept fault k =
     (case accept4 fault k of
        Inr k' \<Rightarrow> Some (Inr k')
      | Inl savedErrno \<Rightarrow>
          if savedErrno \<in> {EAGAIN, ECONNABORTED, EINTR, EPROTO, EPERM, EMFILE} then Some (Inl savedErrno)
          else if savedErrno \<in> {EBADF, EFAULT, EINVAL, ENFILE, ENOBUFS, ENOMEM, ENOTSOCK, EOPNOTSUPP} then None
          else None)"

record acceptor =
  listenning :: bool
  acceptChannel :: channel
  idle_open :: bool
  has_newConnection :: bool
  accepted :: nat

definition new_Acceptor :: "int \<Rightarrow> kernel \<Rightarrow> (acceptor \<times> kernel) option" where
  "new_Acceptor fd k = do {
     k \<leftarrow> open_one k;
     Some (\<lparr>listenning = False, acceptChannel = new_Channel fd, idle_open = True, has_newConnection = False, accepted = 0\<rparr>, k) }"

definition delete_Acceptor :: "acceptor \<Rightarrow> kernel \<Rightarrow> (acceptor \<times> kernel) option" where
  "delete_Acceptor a k = do {
     ch \<leftarrow> channel_remove (disableAll (acceptChannel a));
     Some (a\<lparr>acceptChannel := ch, idle_open := False\<rparr>, if idle_open a then close_one k else k) }"

definition acceptor_listen :: "acceptor \<Rightarrow> acceptor" where
  "acceptor_listen a = a\<lparr>listenning := True, acceptChannel := enableReading (acceptChannel a)\<rparr>"

text \<open>
  The trick with the idle descriptor: give it up, take the connection with the freed slot, close it at
  once and open the idle descriptor again. Closing -1 does nothing.
\<close>

definition drop_connection :: "nat option \<Rightarrow> acceptor \<Rightarrow> kernel \<Rightarrow> acceptor \<times> kernel" where
  "drop_connection fault a k =
     (let k = (if idle_open a then close_one k else k);
          k = (case accept4 fault k of Inr k' \<Rightarrow> close_one k' | Inl e \<Rightarrow> k)
      in case open_one k of
           Some k' \<Rightarrow> (a\<lparr>idle_open := True\<rparr>, k')
         | None \<Rightarrow> (a\<lparr>idle_open := False\<rparr>, k))"

text \<open>\<open>fault\<close> and \<open>fault2\<close> are for the two calls of accept.\<close>

definition acceptor_handleRead :: "nat option \<Rightarrow> nat option \<Rightarrow> acceptor \<Rightarrow> kernel \<Rightarrow> (acceptor \<times> kernel) option" where
  "acceptor_handleRead fault fault2 a k =
     (case sockets_accept fault k of
        None \<Rightarrow> None
      | Some (Inr k') \<Rightarrow>
          Some (if has_newConnection a then (a\<lparr>accepted := accepted a + 1\<rparr>, k') else (a, close_one k'))
      | Some (Inl e) \<Rightarrow> Some (if e = EMFILE then drop_connection fault2 a k else (a, k)))"

text \<open>
  A full descriptor table cannot make the server spin. Every time the listening socket is handled
  while connections wait, one of them leaves the kernel's queue: it is handed on when a descriptor is
  free, and otherwise accepted with the reserved descriptor and closed, after which the reserved
  descriptor is held again and as many descriptors are in use as before.
\<close>

theorem waiting_connections_always_drain:
  assumes "0 < backlog k" "idle_open a" "has_newConnection a" "0 < used_fds k" "used_fds k \<le> max_fds k"
  shows "\<exists>a' k'. acceptor_handleRead None None a k = Some (a', k') \<and> backlog k' = backlog k - 1 \<and> idle_open a'
    \<and> (if used_fds k < max_fds k then accepted a' = accepted a + 1 \<and> used_fds k' = used_fds k + 1
       else accepted a' = accepted a \<and> used_fds k' = used_fds k)"
  using assms
  by (auto simp: acceptor_handleRead_def sockets_accept_def accept4_def drop_connection_def open_one_def close_one_def
      Let_def split: option.split)

lemma waiting_connections_always_drain_witness:
  "\<exists>a' k'. acceptor_handleRead None None \<lparr>listenning = True, acceptChannel = new_Channel 4, idle_open = True, has_newConnection = True, accepted = 7\<rparr>
      \<lparr>backlog = 3, used_fds = 1024, max_fds = 1024\<rparr> = Some (a', k') \<and> backlog k' = 2 \<and> used_fds k' = 1024"
  using waiting_connections_always_drain [of "\<lparr>backlog = 3, used_fds = 1024, max_fds = 1024\<rparr>"
      "\<lparr>listenning = True, acceptChannel = new_Channel 4, idle_open = True, has_newConnection = True, accepted = 7\<rparr>"]
  by (auto simp: eval_nat_numeral)

end
