(* ===== verification/Tcp_Connection.thy ===== *)
theory Tcp_Connection
  imports Net_Buffer Event_Channel "HOL-Library.Sublist"
begin

text \<open>
  muduo/net/TcpConnection.h and TcpConnection.cpp. The record holds the connection's own fields, the
  end of the socket it writes to (\<open>sock_sent\<close>: the bytes the kernel took, \<open>sock_shutdown\<close>: whether
  \<open>shutdownWrite\<close> was called), the functors it has queued in its loop and the calls it has made to
  its user. The answers of write(2) and readv(2) are arguments. A method takes \<open>inLoop\<close> where it asks
  \<open>isInLoopThread\<close>: \<open>runInLoop\<close> runs the functor at once there and queues it elsewhere.

  A user callback is the last thing a handler does for the connection's state, so what the user does
  in it is the operations that follow; \<open>conn_run\<close> interleaves user calls from any thread, queued
  functors and channel events freely, within what the poller and the kernel document.

  \<open>send\<close>, \<open>shutdown\<close>, \<open>forceClose\<close> and \<open>forceCloseWithDelay\<close> test \<open>state_\<close> first, set it and hand over a
  functor, without a lock. The operations of these names are calls nothing comes between: those in the
  loop's own thread. A call in another thread is in steps, with anything between them: \<open>call_tests\<close>,
  \<open>call_sets\<close>, \<open>call_hands_over\<close>; \<open>in_calls\<close> holds the calls under way.
\<close>

datatype StateE = kDisconnected | kConnecting | kConnected | kDisconnecting

definition EWOULDBLOCK :: int where "EWOULDBLOCK = 11"
definition EPIPE :: int where "EPIPE = 32"
definition ECONNRESET :: int where "ECONNRESET = 104"

lemmas write_errnos = EWOULDBLOCK_def EPIPE_def ECONNRESET_def

datatype write_answer = Wrote nat | Write_Failed int

datatype pending_call =
    F_sendInLoop string
  | F_shutdownInLoop
  | F_forceCloseInLoop
  | F_startReadInLoop
  | F_stopReadInLoop
  | F_writeComplete
  | F_highWater nat

text \<open>A call in another thread that tests \<open>state_\<close>, and how far it is.\<close>

datatype other_call =
    Other_send string
  | Other_shutdown
  | Other_forceClose
  | Other_forceCloseWithDelay rat

datatype call_stage = Tested other_call | Marked other_call

datatype notice =
    Connection_Callback bool
  | Message_Callback int
  | Close_Callback
  | Write_Complete
  | High_Water nat

record tcp_connection =
  conn_state :: StateE
  reading :: bool
  conn_channel :: channel
  highWaterMark :: nat
  has_writeComplete :: bool
  has_highWater :: bool
  inputBuffer :: buffer
  outputBuffer :: buffer
  delayed_closes :: "rat list"
  queued :: "pending_call list"
  in_calls :: "call_stage list"
  notices :: "notice list"
  sock_sent :: string
  sock_shutdown :: bool

definition new_TcpConnection :: "int \<Rightarrow> bool \<Rightarrow> bool \<Rightarrow> nat \<Rightarrow> tcp_connection" where
  "new_TcpConnection sockfd wc hw mark = \<lparr>conn_state = kConnecting, reading = True,
     conn_channel = new_Channel sockfd, highWaterMark = mark, has_writeComplete = wc,
     has_highWater = hw, inputBuffer = new_Buffer kInitialSize, outputBuffer = new_Buffer kInitialSize,
     delayed_closes = [], queued = [], in_calls = [], notices = [], sock_sent = [], sock_shutdown = False\<rparr>"

definition kHighWaterMark :: nat where "kHighWaterMark = 64 * 1024 * 1024"

definition connected_now :: "tcp_connection \<Rightarrow> bool" where
  "connected_now c \<longleftrightarrow> conn_state c = kConnected"

text \<open>The destructor, and that of the channel it owns (which is in the poller's map while \<open>addedToLoop\<close>).\<close>

definition delete_TcpConnection :: "bool \<Rightarrow> tcp_connection \<Rightarrow> unit option" where
  "delete_TcpConnection inLoop c = do {
     require (conn_state c = kDisconnected);
     delete_Channel inLoop (addedToLoop (conn_channel c)) (conn_channel c) }"

definition live :: "tcp_connection \<Rightarrow> bool" where
  "live c \<longleftrightarrow> conn_state c = kConnected \<or> conn_state c = kDisconnecting"

definition queueFunctor :: "pending_call \<Rightarrow> tcp_connection \<Rightarrow> tcp_connection" where
  "queueFunctor f c = c\<lparr>queued := queued c @ [f]\<rparr>"

definition notify :: "notice \<Rightarrow> tcp_connection \<Rightarrow> tcp_connection" where
  "notify n c = c\<lparr>notices := notices c @ [n]\<rparr>"

definition connectionCallback :: "tcp_connection \<Rightarrow> tcp_connection" where
  "connectionCallback c = notify (Connection_Callback (connected_now c)) c"

definition setState :: "StateE \<Rightarrow> tcp_connection \<Rightarrow> tcp_connection" where
  "setState s c = c\<lparr>conn_state := s\<rparr>"

definition stateToString :: "tcp_connection \<Rightarrow> string" where
  "stateToString c = (case conn_state c of kDisconnected \<Rightarrow> ''kDisconnected'' | kConnecting \<Rightarrow> ''kConnecting''
     | kConnected \<Rightarrow> ''kConnected'' | kDisconnecting \<Rightarrow> ''kDisconnecting'')"

subsection \<open>Sending\<close>

text \<open>
  \<open>nwrote\<close> and \<open>faultError\<close> after the attempt to write directly; \<open>assert(remaining <= len)\<close> says that
  the kernel took no more than it was given.
\<close>

fun write_result :: "write_answer \<Rightarrow> nat \<times> bool" where
  "write_result (Wrote n) = (n, False)"
| "write_result (Write_Failed e) = (0, e \<noteq> EWOULDBLOCK \<and> (e = EPIPE \<or> e = ECONNRESET))"

text \<open>The direct attempt: only with nothing queued before; nothing is written past the backlog.\<close>

definition write_directly :: "string \<Rightarrow> write_answer \<Rightarrow> tcp_connection \<Rightarrow> nat \<times> bool \<times> tcp_connection" where
  "write_directly data ans c =
     (if \<not> isWriting (conn_channel c) \<and> readableBytes (outputBuffer c) = 0
      then
        (let (nwrote, faultError) = write_result ans;
             c = c\<lparr>sock_sent := sock_sent c @ take nwrote data\<rparr>;
             remaining = length data - nwrote
         in (nwrote, faultError,
             if (case ans of Wrote n \<Rightarrow> True | Write_Failed e \<Rightarrow> False) \<and> remaining = 0 \<and> has_writeComplete c
             then queueFunctor F_writeComplete c else c))
      else (0, False, c))"

text \<open>The rest of the message goes to the output buffer.\<close>

definition append_remaining :: "string \<Rightarrow> tcp_connection \<Rightarrow> tcp_connection option" where
  "append_remaining data c =
     (let oldLen = readableBytes (outputBuffer c);
          remaining = length data;
          c = (if highWaterMark c \<le> oldLen + remaining \<and> oldLen < highWaterMark c \<and> has_highWater c
               then queueFunctor (F_highWater (oldLen + remaining)) c else c)
      in do {
        out \<leftarrow> buffer_append (outputBuffer c) data;
        let c = c\<lparr>outputBuffer := out\<rparr>;
        Some (if \<not> isWriting (conn_channel c) then c\<lparr>conn_channel := enableWriting (conn_channel c)\<rparr> else c) })"

definition sendInLoop :: "string \<Rightarrow> write_answer \<Rightarrow> tcp_connection \<Rightarrow> tcp_connection option" where
  "sendInLoop data ans c =
     (if conn_state c = kDisconnected then Some c
      else
        (case write_directly data ans c of
           (nwrote, faultError, c) \<Rightarrow> do {
             require (nwrote \<le> length data);
             if \<not> faultError \<and> 0 < length data - nwrote
             then append_remaining (drop nwrote data) c
             else Some c }))"

definition shutdownInLoop :: "tcp_connection \<Rightarrow> tcp_connection" where
  "shutdownInLoop c = (if \<not> isWriting (conn_channel c) then c\<lparr>sock_shutdown := True\<rparr> else c)"

definition startReadInLoop :: "tcp_connection \<Rightarrow> tcp_connection" where
  "startReadInLoop c = (if \<not> reading c \<or> \<not> isReading (conn_channel c)
     then c\<lparr>conn_channel := enableReading (conn_channel c), reading := True\<rparr> else c)"

definition stopReadInLoop :: "tcp_connection \<Rightarrow> tcp_connection" where
  "stopReadInLoop c = (if reading c \<or> isReading (conn_channel c)
     then c\<lparr>conn_channel := disableReading (conn_channel c), reading := False\<rparr> else c)"

subsection \<open>The handlers of the channel\<close>

definition handleClose :: "tcp_connection \<Rightarrow> tcp_connection option" where
  "handleClose c = do {
     require (conn_state c = kConnected \<or> conn_state c = kDisconnecting);
     let c = setState kDisconnected c;
     let c = c\<lparr>conn_channel := disableAll (conn_channel c)\<rparr>;
     Some (notify Close_Callback (connectionCallback c)) }"

definition handleError :: "tcp_connection \<Rightarrow> tcp_connection option" where
  "handleError c = Some c"

definition handleRead :: "read_answer \<Rightarrow> int \<Rightarrow> tcp_connection \<Rightarrow> tcp_connection option" where
  "handleRead ans receiveTime c = do {
     (n, savedErrno, buf) \<leftarrow> readFd (inputBuffer c) ans;
     let c = c\<lparr>inputBuffer := buf\<rparr>;
     if 0 < n then Some (notify (Message_Callback receiveTime) c)
     else if n = 0 then handleClose c
     else handleError c }"

definition handleWrite :: "write_answer \<Rightarrow> tcp_connection \<Rightarrow> tcp_connection option" where
  "handleWrite ans c =
     (if isWriting (conn_channel c) then
        (case ans of
           Wrote n \<Rightarrow>
             if 0 < n then do {
               out \<leftarrow> retrieve (outputBuffer c) n;
               let c = c\<lparr>sock_sent := sock_sent c @ take n (contents (outputBuffer c)), outputBuffer := out\<rparr>;
               if readableBytes (outputBuffer c) = 0 then
                 (let c = c\<lparr>conn_channel := disableWriting (conn_channel c)\<rparr>;
                      c = (if has_writeComplete c then queueFunctor F_writeComplete c else c)
                  in Some (if conn_state c = kDisconnecting then shutdownInLoop c else c))
               else Some c }
             else Some c
         | Write_Failed e \<Rightarrow> Some c)
      else Some c)"

definition forceCloseInLoop :: "tcp_connection \<Rightarrow> tcp_connection option" where
  "forceCloseInLoop c =
     (if conn_state c = kConnected \<or> conn_state c = kDisconnecting then handleClose c else Some c)"

definition conn_callbacks :: "read_answer \<Rightarrow> write_answer \<Rightarrow> tcp_connection callbacks" where
  "conn_callbacks rans wans = \<lparr>readCallback = Some (handleRead rans), writeCallback = Some (handleWrite wans),
     closeCallback = Some handleClose, errorCallback = Some handleError\<rparr>"

text \<open>A queued functor runs in the loop; \<open>ans\<close> answers the write it may make.\<close>

fun run_functor :: "pending_call \<Rightarrow> write_answer \<Rightarrow> tcp_connection \<Rightarrow> tcp_connection option" where
  "run_functor (F_sendInLoop s) ans c = sendInLoop s ans c"
| "run_functor F_shutdownInLoop ans c = Some (shutdownInLoop c)"
| "run_functor F_forceCloseInLoop ans c = forceCloseInLoop c"
| "run_functor F_startReadInLoop ans c = Some (startReadInLoop c)"
| "run_functor F_stopReadInLoop ans c = Some (stopReadInLoop c)"
| "run_functor F_writeComplete ans c = Some (notify Write_Complete c)"
| "run_functor (F_highWater n) ans c = Some (notify (High_Water n) c)"

definition runInLoop :: "bool \<Rightarrow> pending_call \<Rightarrow> write_answer \<Rightarrow> tcp_connection \<Rightarrow> tcp_connection option" where
  "runInLoop inLoop f ans c = (if inLoop then run_functor f ans c else Some (queueFunctor f c))"

subsection \<open>The public operations\<close>

definition send :: "bool \<Rightarrow> string \<Rightarrow> write_answer \<Rightarrow> tcp_connection \<Rightarrow> tcp_connection option" where
  "send inLoop message ans c =
     (if conn_state c = kConnected then runInLoop inLoop (F_sendInLoop message) ans c else Some c)"

text \<open>The overload for a Buffer hands its contents over and leaves it empty.\<close>

definition send_Buffer ::
    "bool \<Rightarrow> buffer \<Rightarrow> write_answer \<Rightarrow> tcp_connection \<Rightarrow> (tcp_connection \<times> buffer) option" where
  "send_Buffer inLoop buf ans c =
     (if conn_state c = kConnected then
        (if inLoop then do {
           c \<leftarrow> sendInLoop (window (peek buf) (peek buf + readableBytes buf) (storage buf)) ans c;
           Some (c, retrieveAll buf) }
         else do {
           (message, buf) \<leftarrow> retrieveAllAsString buf;
           Some (queueFunctor (F_sendInLoop message) c, buf) })
      else Some (c, buf))"

definition shutdown :: "bool \<Rightarrow> tcp_connection \<Rightarrow> tcp_connection option" where
  "shutdown inLoop c =
     (if conn_state c = kConnected
      then runInLoop inLoop F_shutdownInLoop (Wrote 0) (setState kDisconnecting c) else Some c)"

definition forceClose :: "tcp_connection \<Rightarrow> tcp_connection" where
  "forceClose c =
     (if conn_state c = kConnected \<or> conn_state c = kDisconnecting
      then queueFunctor F_forceCloseInLoop (setState kDisconnecting c) else c)"

definition forceCloseWithDelay :: "rat \<Rightarrow> tcp_connection \<Rightarrow> tcp_connection" where
  "forceCloseWithDelay seconds c =
     (if conn_state c = kConnected \<or> conn_state c = kDisconnecting
      then (setState kDisconnecting c)\<lparr>delayed_closes := delayed_closes c @ [seconds]\<rparr> else c)"

text \<open>
  The steps of a call in another thread: the test of \<open>state_\<close>; \<open>setState(kDisconnecting)\<close>, not for
  \<open>send\<close>; and \<open>queueInLoop\<close> (or \<open>runAfter\<close>), which every one of them makes there.
\<close>

fun call_passes :: "other_call \<Rightarrow> StateE \<Rightarrow> bool" where
  "call_passes (Other_send message) s \<longleftrightarrow> s = kConnected"
| "call_passes Other_shutdown s \<longleftrightarrow> s = kConnected"
| "call_passes Other_forceClose s \<longleftrightarrow> s = kConnected \<or> s = kDisconnecting"
| "call_passes (Other_forceCloseWithDelay seconds) s \<longleftrightarrow> s = kConnected \<or> s = kDisconnecting"

definition call_tests :: "other_call \<Rightarrow> tcp_connection \<Rightarrow> tcp_connection" where
  "call_tests k c = (if call_passes k (conn_state c) then c\<lparr>in_calls := in_calls c @ [Tested k]\<rparr> else c)"

definition call_sets :: "other_call \<Rightarrow> tcp_connection \<Rightarrow> tcp_connection" where
  "call_sets k c = (setState kDisconnecting c)\<lparr>in_calls := remove1 (Tested k) (in_calls c) @ [Marked k]\<rparr>"

fun hand_over :: "other_call \<Rightarrow> tcp_connection \<Rightarrow> tcp_connection" where
  "hand_over (Other_send message) c = queueFunctor (F_sendInLoop message) c"
| "hand_over Other_shutdown c = queueFunctor F_shutdownInLoop c"
| "hand_over Other_forceClose c = queueFunctor F_forceCloseInLoop c"
| "hand_over (Other_forceCloseWithDelay seconds) c = c\<lparr>delayed_closes := delayed_closes c @ [seconds]\<rparr>"

text \<open>The stage a call is at when it hands its functor over.\<close>

fun last_stage :: "other_call \<Rightarrow> call_stage" where
  "last_stage (Other_send message) = Tested (Other_send message)"
| "last_stage k = Marked k"

definition call_hands_over :: "other_call \<Rightarrow> tcp_connection \<Rightarrow> tcp_connection" where
  "call_hands_over k c = hand_over k (c\<lparr>in_calls := remove1 (last_stage k) (in_calls c)\<rparr>)"

definition startRead :: "bool \<Rightarrow> tcp_connection \<Rightarrow> tcp_connection option" where
  "startRead inLoop c = runInLoop inLoop F_startReadInLoop (Wrote 0) c"

definition stopRead :: "bool \<Rightarrow> tcp_connection \<Rightarrow> tcp_connection option" where
  "stopRead inLoop c = runInLoop inLoop F_stopReadInLoop (Wrote 0) c"

definition connectEstablished :: "tcp_connection \<Rightarrow> tcp_connection option" where
  "connectEstablished c = do {
     require (conn_state c = kConnecting);
     let c = setState kConnected c;
     let c = c\<lparr>conn_channel := enableReading (tie (conn_channel c))\<rparr>;
     Some (connectionCallback c) }"

definition connectDestroyed :: "tcp_connection \<Rightarrow> tcp_connection option" where
  "connectDestroyed c = do {
     let c = (if conn_state c = kConnected
              then connectionCallback ((setState kDisconnected c)\<lparr>conn_channel := disableAll (conn_channel c)\<rparr>)
              else c);
     ch \<leftarrow> channel_remove (conn_channel c);
     Some (c\<lparr>conn_channel := ch\<rparr>) }"

subsection \<open>Runs\<close>

datatype conn_event =
    E_established
  | E_send bool string write_answer
  | E_shutdown bool
  | E_forceClose
  | E_forceCloseWithDelay rat
  | E_delay_expired
  | E_startRead bool
  | E_stopRead bool
  | E_take_input nat
  | E_run write_answer
  | E_channel u32 int read_answer write_answer
  | E_call_tests other_call
  | E_call_sets other_call
  | E_call_hands_over other_call
  | E_destroyed

text \<open>What the poller reports and the loop dispatches: \<open>set_revents\<close>, then \<open>handleEvent\<close>.\<close>

definition channel_event :: "u32 \<Rightarrow> int \<Rightarrow> read_answer \<Rightarrow> write_answer \<Rightarrow> tcp_connection \<Rightarrow> tcp_connection option" where
  "channel_event r t rans wans c =
     handleEvent conn_channel conn_channel_update (conn_callbacks rans wans) t True
       (c\<lparr>conn_channel := set_revents r (conn_channel c)\<rparr>)"

fun conn_do :: "conn_event \<Rightarrow> tcp_connection \<Rightarrow> tcp_connection option" where
  "conn_do E_established c = connectEstablished c"
| "conn_do (E_send inLoop s ans) c = send inLoop s ans c"
| "conn_do (E_shutdown inLoop) c = shutdown inLoop c"
| "conn_do E_forceClose c = Some (forceClose c)"
| "conn_do (E_forceCloseWithDelay s) c = Some (forceCloseWithDelay s c)"
| "conn_do E_delay_expired c = Some (forceClose (c\<lparr>delayed_closes := tl (delayed_closes c)\<rparr>))"
| "conn_do (E_startRead inLoop) c = startRead inLoop c"
| "conn_do (E_stopRead inLoop) c = stopRead inLoop c"
| "conn_do (E_take_input n) c = map_option (\<lambda>b. c\<lparr>inputBuffer := b\<rparr>) (retrieve (inputBuffer c) n)"
| "conn_do (E_run ans) c = (case queued c of [] \<Rightarrow> Some c | f # fs \<Rightarrow> run_functor f ans (c\<lparr>queued := fs\<rparr>))"
| "conn_do (E_channel r t rans wans) c = channel_event r t rans wans c"
| "conn_do (E_call_tests k) c = Some (call_tests k c)"
| "conn_do (E_call_sets k) c = Some (call_sets k c)"
| "conn_do (E_call_hands_over k) c = Some (call_hands_over k c)"
| "conn_do E_destroyed c = connectDestroyed c"

text \<open>
  When \<open>sendInLoop\<close> has no hope for a message: the connection is closed, or nothing waits before it
  and the kernel answers that the peer is gone (EPIPE, ECONNRESET).
\<close>

definition hopeless :: "write_answer \<Rightarrow> tcp_connection \<Rightarrow> bool" where
  "hopeless ans c \<longleftrightarrow> conn_state c = kDisconnected
     \<or> \<not> isWriting (conn_channel c) \<and> (ans = Write_Failed EPIPE \<or> ans = Write_Failed ECONNRESET)"

text \<open>The messages an event hands to \<open>sendInLoop\<close>, each with whether there is hope for it.\<close>

fun handed :: "conn_event \<Rightarrow> tcp_connection \<Rightarrow> (string \<times> bool) list" where
  "handed (E_send inLoop s ans) c = (if inLoop \<and> conn_state c = kConnected then [(s, \<not> hopeless ans c)] else [])"
| "handed (E_run ans) c = (case queued c of F_sendInLoop s # fs \<Rightarrow> [(s, \<not> hopeless ans c)] | _ \<Rightarrow> [])"
| "handed e c = []"

text \<open>
  What write(2) may answer for \<open>len\<close> bytes: at most \<open>len\<close> of them taken, and EPIPE once the write side
  is shut down. What poll(2) may report: an event of a channel that listens, or that listened when the
  poll was made and whose connection is up since (\<open>stopRead\<close> in a callback before it), and no
  urgent data or half-close without POLLIN on a hang-up. readv(2) delivers at most the room given.
  A call in another thread makes its steps in their order.
\<close>

definition write_may :: "tcp_connection \<Rightarrow> nat \<Rightarrow> write_answer \<Rightarrow> bool" where
  "write_may c len ans = (case ans of Wrote n \<Rightarrow> n \<le> len \<and> \<not> sock_shutdown c
     | Write_Failed e \<Rightarrow> sock_shutdown c \<longrightarrow> e = EPIPE)"

fun may :: "conn_event \<Rightarrow> tcp_connection \<Rightarrow> bool" where
  "may E_established c = (conn_state c = kConnecting)"
| "may (E_send inLoop s ans) c = write_may c (length s) ans"
| "may (E_run ans) c = (case queued c of F_sendInLoop s # fs \<Rightarrow> write_may c (length s) ans | _ \<Rightarrow> True)"
| "may (E_take_input n) c = (n \<le> readableBytes (inputBuffer c))"
| "may (E_channel r t rans wans) c =
     ((\<not> isNoneEvent (conn_channel c) \<or> live c)
      \<and> (has r POLLHUP \<and> \<not> has r POLLIN \<longrightarrow> \<not> has r (POLLPRI OR POLLRDHUP))
      \<and> (case rans of Read_Data d \<Rightarrow> length d \<le> readv_room (inputBuffer c) | Read_Error e \<Rightarrow> True)
      \<and> write_may c (readableBytes (outputBuffer c)) wans)"
| "may (E_call_sets k) c = (Tested k \<in> set (in_calls c) \<and> last_stage k = Marked k)"
| "may (E_call_hands_over k) c = (last_stage k \<in> set (in_calls c))"
| "may e c = True"

text \<open>
  The order a user has to keep, because the code does not: \<open>setState(kDisconnecting)\<close> in another thread
  is not overtaken by a close of the connection (the comments in the source ask for a compare and swap),
  and reading is started again only on a connection that is up. The lemmas \<open>overtaken_close\<close> and
  \<open>startRead_after_close_aborts\<close> show what happens otherwise.
\<close>

fun calm :: "conn_event \<Rightarrow> tcp_connection \<Rightarrow> bool" where
  "calm (E_call_sets k) c \<longleftrightarrow> conn_state c \<noteq> kDisconnected"
| "calm (E_startRead inLoop) c \<longleftrightarrow> (inLoop \<longrightarrow> live c)"
| "calm (E_run ans) c \<longleftrightarrow> (case queued c of F_startReadInLoop # fs \<Rightarrow> live c | _ \<Rightarrow> True)"
| "calm e c \<longleftrightarrow> True"

inductive conn_run :: "tcp_connection \<Rightarrow> (string \<times> bool) list \<Rightarrow> tcp_connection \<Rightarrow> bool" for c0 where
  run_start: "conn_run c0 [] c0"
| run_step: "conn_run c0 msgs c \<Longrightarrow> may e c \<Longrightarrow> calm e c \<Longrightarrow> conn_do e c = Some c' \<Longrightarrow>
    conn_run c0 (msgs @ handed e c) c'"

text \<open>The messages there was hope for.\<close>

definition hopeful :: "(string \<times> bool) list \<Rightarrow> string" where
  "hopeful msgs = concat (map fst (filter snd msgs))"

lemma hopeful_append [simp]: "hopeful [] = []" "hopeful (ms @ ns) = hopeful ms @ hopeful ns"
  "hopeful ((m, b) # ms) = (if b then m else []) @ hopeful ms"
  by (simp_all add: hopeful_def)

subsection \<open>The invariant\<close>

definition stream :: "tcp_connection \<Rightarrow> string" where
  "stream c = sock_sent c @ contents (outputBuffer c)"

text \<open>What the connection callback has told the user: true for up, false for down.\<close>

fun updowns :: "notice list \<Rightarrow> bool list" where
  "updowns [] = []"
| "updowns (Connection_Callback b # ns) = b # updowns ns"
| "updowns (_ # ns) = updowns ns"

fun told :: "StateE \<Rightarrow> bool list" where
  "told kConnecting = []"
| "told kConnected = [True]"
| "told kDisconnecting = [True]"
| "told kDisconnected = [True, False]"

definition closing :: "StateE \<Rightarrow> bool" where
  "closing s \<longleftrightarrow> s = kDisconnecting \<or> s = kDisconnected"

text \<open>A connection that is not up watches nothing.\<close>

definition conn_inv :: "tcp_connection \<Rightarrow> bool" where
  "conn_inv c \<longleftrightarrow> interest_ok (conn_channel c) \<and> buffer_ok (inputBuffer c) \<and> buffer_ok (outputBuffer c)
     \<and> (conn_state c \<noteq> kDisconnected \<longrightarrow> (isWriting (conn_channel c) \<longleftrightarrow> contents (outputBuffer c) \<noteq> []))
     \<and> (\<not> live c \<longrightarrow> isNoneEvent (conn_channel c))
     \<and> (sock_shutdown c \<longrightarrow> closing (conn_state c)
          \<and> (conn_state c = kDisconnecting \<longrightarrow> contents (outputBuffer c) = []))
     \<and> (F_shutdownInLoop \<in> set (queued c) \<longrightarrow> closing (conn_state c))
     \<and> ((\<exists>k. Marked k \<in> set (in_calls c)) \<longrightarrow> closing (conn_state c))
     \<and> (conn_state c = kConnecting \<longrightarrow> in_calls c = [] \<and> (\<forall>s. F_sendInLoop s \<notin> set (queued c)))
     \<and> updowns (notices c) = told (conn_state c)"

lemma conn_invD:
  assumes "conn_inv c"
  shows "interest_ok (conn_channel c)" "buffer_ok (inputBuffer c)" "buffer_ok (outputBuffer c)"
    "conn_state c \<noteq> kDisconnected \<Longrightarrow> isWriting (conn_channel c) \<longleftrightarrow> contents (outputBuffer c) \<noteq> []"
    "conn_state c = kDisconnected \<Longrightarrow> \<not> isWriting (conn_channel c)"
    "sock_shutdown c \<Longrightarrow> closing (conn_state c)"
    "sock_shutdown c \<Longrightarrow> conn_state c = kDisconnecting \<Longrightarrow> contents (outputBuffer c) = []"
    "F_shutdownInLoop \<in> set (queued c) \<Longrightarrow> closing (conn_state c)"
    "updowns (notices c) = told (conn_state c)"
    "\<not> live c \<Longrightarrow> isNoneEvent (conn_channel c)"
    "Marked k \<in> set (in_calls c) \<Longrightarrow> closing (conn_state c)"
    "conn_state c = kConnecting \<Longrightarrow> in_calls c = []"
    "F_sendInLoop s \<in> set (queued c) \<Longrightarrow> conn_state c \<noteq> kConnecting"
  using assms interest_none [of "conn_channel c"] by (auto simp: conn_inv_def live_def)

lemma live_state: "live c \<longleftrightarrow> conn_state c \<noteq> kConnecting \<and> conn_state c \<noteq> kDisconnected"
  by (cases "conn_state c") (auto simp: live_def)

lemma updowns_append [simp]: "updowns (a @ b) = updowns a @ updowns b"
  by (induction a rule: updowns.induct) auto

lemma readable_zero: "buffer_ok b \<Longrightarrow> readableBytes b = 0 \<longleftrightarrow> contents b = []"
  using length_contents [of b] by auto

lemma conn_inv_frame [simp]:
  "conn_inv (c\<lparr>delayed_closes := ds\<rparr>) = conn_inv c"
  "conn_inv (conn_channel_update (eventHandling_update f) c) = conn_inv c"
  "conn_inv (c\<lparr>conn_channel := set_revents r (conn_channel c)\<rparr>) = conn_inv c"
  "stream (conn_channel_update g c) = stream c"
  "stream (c\<lparr>delayed_closes := ds\<rparr>) = stream c"
proof -
  have flag: "interest_ok (eventHandling_update f ch) = interest_ok ch"
      "isWriting (eventHandling_update f ch) = isWriting ch"
      "isNoneEvent (eventHandling_update f ch) = isNoneEvent ch" for ch
    by (simp_all add: interest_ok_def isWriting_def isNoneEvent_def)
  show "conn_inv (c\<lparr>delayed_closes := ds\<rparr>) = conn_inv c"
    by (simp add: conn_inv_def live_def)
  show "conn_inv (conn_channel_update (eventHandling_update f) c) = conn_inv c"
    by (simp add: conn_inv_def live_def flag)
  show "conn_inv (c\<lparr>conn_channel := set_revents r (conn_channel c)\<rparr>) = conn_inv c"
    by (simp add: conn_inv_def live_def set_revents_def)
qed (simp_all add: stream_def)

lemma new_TcpConnection_inv: "conn_inv (new_TcpConnection fd wc hw mark)"
  "stream (new_TcpConnection fd wc hw mark) = []"
  by (simp_all add: conn_inv_def new_TcpConnection_def stream_def)

lemma queueFunctor_inv:
  "conn_inv c \<Longrightarrow> (f = F_shutdownInLoop \<Longrightarrow> closing (conn_state c)) \<Longrightarrow>
    (\<And>s. f = F_sendInLoop s \<Longrightarrow> conn_state c \<noteq> kConnecting) \<Longrightarrow> conn_inv (queueFunctor f c)"
  "stream (queueFunctor f c) = stream c"
  by (auto simp: conn_inv_def queueFunctor_def stream_def live_def)

lemma queueFunctor_frame [simp]:
  "conn_inv c \<Longrightarrow> f \<noteq> F_shutdownInLoop \<Longrightarrow> (\<And>s. f \<noteq> F_sendInLoop s) \<Longrightarrow> conn_inv (queueFunctor f c)"
  "stream (queueFunctor f c) = stream c" "conn_state (queueFunctor f c) = conn_state c"
  "sock_shutdown (queueFunctor f c) = sock_shutdown c" "conn_channel (queueFunctor f c) = conn_channel c"
  "outputBuffer (queueFunctor f c) = outputBuffer c" "sock_sent (queueFunctor f c) = sock_sent c"
  "live (queueFunctor f c) = live c"
  by (auto simp: conn_inv_def queueFunctor_def stream_def live_def)

lemma dequeue_inv: "conn_inv c \<Longrightarrow> queued c = f # fs \<Longrightarrow> conn_inv (c\<lparr>queued := fs\<rparr>)"
  "stream (c\<lparr>queued := fs\<rparr>) = stream c"
  by (auto simp: conn_inv_def stream_def live_def)

lemma notify_inv:
  "conn_inv c \<Longrightarrow> updowns [n] = [] \<Longrightarrow> conn_inv (notify n c)" "stream (notify n c) = stream c"
  by (auto simp: conn_inv_def notify_def stream_def live_def)

subsection \<open>Every operation keeps it\<close>

text \<open>
  \<open>sendInLoop\<close> never aborts; it delivers the whole message behind what was there, or nothing of it
  when there is no hope.
\<close>

lemma append_remaining_inv:
  assumes "conn_inv c" "live c" "\<not> sock_shutdown c" "s \<noteq> []"
  shows "\<exists>c'. append_remaining s c = Some c' \<and> conn_inv c' \<and> conn_state c' = conn_state c
    \<and> stream c' = stream c @ s"
proof -
  define c1 where "c1 = (if highWaterMark c \<le> readableBytes (outputBuffer c) + length s
      \<and> readableBytes (outputBuffer c) < highWaterMark c \<and> has_highWater c
    then queueFunctor (F_highWater (readableBytes (outputBuffer c) + length s)) c else c)"
  have c1: "conn_inv c1" "stream c1 = stream c" "conn_state c1 = conn_state c" "sock_shutdown c1 = sock_shutdown c"
    using assms(1) by (simp_all add: c1_def)
  then have up: "live c1" using assms(2) by (simp add: live_def)
  note inv = conn_invD [OF c1(1)]
  obtain out where out: "buffer_append (outputBuffer c1) s = Some out" "buffer_ok out"
      "contents out = contents (outputBuffer c1) @ s"
    using buffer_append_abs [OF inv(3)] by blast
  define c2 where "c2 = (if \<not> isWriting (conn_channel c1)
      then c1\<lparr>outputBuffer := out, conn_channel := enableWriting (conn_channel c1)\<rparr> else c1\<lparr>outputBuffer := out\<rparr>)"
  have "append_remaining s c = Some c2"
    using out(1) by (simp add: append_remaining_def c1_def [symmetric] c2_def Let_def)
  moreover have "conn_inv c2"
    using c1(1) up assms(3,4) c1(4) out(2,3) by (simp add: conn_inv_def c2_def live_state)
  moreover have "conn_state c2 = conn_state c" "stream c2 = stream c @ s"
    using c1(2,3) out(3) by (simp_all add: c2_def stream_def)
  ultimately show ?thesis by blast
qed

lemma write_directly_inv:
  assumes "conn_inv c" "live c" "write_may c (length s) ans"
    "write_directly s ans c = (nwrote, fault, c')"
  shows "conn_inv c'" "conn_state c' = conn_state c" "sock_shutdown c' = sock_shutdown c"
    "stream c' = stream c @ take nwrote s" "nwrote \<le> length s"
    "fault \<longleftrightarrow> hopeless ans c" "fault \<Longrightarrow> nwrote = 0" "sock_shutdown c \<Longrightarrow> fault"
proof -
  note inv = conn_invD [OF assms(1)]
  have up: "conn_state c \<noteq> kDisconnected" using assms(2) by (simp add: live_state)
  have direct: "readableBytes (outputBuffer c) = 0 \<longleftrightarrow> \<not> isWriting (conn_channel c)"
      "contents (outputBuffer c) = [] \<longleftrightarrow> \<not> isWriting (conn_channel c)"
    using inv(3,4) up readable_zero by auto
  have w: "\<not> isWriting (conn_channel c) \<Longrightarrow> write_result ans = (nwrote, fault)"
      "isWriting (conn_channel c) \<Longrightarrow> nwrote = 0 \<and> \<not> fault \<and> c' = c"
    using assms(4) by (auto simp: write_directly_def direct Let_def split: prod.splits)
  have c': "\<not> isWriting (conn_channel c) \<Longrightarrow> c' = c\<lparr>sock_sent := sock_sent c @ take nwrote s\<rparr>
      \<or> c' = queueFunctor F_writeComplete (c\<lparr>sock_sent := sock_sent c @ take nwrote s\<rparr>)"
    using assms(4) w(1) by (auto simp: write_directly_def direct Let_def split: prod.splits if_splits)
  have sent: "conn_inv (c\<lparr>sock_sent := x\<rparr>)" for x
    using assms(1) by (simp add: conn_inv_def live_def)
  show "conn_inv c'" using c' w(2) sent assms(1) by (cases "isWriting (conn_channel c)") auto
  show "conn_state c' = conn_state c" "sock_shutdown c' = sock_shutdown c"
    using c' w(2) by (cases "isWriting (conn_channel c)"; auto)+
  show "stream c' = stream c @ take nwrote s"
    using c' w(2) direct(2) by (cases "isWriting (conn_channel c)") (auto simp: stream_def)
  show "nwrote \<le> length s"
    using w assms(3) by (cases "isWriting (conn_channel c)"; cases ans) (auto simp: write_may_def)
  show "fault \<longleftrightarrow> hopeless ans c"
    using w up by (cases "isWriting (conn_channel c)"; cases ans) (auto simp: hopeless_def write_errnos)
  show "fault \<Longrightarrow> nwrote = 0"
    using w by (cases "isWriting (conn_channel c)"; cases ans) auto
  show "sock_shutdown c \<Longrightarrow> fault"
    using w inv(6,7) up assms(3) direct(2)
    by (cases "isWriting (conn_channel c)"; cases ans) (auto simp: write_may_def closing_def write_errnos)
qed

lemma sendInLoop_inv:
  assumes "conn_inv c" "write_may c (length s) ans" "conn_state c \<noteq> kConnecting"
  shows "\<exists>c'. sendInLoop s ans c = Some c' \<and> conn_inv c' \<and> conn_state c' = conn_state c
    \<and> stream c' = stream c @ (if hopeless ans c then [] else s)"
proof (cases "conn_state c = kDisconnected")
  case True
  with assms(1) show ?thesis by (simp add: sendInLoop_def hopeless_def)
next
  case False
  with assms(3) have up: "live c" by (simp add: live_state)
  obtain nw fault c1 where wd: "write_directly s ans c = (nw, fault, c1)"
    by (cases "write_directly s ans c") auto
  note c1 = write_directly_inv [OF assms(1) up assms(2) wd]
  have run: "sendInLoop s ans c =
      (if \<not> fault \<and> 0 < length s - nw then append_remaining (drop nw s) c1 else Some c1)"
    using up wd c1(5) by (simp add: sendInLoop_def live_state)
  show ?thesis
  proof (cases "\<not> fault \<and> 0 < length s - nw")
    case False
    with run c1 show ?thesis by auto
  next
    case True
    have "\<not> sock_shutdown c1" "drop nw s \<noteq> []" "live c1"
      using True c1(2,3,8) up by (auto simp: live_def)
    from append_remaining_inv [OF c1(1) this(3,1,2)] True run c1(2,4,6) show ?thesis by auto
  qed
qed

lemma shutdownInLoop_inv:
  "conn_inv c \<Longrightarrow> closing (conn_state c) \<Longrightarrow> conn_inv (shutdownInLoop c)"
  "stream (shutdownInLoop c) = stream c"
  by (auto simp: shutdownInLoop_def conn_inv_def stream_def live_def)

lemma readInLoop_inv:
  "conn_inv c \<Longrightarrow> live c \<Longrightarrow> conn_inv (startReadInLoop c)" "stream (startReadInLoop c) = stream c"
  "conn_inv c \<Longrightarrow> conn_inv (stopReadInLoop c)" "stream (stopReadInLoop c) = stream c"
proof -
  show "conn_inv c \<Longrightarrow> live c \<Longrightarrow> conn_inv (startReadInLoop c)"
    by (cases "conn_state c") (simp_all add: startReadInLoop_def conn_inv_def live_def)
  show "conn_inv c \<Longrightarrow> conn_inv (stopReadInLoop c)"
    by (simp add: stopReadInLoop_def conn_inv_def live_def)
qed (simp_all add: startReadInLoop_def stopReadInLoop_def stream_def)

lemma setState_Disconnecting_inv:
  "conn_inv c \<Longrightarrow> live c \<Longrightarrow> conn_inv (setState kDisconnecting c)"
  "stream (setState s c) = stream c"
  by (cases "conn_state c"; simp add: setState_def conn_inv_def closing_def live_def)
    (simp add: setState_def stream_def)

text \<open>What handleClose and connectDestroyed share: the connection goes down and the user is told.\<close>

lemma teardown_inv:
  assumes "conn_inv c" "conn_state c = kConnected \<or> conn_state c = kDisconnecting"
  shows "conn_inv (connectionCallback ((setState kDisconnected c)\<lparr>conn_channel := disableAll (conn_channel c)\<rparr>))"
    "stream (connectionCallback ((setState kDisconnected c)\<lparr>conn_channel := disableAll (conn_channel c)\<rparr>)) = stream c"
  using assms
  by (auto simp: setState_def connectionCallback_def notify_def connected_now_def conn_inv_def
      stream_def closing_def live_def)

lemma handleClose_inv:
  assumes "conn_inv c" "conn_state c = kConnected \<or> conn_state c = kDisconnecting"
  shows "\<exists>c'. handleClose c = Some c' \<and> conn_inv c' \<and> stream c' = stream c \<and> conn_state c' = kDisconnected
    \<and> outputBuffer c' = outputBuffer c \<and> sock_shutdown c' = sock_shutdown c
    \<and> revents (conn_channel c') = revents (conn_channel c) \<and> inputBuffer c' = inputBuffer c"
proof -
  let ?c = "connectionCallback ((setState kDisconnected c)\<lparr>conn_channel := disableAll (conn_channel c)\<rparr>)"
  have "handleClose c = Some (notify Close_Callback ?c)"
    using assms(2) by (auto simp: handleClose_def setState_def)
  moreover have "conn_inv (notify Close_Callback ?c)" "stream (notify Close_Callback ?c) = stream c"
    using teardown_inv [OF assms] by (simp_all add: notify_inv)
  ultimately show ?thesis
    by (simp add: notify_def connectionCallback_def setState_def)
qed

lemma forceCloseInLoop_inv:
  "conn_inv c \<Longrightarrow> \<exists>c'. forceCloseInLoop c = Some c' \<and> conn_inv c' \<and> stream c' = stream c"
  using handleClose_inv [of c] by (auto simp: forceCloseInLoop_def)

lemma handleRead_inv:
  assumes "conn_inv c" "conn_state c = kConnected \<or> conn_state c = kDisconnecting"
    "case rans of Read_Data d \<Rightarrow> length d \<le> readv_room (inputBuffer c) | Read_Error e \<Rightarrow> True"
  shows "\<exists>c'. handleRead rans t c = Some c' \<and> conn_inv c' \<and> stream c' = stream c
    \<and> outputBuffer c' = outputBuffer c \<and> sock_shutdown c' = sock_shutdown c
    \<and> revents (conn_channel c') = revents (conn_channel c)"
proof (cases rans)
  case (Read_Error e)
  with assms(1) show ?thesis by (auto simp: handleRead_def handleError_def conn_inv_def stream_def live_def)
next
  case (Read_Data d)
  obtain b where b: "readFd (inputBuffer c) rans = Some (int (length d), None, b)" "buffer_ok b"
    using readFd_abs [OF conn_invD(2) [OF assms(1)], of d] assms(3) Read_Data by auto
  let ?c = "c\<lparr>inputBuffer := b\<rparr>"
  have c: "conn_inv ?c" "stream ?c = stream c"
    using assms(1) b(2) by (simp_all add: conn_inv_def stream_def live_def)
  show ?thesis
  proof (cases "d = []")
    case True
    with handleClose_inv [OF c(1)] assms(2) b(1) c(2) show ?thesis by (auto simp: handleRead_def)
  next
    case False
    with b(1) c notify_inv(1) [OF c(1), of "Message_Callback t"] show ?thesis
      by (simp add: handleRead_def notify_inv(2)) (simp add: notify_def)
  qed
qed

text \<open>
  \<open>handleWrite\<close> moves bytes from the front of the backlog to the kernel and stops writing, and shuts
  down a closing connection, exactly when the backlog is empty.
\<close>

lemma handleWrite_inv:
  assumes "conn_inv c" "write_may c (readableBytes (outputBuffer c)) ans"
  shows "\<exists>c'. handleWrite ans c = Some c' \<and> conn_inv c' \<and> stream c' = stream c"
proof (cases "\<exists>n. isWriting (conn_channel c) \<and> ans = Wrote n \<and> 0 < n")
  case False
  then have "handleWrite ans c = Some c"
    by (auto simp: handleWrite_def split: write_answer.split)
  with assms show ?thesis by simp
next
  case True
  then obtain n where n: "isWriting (conn_channel c)" "ans = Wrote n" "0 < n" by blast
  note inv = conn_invD [OF assms(1)]
  have len: "n \<le> length (contents (outputBuffer c))" and open_c: "\<not> sock_shutdown c"
    using assms(2) n(2) inv(3) by (auto simp: write_may_def length_contents)
  obtain out where out: "retrieve (outputBuffer c) n = Some out" "buffer_ok out"
      "contents out = drop n (contents (outputBuffer c))"
    using retrieve_abs [OF inv(3) len] by blast
  have up: "conn_state c \<noteq> kDisconnected" using inv(5) n(1) by blast
  define c1 where "c1 = c\<lparr>sock_sent := sock_sent c @ take n (contents (outputBuffer c)), outputBuffer := out\<rparr>"
  have st: "stream c1 = stream c" using out(3) by (simp add: stream_def c1_def)
  show ?thesis
  proof (cases "contents out = []")
    case empty: True
    define c2 where "c2 = (let c = c1\<lparr>conn_channel := disableWriting (conn_channel c1)\<rparr>
      in if has_writeComplete c then queueFunctor F_writeComplete c else c)"
    have "conn_inv (c1\<lparr>conn_channel := disableWriting (conn_channel c1)\<rparr>)"
      using assms(1) out(2) empty open_c up by (simp add: conn_inv_def c1_def live_def)
    then have c2: "conn_inv c2" "stream c2 = stream c" "conn_state c2 = conn_state c"
      using st by (simp_all add: c2_def Let_def) (simp add: c1_def)
    have "handleWrite ans c = Some (if conn_state c2 = kDisconnecting then shutdownInLoop c2 else c2)"
      using n out(1,2) empty readable_zero [of out]
      by (simp add: handleWrite_def c2_def Let_def c1_def)
    with c2 show ?thesis by (auto simp: shutdownInLoop_inv closing_def)
  next
    case False
    have "handleWrite ans c = Some c1"
      using n out(1,2) False readable_zero [of out] by (simp add: handleWrite_def c1_def)
    moreover have "conn_inv c1"
      using assms(1) out(2) False open_c up n(1) by (simp add: conn_inv_def c1_def live_def)
    ultimately show ?thesis using st by blast
  qed
qed

lemma run_functor_inv:
  assumes "conn_inv c" "f = F_shutdownInLoop \<Longrightarrow> closing (conn_state c)" "f = F_startReadInLoop \<Longrightarrow> live c"
    "\<And>s. f = F_sendInLoop s \<Longrightarrow> write_may c (length s) ans \<and> conn_state c \<noteq> kConnecting"
  shows "\<exists>c'. run_functor f ans c = Some c' \<and> conn_inv c'
    \<and> stream c' = stream c @ (case f of F_sendInLoop s \<Rightarrow> if hopeless ans c then [] else s | _ \<Rightarrow> [])"
proof (cases f)
  case (F_sendInLoop s)
  with sendInLoop_inv [OF assms(1), of s ans] assms(4) [OF F_sendInLoop] show ?thesis by auto
next
  case F_forceCloseInLoop
  with forceCloseInLoop_inv [OF assms(1)] show ?thesis by auto
qed (use assms in \<open>auto simp: shutdownInLoop_inv readInLoop_inv notify_inv\<close>)

lemma channel_event_inv:
  assumes "conn_inv c" "may (E_channel r t rans wans) c"
  shows "\<exists>c'. channel_event r t rans wans c = Some c' \<and> conn_inv c' \<and> stream c' = stream c"
proof -
  let ?cb = "conn_callbacks rans wans" and ?flag = "\<lambda>b. conn_channel_update (eventHandling_update (\<lambda>_. b))"
  define c1 where "c1 = ?flag True (c\<lparr>conn_channel := set_revents r (conn_channel c)\<rparr>)"
  have "conn_inv (?flag True (c\<lparr>conn_channel := set_revents r (conn_channel c)\<rparr>))"
    unfolding conn_inv_frame by (rule assms(1))
  then have c1: "conn_inv c1" "stream c1 = stream c" "conn_state c1 = conn_state c" "outputBuffer c1 = outputBuffer c"
      "sock_shutdown c1 = sock_shutdown c" "inputBuffer c1 = inputBuffer c" "revents (conn_channel c1) = r"
    by (simp_all only: c1_def) (simp_all add: stream_def set_revents_def)
  have up: "conn_state c1 = kConnected \<or> conn_state c1 = kDisconnecting"
    using assms(2) conn_invD(10) [OF assms(1)] c1(3) by (auto simp: live_def)
  let ?hup = "has r POLLHUP \<and> \<not> has r POLLIN" and ?in = "has r (POLLIN OR POLLPRI OR POLLRDHUP)"
  have excl: "?hup \<Longrightarrow> \<not> ?in"
    using assms(2) by (auto simp: has_or)
  define m where "m = (if ?hup then handleClose c1 else if ?in then handleRead rans t c1 else Some c1)"
  obtain c2 where c2: "m = Some c2" "conn_inv c2" "stream c2 = stream c" "outputBuffer c2 = outputBuffer c"
      "sock_shutdown c2 = sock_shutdown c" "revents (conn_channel c2) = r"
  proof -
    have room: "case rans of Read_Data d \<Rightarrow> length d \<le> readv_room (inputBuffer c1) | Read_Error e \<Rightarrow> True"
      using assms(2) c1(6) by (cases rans) simp_all
    have "\<exists>c2. m = Some c2 \<and> conn_inv c2 \<and> stream c2 = stream c1 \<and> outputBuffer c2 = outputBuffer c1
        \<and> sock_shutdown c2 = sock_shutdown c1 \<and> revents (conn_channel c2) = revents (conn_channel c1)"
      unfolding m_def using handleClose_inv [OF c1(1) up] handleRead_inv [OF c1(1) up room, of t] c1(1)
      by (cases ?hup; cases ?in) (simp_all only: if_True if_False, auto)
    with c1 that show ?thesis by auto
  qed
  have "write_may c2 (readableBytes (outputBuffer c2)) wans"
    using assms(2) c2(4,5) by (cases wans) (simp_all add: write_may_def)
  from handleWrite_inv [OF c2(2) this] obtain c3 where
    c3: "handleWrite wans c2 = Some c3" "conn_inv c3" "stream c3 = stream c" using c2(3) by auto
  have guard: "channel_event r t rans wans c = do {
      s \<leftarrow> (if ?hup then handleClose c1 else Some c1);
      s \<leftarrow> (if has (revents (conn_channel s)) (POLLIN OR POLLPRI OR POLLRDHUP) then handleRead rans t s else Some s);
      s \<leftarrow> (if has (revents (conn_channel s)) POLLOUT then handleWrite wans s else Some s);
      Some (?flag False s) }"
    using c1(7) by (simp add: channel_event_def handleEvent_def handleEventWithGuard_def conn_callbacks_def
        handleError_def c1_def [symmetric] Let_def cong: if_cong)
  also have "\<dots> = do { s \<leftarrow> (if has r POLLOUT then handleWrite wans c2 else Some c2); Some (?flag False s) }"
    using c2(1,6) c1(7) excl by (cases ?hup; cases ?in) (auto simp: m_def)
  finally show ?thesis
    using c2(2,3) c3 by (auto simp: conn_inv_frame)
qed

lemma connectEstablished_inv:
  "conn_inv c \<Longrightarrow> conn_state c = kConnecting \<Longrightarrow>
   \<exists>c'. connectEstablished c = Some c' \<and> conn_inv c' \<and> stream c' = stream c"
  by (auto simp: connectEstablished_def setState_def connectionCallback_def connected_now_def notify_def
      conn_inv_def stream_def closing_def live_def)

lemma connectDestroyed_inv:
  assumes "conn_inv c" "connectDestroyed c = Some c'"
  shows "conn_inv c' \<and> stream c' = stream c"
proof -
  define c1 where "c1 = (if conn_state c = kConnected
    then connectionCallback ((setState kDisconnected c)\<lparr>conn_channel := disableAll (conn_channel c)\<rparr>) else c)"
  have c1: "conn_inv c1" "stream c1 = stream c"
    using assms(1) teardown_inv [OF assms(1)] by (simp_all add: c1_def)
  obtain ch where "channel_remove (conn_channel c1) = Some ch" "c' = c1\<lparr>conn_channel := ch\<rparr>"
    using assms(2) by (auto simp: connectDestroyed_def c1_def [symmetric] Let_def bind_Some_iff)
  then have "c' = c1\<lparr>conn_channel := (conn_channel c1)\<lparr>addedToLoop := False\<rparr>\<rparr>"
    by (auto simp: channel_remove_def run_simps)
  with c1 show ?thesis by (simp add: conn_inv_def stream_def live_def)
qed

lemma shutdown_inv:
  "conn_inv c \<Longrightarrow> \<exists>c'. shutdown inLoop c = Some c' \<and> conn_inv c' \<and> stream c' = stream c"
  using setState_Disconnecting_inv(1) [of c] setState_Disconnecting_inv(2) [of kDisconnecting c]
  by (auto simp: shutdown_def runInLoop_def shutdownInLoop_inv queueFunctor_inv(1) setState_def closing_def live_def)

lemma forceClose_inv:
  "conn_inv c \<Longrightarrow> conn_inv (forceClose c)" "stream (forceClose c) = stream c"
  "conn_inv c \<Longrightarrow> conn_inv (forceCloseWithDelay d c)" "stream (forceCloseWithDelay d c) = stream c"
  using setState_Disconnecting_inv(1) [of c] setState_Disconnecting_inv(2) [of kDisconnecting c]
  by (auto simp: forceClose_def forceCloseWithDelay_def live_def)

text \<open>The steps of a call in another thread.\<close>

lemma call_tests_inv: "conn_inv c \<Longrightarrow> conn_inv (call_tests k c)" "stream (call_tests k c) = stream c"
  by (cases k; auto simp: call_tests_def conn_inv_def live_def stream_def)+

lemma call_sets_inv:
  assumes "conn_inv c" "Tested k \<in> set (in_calls c)" "conn_state c \<noteq> kDisconnected"
  shows "conn_inv (call_sets k c)" "stream (call_sets k c) = stream c" "live c"
proof -
  show up: "live c" using conn_invD(12) [OF assms(1)] assms(2,3) by (auto simp: live_state)
  have "conn_inv (d\<lparr>in_calls := ks\<rparr>)" if "conn_inv d" "conn_state d = kDisconnecting" for d ks
    using that by (simp add: conn_inv_def live_def closing_def)
  from this [OF setState_Disconnecting_inv(1) [OF assms(1) up]] show "conn_inv (call_sets k c)"
    unfolding call_sets_def by (simp add: setState_def)
  show "stream (call_sets k c) = stream c"
    by (simp add: call_sets_def setState_def stream_def)
qed

lemma in_calls_inv:
  assumes "conn_inv c" "set ks \<subseteq> set (in_calls c)"
  shows "conn_inv (c\<lparr>in_calls := ks\<rparr>)"
proof -
  have "(\<exists>k. Marked k \<in> set ks) \<longrightarrow> closing (conn_state c)" using conn_invD(11) [OF assms(1)] assms(2) by blast
  moreover have "conn_state c = kConnecting \<longrightarrow> ks = []" using conn_invD(12) [OF assms(1)] assms(2) by auto
  ultimately show ?thesis using assms(1) by (simp add: conn_inv_def live_def)
qed

lemma call_hands_over_inv:
  assumes "conn_inv c" "last_stage k \<in> set (in_calls c)"
  shows "conn_inv (call_hands_over k c)" "stream (call_hands_over k c) = stream c"
proof -
  define d where "d = c\<lparr>in_calls := remove1 (last_stage k) (in_calls c)\<rparr>"
  have inv: "conn_inv d" unfolding d_def using in_calls_inv [OF assms(1) set_remove1_subset] .
  have d: "stream d = stream c" "conn_state d \<noteq> kConnecting"
    using conn_invD(12) [OF assms(1)] assms(2) by (auto simp: stream_def d_def)
  have marked: "k = Other_shutdown \<Longrightarrow> closing (conn_state d)"
    using conn_invD(11) [OF assms(1)] assms(2) by (simp add: d_def)
  have run: "call_hands_over k c = hand_over k d" by (simp add: call_hands_over_def d_def)
  show "conn_inv (call_hands_over k c)"
    unfolding run using queueFunctor_inv(1) [OF inv] inv d(2) marked by (cases k) auto
  show "stream (call_hands_over k c) = stream c"
    unfolding run using d(1) by (cases k) auto
qed

text \<open>One event: it succeeds unless it destroys, and what was handed over with hope is added.\<close>

lemma write_may_queued [simp]: "write_may (c\<lparr>queued := fs\<rparr>) n ans = write_may c n ans"
  by (cases ans) (simp_all add: write_may_def)

lemma queued_frame [simp]:
  "hopeless ans (c\<lparr>queued := fs\<rparr>) = hopeless ans c" "live (c\<lparr>queued := fs\<rparr>) = live c"
  by (simp_all add: hopeless_def live_def)

lemma run_next_inv:
  assumes "conn_inv c" "may (E_run ans) c" "calm (E_run ans) c" "queued c = f # fs"
  shows "\<exists>c'. run_functor f ans (c\<lparr>queued := fs\<rparr>) = Some c' \<and> conn_inv c'
    \<and> stream c' = stream c @ hopeful (handed (E_run ans) c)"
proof -
  let ?c = "c\<lparr>queued := fs\<rparr>"
  have "\<exists>c'. run_functor f ans ?c = Some c' \<and> conn_inv c'
      \<and> stream c' = stream ?c @ (case f of F_sendInLoop s \<Rightarrow> if hopeless ans ?c then [] else s | _ \<Rightarrow> [])"
  proof (rule run_functor_inv [OF dequeue_inv(1) [OF assms(1,4)]])
    show "f = F_shutdownInLoop \<Longrightarrow> closing (conn_state ?c)"
      using conn_invD(8) [OF assms(1)] assms(4) by simp
    show "f = F_startReadInLoop \<Longrightarrow> live ?c" using assms(3,4) by simp
    show "f = F_sendInLoop s \<Longrightarrow> write_may ?c (length s) ans \<and> conn_state ?c \<noteq> kConnecting" for s
      using assms(2,4) conn_invD(13) [OF assms(1), of s] by simp
  qed
  with assms(4) show ?thesis
    by (cases f; cases "hopeless ans c") (simp_all add: dequeue_inv(2))
qed

lemma conn_do_ok:
  assumes "conn_inv c" "may e c" "calm e c" "e \<noteq> E_destroyed"
  shows "\<exists>c'. conn_do e c = Some c' \<and> conn_inv c' \<and> stream c' = stream c @ hopeful (handed e c)"
proof (cases e)
  case (E_send inLoop s ans)
  have "conn_state c = kConnected \<Longrightarrow> conn_inv (queueFunctor (F_sendInLoop s) c)"
    by (rule queueFunctor_inv(1) [OF assms(1)]) simp_all
  with E_send assms sendInLoop_inv [OF assms(1), of s ans] show ?thesis
    by (cases "hopeless ans c") (auto simp: send_def runInLoop_def)
next
  case (E_run ans)
  show ?thesis
  proof (cases "queued c")
    case Nil
    with E_run assms(1) show ?thesis by simp
  next
    case (Cons f fs)
    with run_next_inv [OF assms(1) _ _ Cons] assms(2,3) E_run show ?thesis by auto
  qed
next
  case (E_channel r t rans wans)
  from channel_event_inv [OF assms(1) assms(2) [unfolded E_channel]] E_channel show ?thesis by auto
next
  case E_established
  with connectEstablished_inv [OF assms(1)] assms(2) show ?thesis by auto
next
  case (E_shutdown inLoop)
  with shutdown_inv [OF assms(1), of inLoop] show ?thesis by auto
next
  case (E_take_input n)
  with assms(2) conn_invD(2) [OF assms(1)] obtain b where b: "retrieve (inputBuffer c) n = Some b" "buffer_ok b"
    using retrieve_abs [OF conn_invD(2) [OF assms(1)], of n] by (auto simp: length_contents)
  with E_take_input assms(1) show ?thesis by (simp add: conn_inv_def stream_def live_def)
next
  case (E_startRead inLoop)
  with assms(1,3) show ?thesis by (cases inLoop) (auto simp: startRead_def runInLoop_def readInLoop_inv)
next
  case (E_stopRead inLoop)
  with assms(1) show ?thesis by (cases inLoop) (auto simp: stopRead_def runInLoop_def readInLoop_inv)
next
  case (E_call_tests k)
  with assms(1) show ?thesis by (simp add: call_tests_inv)
next
  case (E_call_sets k)
  with assms(2,3) call_sets_inv [OF assms(1), of k] show ?thesis by simp
next
  case (E_call_hands_over k)
  with assms(2) call_hands_over_inv [OF assms(1), of k] show ?thesis by simp
qed (use assms in \<open>auto simp: forceClose_inv\<close>)

lemma conn_do_inv:
  assumes "conn_inv c" "may e c" "calm e c" "conn_do e c = Some c'"
  shows "conn_inv c' \<and> stream c' = stream c @ hopeful (handed e c)"
proof (cases "e = E_destroyed")
  case True
  with connectDestroyed_inv [OF assms(1)] assms(4) show ?thesis by simp
next
  case False
  from conn_do_ok [OF assms(1-3) this] assms(4) show ?thesis by auto
qed

lemma conn_run_inv:
  assumes "conn_run c0 msgs c" "conn_inv c0"
  shows "conn_inv c \<and> stream c = stream c0 @ hopeful msgs"
  using assms
proof (induction rule: conn_run.induct)
  case (run_step msgs c e c')
  with conn_do_inv [of c e c'] show ?case by simp
qed simp

text \<open>A run given by its events, and a sample one: a half-sent message and a graceful close.\<close>

fun run_events :: "conn_event list \<Rightarrow> tcp_connection \<Rightarrow> (string \<times> bool) list \<Rightarrow> ((string \<times> bool) list \<times> tcp_connection) option" where
  "run_events [] c ms = Some (ms, c)"
| "run_events (e # es) c ms =
     (if may e c \<and> calm e c
      then (case conn_do e c of None \<Rightarrow> None | Some c' \<Rightarrow> run_events es c' (ms @ handed e c)) else None)"

lemma run_events_run: "run_events es c ms = Some (ms', c') \<Longrightarrow> conn_run c0 ms c \<Longrightarrow> conn_run c0 ms' c'"
  by (induction es arbitrary: c ms) (auto split: if_splits option.splits intro: run_step)

text \<open>Events one after the other, also out of the order the user has to keep.\<close>

fun conn_steps :: "conn_event list \<Rightarrow> tcp_connection \<Rightarrow> tcp_connection option" where
  "conn_steps [] c = Some c"
| "conn_steps (e # es) c = (if may e c then do { c \<leftarrow> conn_do e c; conn_steps es c } else None)"

definition sample_conn :: tcp_connection where
  "sample_conn = new_TcpConnection 5 True True 3"

lemma sample_run:
  "\<exists>c. conn_run (new_TcpConnection 5 True True 3) [(''abc'', True), (''de'', True)] c \<and> conn_state c = kDisconnecting
     \<and> sock_sent c = ''a'' \<and> contents (outputBuffer c) = ''bcde'' \<and> isReading (conn_channel c)
     \<and> in_calls c = [Tested Other_forceClose] \<and> queued c = [F_highWater 4]"
proof -
  let ?es = "[E_established, E_send True ''abc'' (Wrote 1), E_send True ''de'' (Wrote 0),
    E_call_tests Other_forceClose, E_shutdown True]"
  have "map_option (\<lambda>(ms, c). (ms, conn_state c, sock_sent c, contents (outputBuffer c), isReading (conn_channel c), in_calls c, queued c))
      (run_events ?es sample_conn [])
    = Some ([(''abc'', True), (''de'', True)], kDisconnecting, ''a'', ''bcde'', True, [Tested Other_forceClose], [F_highWater 4])"
    by code_simp
  then obtain c where r: "run_events ?es sample_conn [] = Some ([(''abc'', True), (''de'', True)], c)" and
      c: "conn_state c = kDisconnecting" "sock_sent c = ''a''" "contents (outputBuffer c) = ''bcde''" "isReading (conn_channel c)"
        "in_calls c = [Tested Other_forceClose]" "queued c = [F_highWater 4]"
    by auto
  from run_events_run [OF r run_start] have
    "conn_run (new_TcpConnection 5 True True 3) [(''abc'', True), (''de'', True)] c"
    unfolding sample_conn_def .
  with c show ?thesis by blast
qed

subsection \<open>Out of the order\<close>

text \<open>The peer has closed: the end of its stream is read.\<close>

abbreviation E_eof :: "int \<Rightarrow> conn_event" where
  "E_eof t \<equiv> E_channel POLLIN t (Read_Data []) (Write_Failed EPIPE)"

lemma may_eof: "may (E_eof t) c \<longleftrightarrow> \<not> isNoneEvent (conn_channel c) \<or> live c"
  by (simp add: write_may_def has_def poll_masks)

lemma eof_closes:
  assumes "conn_inv c"
  shows "conn_do (E_eof t) c = None \<longleftrightarrow> \<not> live c"
    "conn_do (E_eof t) c = Some c' \<Longrightarrow> conn_state c' = kDisconnected \<and> queued c' = queued c \<and> in_calls c' = in_calls c
      \<and> notices c' = notices c @ [Connection_Callback False, Close_Callback]"
proof -
  obtain b where b: "readFd (inputBuffer c) (Read_Data []) = Some (0, None, b)"
    using readFd_abs [OF conn_invD(2) [OF assms], of "[]"] by auto
  define c1 where "c1 = conn_channel_update (eventHandling_update (\<lambda>_. True)) (c\<lparr>conn_channel := set_revents POLLIN (conn_channel c)\<rparr>)"
  have c1: "inputBuffer c1 = inputBuffer c" "conn_state c1 = conn_state c" "queued c1 = queued c" "in_calls c1 = in_calls c"
      "notices c1 = notices c" "revents (conn_channel c1) = POLLIN"
    by (simp_all add: c1_def set_revents_def)
  have masks: "\<not> has POLLIN POLLHUP" "has POLLIN (POLLIN OR POLLPRI OR POLLRDHUP)" "\<not> has POLLIN POLLOUT"
    by (simp_all add: has_def poll_masks)
  have "handleRead (Read_Data []) t c1 = handleClose (c1\<lparr>inputBuffer := b\<rparr>)"
    using b c1(1) by (simp add: handleRead_def)
  moreover have "revents (conn_channel d) = POLLIN" if "handleClose (c1\<lparr>inputBuffer := b\<rparr>) = Some d" for d
    using that c1(6) by (auto simp: handleClose_def run_simps setState_def notify_def connectionCallback_def Let_def)
  ultimately have run: "conn_do (E_eof t) c
      = map_option (conn_channel_update (eventHandling_update (\<lambda>_. False))) (handleClose (c1\<lparr>inputBuffer := b\<rparr>))"
    using c1(6) masks
    by (cases "handleClose (c1\<lparr>inputBuffer := b\<rparr>)")
      (simp_all add: channel_event_def handleEvent_def handleEventWithGuard_def conn_callbacks_def
        handleError_def c1_def [symmetric] Let_def cong: if_cong)
  show "conn_do (E_eof t) c = None \<longleftrightarrow> \<not> live c"
    unfolding run using c1(2) by (simp add: handleClose_def require_def live_def Let_def)
  show "conn_do (E_eof t) c = Some c' \<Longrightarrow> conn_state c' = kDisconnected \<and> queued c' = queued c \<and> in_calls c' = in_calls c
      \<and> notices c' = notices c @ [Connection_Callback False, Close_Callback]"
    unfolding run using c1
    by (auto simp: handleClose_def run_simps setState_def notify_def connectionCallback_def connected_now_def Let_def)
qed

text \<open>Reading started again on a closed connection: the end of the peer's stream aborts the process.\<close>

lemma startRead_after_close_aborts:
  assumes "conn_inv c" "conn_state c = kDisconnected" "\<not> reading c \<or> \<not> isReading (conn_channel c)"
    "conn_do (E_startRead True) c = Some c'"
  shows "may (E_eof t) c' \<and> conn_do (E_eof t) c' = None"
proof -
  have c': "c' = c\<lparr>conn_channel := enableReading (conn_channel c), reading := True\<rparr>"
    using assms(3,4) by (auto simp: startRead_def runInLoop_def startReadInLoop_def)
  obtain b where b: "readFd (inputBuffer c) (Read_Data []) = Some (0, None, b)"
    using readFd_abs [OF conn_invD(2) [OF assms(1)], of "[]"] by auto
  have "interest_ok (conn_channel c')" "isReading (conn_channel c')"
    using conn_invD(1) [OF assms(1)] by (simp_all add: c')
  then have "\<not> isNoneEvent (conn_channel c')" using interest_none by blast
  moreover have "conn_do (E_eof t) c' = None"
    using b assms(2) by (simp add: c' channel_event_def handleEvent_def handleEventWithGuard_def conn_callbacks_def
        set_revents_def handleRead_def handleClose_def handleError_def require_def has_def poll_masks Let_def cong: if_cong)
  ultimately show ?thesis using may_eof by blast
qed

lemma overtaken_close:
  assumes "conn_inv c" "live c" "Tested Other_forceClose \<in> set (in_calls c)" "queued c = []"
  shows "\<exists>c'. conn_steps [E_eof t, E_call_sets Other_forceClose, E_call_hands_over Other_forceClose, E_run ans] c = Some c'
    \<and> conn_state c' = kDisconnected
    \<and> notices c' = notices c @ [Connection_Callback False, Close_Callback, Connection_Callback False, Close_Callback]"
proof -
  obtain c1 where c1: "conn_do (E_eof t) c = Some c1" "conn_state c1 = kDisconnected" "queued c1 = []"
      "in_calls c1 = in_calls c" "notices c1 = notices c @ [Connection_Callback False, Close_Callback]"
    using eof_closes [OF assms(1), of t] assms(2,4) by (cases "conn_do (E_eof t) c") auto
  define c2 where "c2 = call_hands_over Other_forceClose (call_sets Other_forceClose c1)"
  have c2: "conn_state c2 = kDisconnecting" "queued c2 = [F_forceCloseInLoop]" "notices c2 = notices c1"
    using c1(3) by (simp_all add: c2_def call_hands_over_def call_sets_def setState_def queueFunctor_def)
  have "may (E_eof t) c" using assms(2) may_eof by blast
  then have "conn_steps [E_eof t, E_call_sets Other_forceClose, E_call_hands_over Other_forceClose, E_run ans] c
      = handleClose (c2\<lparr>queued := []\<rparr>) \<bind> conn_steps []"
    using c1(1,4) c2(1,2) assms(3)
    by (simp del: conn_do.simps(11) may.simps(5) add: c2_def [symmetric] forceCloseInLoop_def)
      (simp add: call_sets_def c2_def [symmetric] c2 forceCloseInLoop_def)
  moreover have "handleClose (c2\<lparr>queued := []\<rparr>) \<noteq> None" using c2(1) by (simp add: handleClose_def Let_def)
  ultimately show ?thesis
    using c2(1,3) c1(5)
    by (auto simp: handleClose_def run_simps setState_def notify_def connectionCallback_def connected_now_def Let_def)
qed

text \<open>
  \<open>Channel::remove\<close> asserts that the channel watches nothing: a server destroyed during a graceful
  shutdown ends the process.
\<close>

lemma connectDestroyed_aborts_half_closed:
  "\<exists>msgs c. conn_run (new_TcpConnection 5 True True 3) msgs c \<and> conn_state c = kDisconnecting
     \<and> connectDestroyed c = None"
proof -
  obtain msgs c where c: "conn_run (new_TcpConnection 5 True True 3) msgs c" "conn_state c = kDisconnecting"
      "isReading (conn_channel c)"
    using sample_run by blast
  then have "\<not> isNoneEvent (conn_channel c)"
    using conn_run_inv [OF c(1) new_TcpConnection_inv(1)] interest_none by (auto simp: conn_inv_def)
  with c(2) have "connectDestroyed c = None" by (simp add: connectDestroyed_def channel_remove_def require_def Let_def)
  with c(1,2) show ?thesis by blast
qed

subsection \<open>Properties\<close>

text \<open>
  C1: Whatever threads send, whatever the kernel answers and whatever closes the connection, the
  bytes the kernel took followed by the bytes still in the output buffer are always exactly the
  messages handed to the loop, whole and in the order they were handed over, without those there was
  no hope for: none is split, duplicated, reordered or mixed with another, and one is missing only
  when the connection was closed before its turn, or when nothing waited before it and the kernel
  answered EPIPE or ECONNRESET. In particular a full socket (EWOULDBLOCK) or another error loses
  nothing. The runs are those in which no close overtakes a call of another thread between its test
  of the state and its change, and reading is started only on a connection that is up.
\<close>

theorem stream_is_whole_messages_in_order:
  assumes "conn_run (new_TcpConnection fd wc hw mark) msgs c"
  shows "sock_sent c @ contents (outputBuffer c) = concat (map fst (filter snd msgs))"
  using conn_run_inv [OF assms new_TcpConnection_inv(1)] new_TcpConnection_inv(2)
  by (simp add: stream_def hopeful_def)

theorem stream_is_whole_messages_in_order_witness:
  "\<exists>c. conn_run (new_TcpConnection 5 True True 3) [(''abc'', True), (''de'', True)] c \<and> sock_sent c = ''a''
    \<and> sock_sent c @ contents (outputBuffer c) = ''abcde''"
  using sample_run stream_is_whole_messages_in_order [of 5 True True 3 "[(''abc'', True), (''de'', True)]"] by auto

text \<open>
  C6: A graceful close never cuts the stream: while the connection is not torn down, the write side
  of the socket has been shut down only if every byte accepted before has been given to the kernel,
  and only after the user asked to close; and the channel waits for writability exactly while there
  is a backlog.
\<close>

theorem shutdown_waits_for_backlog:
  assumes "conn_run (new_TcpConnection fd wc hw mark) msgs c" "conn_state c \<noteq> kDisconnected"
  shows "(sock_shutdown c \<longrightarrow> conn_state c = kDisconnecting \<and> contents (outputBuffer c) = [])
    \<and> (isWriting (conn_channel c) \<longleftrightarrow> contents (outputBuffer c) \<noteq> [])"
  using conn_invD(4,6,7) [of c] conn_run_inv [OF assms(1) new_TcpConnection_inv(1)] assms(2)
  by (auto simp: closing_def)

theorem shutdown_waits_for_backlog_witness:
  "\<exists>c. conn_run (new_TcpConnection 5 True True 3) [(''abc'', True), (''de'', True)] c \<and> contents (outputBuffer c) = ''bcde''
    \<and> isWriting (conn_channel c) \<and> \<not> sock_shutdown c"
proof -
  obtain c where c: "conn_run (new_TcpConnection 5 True True 3) [(''abc'', True), (''de'', True)] c" "conn_state c = kDisconnecting"
      "contents (outputBuffer c) = ''bcde''"
    using sample_run by blast
  with shutdown_waits_for_backlog [OF c(1)] show ?thesis by auto
qed

text \<open>
  C7: The user is told exactly what happened to the connection: up once when it is established, down
  once when it is closed, in this order; the state determines which. This holds in every interleaving
  of the loop with the steps of calls in other threads in which no close comes between the test of the
  state and the change of it in one call (the code does not exclude that, see the comments
  FIXME: use compare and swap), and in which reading is started only on a connection that is up.
\<close>

theorem connection_callback_up_then_down:
  assumes "conn_run (new_TcpConnection fd wc hw mark) msgs c"
  shows "updowns (notices c) = (case conn_state c of kConnecting \<Rightarrow> [] | kConnected \<Rightarrow> [True]
    | kDisconnecting \<Rightarrow> [True] | kDisconnected \<Rightarrow> [True, False])"
  using conn_invD(9) [of c] conn_run_inv [OF assms new_TcpConnection_inv(1)]
  by (cases "conn_state c") auto

theorem connection_callback_up_then_down_witness:
  "\<exists>c. conn_run (new_TcpConnection 5 True True 3) [(''abc'', True), (''de'', True)] c \<and> updowns (notices c) = [True]"
  using sample_run connection_callback_up_then_down [of 5 True True 3 "[(''abc'', True), (''de'', True)]"] by force

text \<open>
  C8: No event but its destruction can abort a connection: in every state reached so (no close
  overtakes a call of another thread between its test and its change of the state, reading is started
  only on a connection that is up) every user call from any thread, every queued functor and every
  event of a channel that listens runs to its end. Without that order of calls an event can abort.
\<close>

theorem no_event_aborts:
  assumes "conn_run (new_TcpConnection fd wc hw mark) msgs c" "may e c" "calm e c" "e \<noteq> E_destroyed"
  shows "\<exists>c'. conn_do e c = Some c'"
  using conn_do_ok [OF _ assms(2-4)] conn_run_inv [OF assms(1) new_TcpConnection_inv(1)] by blast

theorem no_event_aborts_witness:
  "\<exists>c c'. conn_run (new_TcpConnection 5 True True 3) [(''abc'', True), (''de'', True)] c
     \<and> conn_do (E_channel POLLOUT 9 (Read_Data []) (Wrote 2)) c = Some c'"
proof -
  obtain c where c: "conn_run (new_TcpConnection 5 True True 3) [(''abc'', True), (''de'', True)] c" "conn_state c = kDisconnecting"
      "contents (outputBuffer c) = ''bcde''"
    using sample_run by blast
  moreover have "readableBytes (outputBuffer c) = 4" "\<not> sock_shutdown c" "live c"
    using conn_run_inv [OF c(1) new_TcpConnection_inv(1)] c(2,3) length_contents [of "outputBuffer c"]
    by (auto simp: conn_inv_def live_def)
  ultimately have "may (E_channel POLLOUT 9 (Read_Data []) (Wrote 2)) c" "calm (E_channel POLLOUT 9 (Read_Data []) (Wrote 2)) c"
    by (simp_all add: write_may_def has_def poll_masks)
  with no_event_aborts [OF c(1) this] c(1) show ?thesis by blast
qed

text \<open>
  C16: What happens when a close does overtake a call of another thread between its test and its change
  of the state: from every reachable connection that is up and for which a call of forceClose in another
  thread has made its test (and nothing else is queued), the end of the peer's stream followed by the rest
  of that call closes the connection a second time. The user is told down twice and the owner's close
  callback comes twice.
\<close>

theorem overtaken_close_is_told_twice:
  assumes "conn_run (new_TcpConnection fd wc hw mark) msgs c" "live c"
    "Tested Other_forceClose \<in> set (in_calls c)" "queued c = []"
  shows "\<exists>c'. conn_steps [E_eof t, E_call_sets Other_forceClose, E_call_hands_over Other_forceClose, E_run ans] c = Some c'
    \<and> updowns (notices c') = [True, False, False]
    \<and> count_list (notices c') Close_Callback = count_list (notices c) Close_Callback + 2"
proof -
  have inv: "conn_inv c" using conn_run_inv [OF assms(1) new_TcpConnection_inv(1)] by blast
  obtain c' where c': "conn_steps [E_eof t, E_call_sets Other_forceClose, E_call_hands_over Other_forceClose, E_run ans] c = Some c'"
      "notices c' = notices c @ [Connection_Callback False, Close_Callback, Connection_Callback False, Close_Callback]"
    using overtaken_close [OF inv assms(2-4), of t ans] by blast
  moreover from c'(2) have "updowns (notices c') = [True, False, False]"
    "count_list (notices c') Close_Callback = count_list (notices c) Close_Callback + 2"
    using conn_invD(9) [OF inv] assms(2) by (auto simp: live_def)
  ultimately show ?thesis by blast
qed

theorem overtaken_close_is_told_twice_witness:
  "\<exists>msgs c c'. conn_run (new_TcpConnection 5 True True 3) msgs c
    \<and> conn_steps [E_eof 9, E_call_sets Other_forceClose, E_call_hands_over Other_forceClose, E_run (Wrote 0)] c = Some c'
    \<and> updowns (notices c') = [True, False, False]"
proof -
  obtain msgs c where c: "conn_run (new_TcpConnection 5 True True 3) msgs c" "conn_state c = kDisconnecting"
      "in_calls c = [Tested Other_forceClose]" "queued c = [F_highWater 4]"
    using sample_run by blast
  define d where "d = notify (High_Water 4) (c\<lparr>queued := []\<rparr>)"
  have "conn_do (E_run (Wrote 0)) c = Some d" using c(4) by (simp add: d_def)
  from run_step [OF c(1) _ _ this] c(4) have "conn_run (new_TcpConnection 5 True True 3) msgs d" by simp
  moreover have "live d" "Tested Other_forceClose \<in> set (in_calls d)" "queued d = []"
    using c(2,3) by (simp_all add: d_def notify_def live_def)
  ultimately show ?thesis using overtaken_close_is_told_twice [of 5 True True 3 msgs d 9 "Wrote 0"] by blast
qed

end
