(* ===== verification/Close_Once.thy ===== *)
theory Close_Once
  imports Tcp_Connection
begin

text \<open>
  What the close callback of a TcpConnection promises to whoever owns the connection (TcpServer,
  TcpClient): it comes exactly when the connection goes down, at most once, and leaves a channel that
  watches nothing and is still in the poller's map. The relation \<open>close_rel\<close> between the states before and after a step is reflexive and
  transitive, so that each operation is treated alone.
\<close>

definition dead :: "tcp_connection \<Rightarrow> bool" where
  "dead c \<longleftrightarrow> conn_state c = kDisconnected \<and> isNoneEvent (conn_channel c)"

definition close_count :: "tcp_connection \<Rightarrow> nat" where
  "close_count c = count_list (notices c) Close_Callback"

definition no_start :: "tcp_connection \<Rightarrow> bool" where
  "no_start c \<longleftrightarrow> F_startReadInLoop \<notin> set (queued c)"

definition close_rel :: "tcp_connection \<Rightarrow> tcp_connection \<Rightarrow> bool" where
  "close_rel c c' \<longleftrightarrow> (no_start c \<longrightarrow> no_start c')
     \<and> (addedToLoop (conn_channel c) \<longrightarrow> addedToLoop (conn_channel c'))
     \<and> (live c \<longrightarrow> live c' \<and> close_count c' = close_count c \<or> dead c' \<and> close_count c' = Suc (close_count c))
     \<and> (dead c \<longrightarrow> dead c' \<and> close_count c' = close_count c)"

lemmas closes_defs = close_rel_def live_def dead_def close_count_def no_start_def

lemma closes_refl [simp]: "close_rel c c"
  by (simp add: close_rel_def)

lemma live_not_dead: "live c \<Longrightarrow> \<not> dead c"
  by (auto simp: live_def dead_def)

lemma closes_trans: "close_rel c d \<Longrightarrow> close_rel d e \<Longrightarrow> close_rel c e"
  unfolding close_rel_def using live_not_dead by (elim conjE) (metis (no_types))

lemma closes_same:
  assumes "conn_state c' = conn_state c \<or> live c \<and> live c'" "isNoneEvent (conn_channel c) \<longrightarrow> isNoneEvent (conn_channel c')"
    and "notices c' = notices c \<or> (\<exists>n. notices c' = notices c @ [n] \<and> n \<noteq> Close_Callback)" "queued c' = queued c \<or> (\<exists>f. queued c' = queued c @ [f] \<and> f \<noteq> F_startReadInLoop)"
    and "addedToLoop (conn_channel c) \<longrightarrow> addedToLoop (conn_channel c')"
  shows "close_rel c c'"
proof -
  have "close_count c' = close_count c" using assms(3) by (auto simp: close_count_def)
  moreover have "no_start c \<longrightarrow> no_start c'" using assms(4) by (auto simp: no_start_def)
  moreover have "live c \<longrightarrow> live c'" using assms(1) by (auto simp: live_def)
  moreover have "dead c \<longrightarrow> dead c'" using assms(1,2) by (auto simp: live_def dead_def)
  ultimately show ?thesis using assms(5) by (simp add: close_rel_def)
qed

lemma closes_queue: "f \<noteq> F_startReadInLoop \<Longrightarrow> close_rel c (queueFunctor f c)"
  by (rule closes_same) (simp_all add: queueFunctor_def)

lemma closes_notify: "n \<noteq> Close_Callback \<Longrightarrow> close_rel c (notify n c)"
  by (rule closes_same) (simp_all add: notify_def)

lemma closes_handleClose: "handleClose c = Some c' \<Longrightarrow> close_rel c c'"
  by (auto simp: handleClose_def closes_defs setState_def notify_def connectionCallback_def require_def Let_def
      split: if_splits)

lemma closes_append_remaining:
  assumes "append_remaining s c = Some c'" "live c"
  shows "close_rel c c'"
proof -
  define d where "d = (if highWaterMark c \<le> readableBytes (outputBuffer c) + length s
      \<and> readableBytes (outputBuffer c) < highWaterMark c \<and> has_highWater c
    then queueFunctor (F_highWater (readableBytes (outputBuffer c) + length s)) c else c)"
  have d: "close_rel c d" "live d" using assms(2) closes_queue [of _ c] by (simp_all add: d_def live_def)
  have "append_remaining s c = do { out \<leftarrow> buffer_append (outputBuffer d) s;
      Some (if \<not> isWriting (conn_channel d)
        then d\<lparr>outputBuffer := out, conn_channel := enableWriting (conn_channel d)\<rparr> else d\<lparr>outputBuffer := out\<rparr>) }"
    unfolding append_remaining_def Let_def d_def [symmetric] by (simp cong: if_cong)
  then obtain out where "c' = (if \<not> isWriting (conn_channel d)
      then d\<lparr>outputBuffer := out, conn_channel := enableWriting (conn_channel d)\<rparr> else d\<lparr>outputBuffer := out\<rparr>)"
    using assms(1) by (cases "buffer_append (outputBuffer d) s") simp_all
  with d(2) have "close_rel d c'" by (auto simp: closes_defs)
  with d(1) show ?thesis by (rule closes_trans)
qed

lemma closes_write_directly:
  assumes "write_directly s ans c = (n, fault, c')"
  shows "close_rel c c'" "conn_state c' = conn_state c"
proof -
  have "c' = c \<or> (\<exists>x. c' = c\<lparr>sock_sent := x\<rparr> \<or> c' = queueFunctor F_writeComplete (c\<lparr>sock_sent := x\<rparr>))"
    using assms by (auto simp: write_directly_def Let_def split: if_splits prod.splits write_answer.splits)
  then show "close_rel c c'" "conn_state c' = conn_state c"
    by (auto simp: closes_defs queueFunctor_def)
qed

lemma closes_sendInLoop:
  assumes "sendInLoop s ans c = Some c'" "live c \<or> dead c"
  shows "close_rel c c'"
proof (cases "conn_state c = kDisconnected")
  case True
  with assms(1) show ?thesis by (simp add: sendInLoop_def)
next
  case False
  with assms(2) have "live c" by (auto simp: dead_def)
  obtain n fault d where w: "write_directly s ans c = (n, fault, d)" by (metis prod_cases3)
  note cl = closes_write_directly [OF w]
  then have "live d" using \<open>live c\<close> by (simp add: live_def)
  moreover have "c' = d \<or> append_remaining (drop n s) d = Some c'"
    using assms(1) False w by (auto simp: sendInLoop_def require_def split: if_splits)
  ultimately have "close_rel d c'" using closes_append_remaining by auto
  with cl(1) show ?thesis by (rule closes_trans)
qed

lemma closes_shutdownInLoop: "close_rel c (shutdownInLoop c)"
  by (auto simp: shutdownInLoop_def closes_defs)

lemma closes_stopReadInLoop: "close_rel c (stopReadInLoop c)"
  by (rule closes_same) (auto simp: stopReadInLoop_def)

lemma closes_forceCloseInLoop: "forceCloseInLoop c = Some c' \<Longrightarrow> close_rel c c'"
  by (auto simp: forceCloseInLoop_def closes_handleClose split: if_splits)

lemma closes_handleWrite:
  assumes "handleWrite ans c = Some c'"
  shows "close_rel c c'"
proof (cases "isWriting (conn_channel c)")
  case False
  with assms show ?thesis by (simp add: handleWrite_def)
next
  case True
  show ?thesis
  proof (cases ans)
    case (Wrote n)
    show ?thesis
    proof (cases "0 < n")
      case True
      with assms Wrote \<open>isWriting (conn_channel c)\<close> obtain out where out: "retrieve (outputBuffer c) n = Some out"
        by (auto simp: handleWrite_def split: Option.bind_splits)
      define d where "d = c\<lparr>sock_sent := sock_sent c @ take n (contents (outputBuffer c)), outputBuffer := out\<rparr>"
      define e where "e = (if has_writeComplete d then queueFunctor F_writeComplete (d\<lparr>conn_channel := disableWriting (conn_channel d)\<rparr>)
         else d\<lparr>conn_channel := disableWriting (conn_channel d)\<rparr>)"
      have "close_rel c d" by (auto simp: closes_defs d_def)
      moreover have "close_rel d e" by (auto simp: e_def closes_defs queueFunctor_def)
      moreover have "c' = d \<or> c' = e \<or> c' = shutdownInLoop e"
        using assms Wrote True \<open>isWriting (conn_channel c)\<close> out
        by (auto simp: handleWrite_def d_def e_def Let_def split: if_splits)
      ultimately show ?thesis using closes_shutdownInLoop closes_trans by blast
    qed (use assms Wrote True in \<open>simp add: handleWrite_def\<close>)
  qed (use assms True in \<open>simp add: handleWrite_def\<close>)
qed

lemma closes_handleRead:
  assumes "handleRead ans t c = Some c'"
  shows "close_rel c c'"
proof -
  obtain n err buf where r: "readFd (inputBuffer c) ans = Some (n, err, buf)"
    using assms by (auto simp: handleRead_def split: Option.bind_splits)
  define d where "d = c\<lparr>inputBuffer := buf\<rparr>"
  have "close_rel c d" by (auto simp: closes_defs d_def)
  moreover have "c' = notify (Message_Callback t) d \<or> handleClose d = Some c' \<or> c' = d"
    using assms r by (auto simp: handleRead_def handleError_def d_def Let_def split: if_splits)
  then have "close_rel d c'" using closes_notify closes_handleClose by auto
  ultimately show ?thesis by (rule closes_trans)
qed

lemma closes_channel_event:
  assumes "channel_event r t rans wans c = Some c'"
  shows "close_rel c c'"
proof -
  let ?flag = "\<lambda>b. conn_channel_update (eventHandling_update (\<lambda>_. b))"
  define c1 where "c1 = ?flag True (c\<lparr>conn_channel := set_revents r (conn_channel c)\<rparr>)"
  have flag: "close_rel d (?flag b d)" for b d
    by (rule closes_same) (simp_all add: isNoneEvent_def)
  have "close_rel c (c\<lparr>conn_channel := set_revents r (conn_channel c)\<rparr>)"
    by (rule closes_same) (simp_all add: set_revents_def)
  then have c1: "close_rel c c1" using flag closes_trans unfolding c1_def by blast
  obtain c2 c3 c4 where
    c2: "(if has (revents (conn_channel c1)) POLLHUP \<and> \<not> has (revents (conn_channel c1)) POLLIN then handleClose c1 else Some c1) = Some c2"
    and c3: "(if has (revents (conn_channel c2)) (POLLIN OR POLLPRI OR POLLRDHUP) then handleRead rans t c2 else Some c2) = Some c3"
    and c4: "(if has (revents (conn_channel c3)) POLLOUT then handleWrite wans c3 else Some c3) = Some c4"
    and c': "c' = ?flag False c4"
    using assms
    by (auto simp: channel_event_def handleEvent_def handleEventWithGuard_def conn_callbacks_def handleError_def
        c1_def [symmetric] Let_def cong: if_cong split: Option.bind_splits)
  have "close_rel c1 c2" using c2 closes_handleClose by (auto split: if_splits)
  moreover have "close_rel c2 c3" using c3 closes_handleRead by (auto split: if_splits)
  moreover have "close_rel c3 c4" using c4 closes_handleWrite by (auto split: if_splits)
  ultimately show ?thesis using c1 flag unfolding c' by (meson closes_trans)
qed

lemma closes_run_functor:
  assumes "run_functor f ans c = Some c'" "live c \<or> dead c" "f \<noteq> F_startReadInLoop"
  shows "close_rel c c'"
proof (cases f)
  case (F_sendInLoop s)
  with assms show ?thesis using closes_sendInLoop by simp
next
  case F_forceCloseInLoop
  with assms(1) show ?thesis using closes_forceCloseInLoop by simp
next
  case F_shutdownInLoop
  with assms(1) show ?thesis using closes_shutdownInLoop [of c] by simp
next
  case F_stopReadInLoop
  with assms(1) show ?thesis using closes_stopReadInLoop [of c] by simp
next
  case F_writeComplete
  with assms(1) show ?thesis using closes_notify [of Write_Complete c] by simp
next
  case (F_highWater n)
  with assms(1) show ?thesis using closes_notify [of "High_Water n" c] by simp
qed (use assms(3) in simp)

text \<open>A user who never calls \<open>startRead\<close> (it would let a closed channel listen again).\<close>

definition quiet_event :: "conn_event \<Rightarrow> bool" where
  "quiet_event e \<longleftrightarrow> e \<noteq> E_established \<and> e \<noteq> E_destroyed \<and> (\<forall>b. e \<noteq> E_startRead b)"

lemma closes_setState: "live c \<Longrightarrow> close_rel c (setState kDisconnecting c)"
  by (rule closes_same) (simp_all add: setState_def live_def)

lemma closes_forceClose: "close_rel c (forceClose c)"
proof (cases "live c")
  case True
  then show ?thesis using closes_trans [OF closes_setState [OF True] closes_queue [of F_forceCloseInLoop]]
    by (auto simp: forceClose_def live_def)
next
  case False
  then show ?thesis by (simp add: forceClose_def live_def)
qed

lemma closes_conn_do:
  assumes "conn_do e c = Some c'" "quiet_event e" "live c \<or> dead c" "no_start c" "calm e c"
  shows "close_rel c c'"
proof (cases e)
  case (E_send inLoop s ans)
  with assms(1,3) show ?thesis
    using closes_sendInLoop [of s ans c c'] closes_queue [of "F_sendInLoop s" c]
    by (auto simp: send_def runInLoop_def split: if_splits)
next
  case (E_shutdown inLoop)
  show ?thesis
  proof (cases "conn_state c = kConnected")
    case True
    then have "live c" by (simp add: live_def)
    note st = closes_setState [OF this]
    have "c' = shutdownInLoop (setState kDisconnecting c) \<or> c' = queueFunctor F_shutdownInLoop (setState kDisconnecting c)"
      using assms(1) E_shutdown True by (auto simp: shutdown_def runInLoop_def split: if_splits)
    then show ?thesis
      using closes_trans [OF st closes_shutdownInLoop] closes_trans [OF st closes_queue [of F_shutdownInLoop]] by auto
  next
    case False
    with assms(1) E_shutdown show ?thesis by (simp add: shutdown_def)
  qed
next
  case E_forceClose
  with assms(1) show ?thesis using closes_forceClose [of c] by simp
next
  case (E_forceCloseWithDelay d)
  show ?thesis
  proof (cases "live c")
    case True
    have "c' = (setState kDisconnecting c)\<lparr>delayed_closes := delayed_closes c @ [d]\<rparr>"
      using assms(1) E_forceCloseWithDelay True by (auto simp: forceCloseWithDelay_def live_def)
    with True show ?thesis by (intro closes_same) (simp_all add: setState_def live_def)
  next
    case False
    with assms(1) E_forceCloseWithDelay show ?thesis by (simp add: forceCloseWithDelay_def live_def)
  qed
next
  case E_delay_expired
  have "close_rel c (c\<lparr>delayed_closes := tl (delayed_closes c)\<rparr>)" by (rule closes_same) simp_all
  from closes_trans [OF this closes_forceClose] assms(1) E_delay_expired show ?thesis by simp
next
  case (E_stopRead inLoop)
  with assms(1) show ?thesis using closes_stopReadInLoop [of c] closes_queue [of F_stopReadInLoop c]
    by (auto simp: stopRead_def runInLoop_def split: if_splits)
next
  case (E_take_input n)
  then obtain b where "c' = c\<lparr>inputBuffer := b\<rparr>" using assms(1) by auto
  then show ?thesis by (intro closes_same) simp_all
next
  case (E_run ans)
  show ?thesis
  proof (cases "queued c")
    case (Cons f fs)
    have q: "close_rel c (c\<lparr>queued := fs\<rparr>)" using Cons assms(4) by (auto simp: close_rel_def live_def dead_def close_count_def no_start_def)
    have "run_functor f ans (c\<lparr>queued := fs\<rparr>) = Some c'" "f \<noteq> F_startReadInLoop"
      using assms(1,4) E_run Cons by (auto simp: no_start_def)
    moreover have "live (c\<lparr>queued := fs\<rparr>) \<or> dead (c\<lparr>queued := fs\<rparr>)" using assms(3) by (simp add: live_def dead_def)
    ultimately have "close_rel (c\<lparr>queued := fs\<rparr>) c'" by (intro closes_run_functor) auto
    with q show ?thesis by (rule closes_trans)
  qed (use assms(1) E_run in simp)
next
  case (E_call_tests k)
  have "close_rel c (c\<lparr>in_calls := ks\<rparr>)" for ks by (rule closes_same) simp_all
  with assms(1) E_call_tests show ?thesis by (auto simp: call_tests_def)
next
  case (E_call_sets k)
  then have "live c" using assms(3,5) by (auto simp: dead_def)
  with assms(1) E_call_sets show ?thesis
    by (intro closes_same) (auto simp: call_sets_def setState_def live_def)
next
  case (E_call_hands_over k)
  have "close_rel c (c\<lparr>in_calls := remove1 (last_stage k) (in_calls c)\<rparr>)" by (rule closes_same) simp_all
  moreover have "close_rel d (hand_over k d)" for d
    by (cases k) (simp_all add: closes_queue, intro closes_same, simp_all)
  ultimately show ?thesis
    using assms(1) E_call_hands_over closes_trans by (auto simp: call_hands_over_def)
next
  case (E_channel r t rans wans)
  with assms(1) closes_channel_event show ?thesis by simp
qed (use assms(2) in \<open>auto simp: quiet_event_def\<close>)

end
