(* ===== verification/Loop_Pool.thy ===== *)
theory Loop_Pool
  imports Prelude
begin

text \<open>
  muduo/net/EventLoopThreadPool.h and EventLoopThreadPool.cpp: the loops that serve the connections, and
  muduo/net/EventLoopThread.h and EventLoopThread.cc: the handshake by which a new thread hands its loop
  to the one that started it. Loops are numbers; the loop a new thread makes is an argument. In the
  handshake every step of either thread is one step of \<open>thread_pair\<close>, between any two of which the other
  may run; the mutex is its holder and the condition variable the starter's place in its wait.
\<close>

subsection \<open>The pool\<close>

record loop_pool =
  baseLoop :: nat
  pool_name :: string
  started :: bool
  numThreads :: nat
  next_loop :: nat
  thread_names :: "string list"
  loops :: "nat list"

definition new_EventLoopThreadPool :: "nat \<Rightarrow> string \<Rightarrow> loop_pool" where
  "new_EventLoopThreadPool base name = \<lparr>baseLoop = base, pool_name = name, started = False, numThreads = 0,
     next_loop = 0, thread_names = [], loops = []\<rparr>"

definition setThreadNum :: "nat \<Rightarrow> loop_pool \<Rightarrow> loop_pool" where
  "setThreadNum n p = p\<lparr>numThreads := n\<rparr>"

text \<open>snprintf into an array of \<open>cap\<close> bytes keeps one for the NUL.\<close>

definition snprintf_to :: "nat \<Rightarrow> string \<Rightarrow> string" where
  "snprintf_to cap s = take (cap - 1) s"

fun start_threads :: "(nat \<Rightarrow> nat) \<Rightarrow> nat \<Rightarrow> nat \<Rightarrow> loop_pool \<Rightarrow> loop_pool" where
  "start_threads startLoop i 0 p = p"
| "start_threads startLoop i (Suc n) p =
     (let buf = snprintf_to (length (pool_name p) + 32) (pool_name p @ dec_nat i)
      in start_threads startLoop (Suc i) n
           (p\<lparr>thread_names := thread_names p @ [buf], loops := loops p @ [startLoop i]\<rparr>))"

text \<open>The pool and the loops the callback ran on in this thread.\<close>

definition pool_start :: "bool \<Rightarrow> bool \<Rightarrow> (nat \<Rightarrow> nat) \<Rightarrow> loop_pool \<Rightarrow> (nat list \<times> loop_pool) option" where
  "pool_start inBaseThread has_cb startLoop p = do {
     require (\<not> started p);
     require inBaseThread;
     let p = p\<lparr>started := True\<rparr>;
     let p = start_threads startLoop 0 (numThreads p) p;
     Some (if numThreads p = 0 \<and> has_cb then [baseLoop p] else [], p) }"

definition getNextLoop :: "bool \<Rightarrow> loop_pool \<Rightarrow> (nat \<times> loop_pool) option" where
  "getNextLoop inBaseThread p = do {
     require inBaseThread;
     require (started p);
     if loops p \<noteq> [] then do {
       require (next_loop p < length (loops p));
       let loop = loops p ! next_loop p;
       let p = p\<lparr>next_loop := next_loop p + 1\<rparr>;
       Some (loop, if length (loops p) \<le> next_loop p then p\<lparr>next_loop := 0\<rparr> else p) }
     else Some (baseLoop p, p) }"

definition getLoopForHash :: "bool \<Rightarrow> u64 \<Rightarrow> loop_pool \<Rightarrow> nat option" where
  "getLoopForHash inBaseThread hashCode p = do {
     require inBaseThread;
     Some (if loops p \<noteq> [] then loops p ! (unat hashCode mod length (loops p)) else baseLoop p) }"

definition getAllLoops :: "bool \<Rightarrow> loop_pool \<Rightarrow> nat list option" where
  "getAllLoops inBaseThread p = do {
     require inBaseThread;
     require (started p);
     Some (if loops p = [] then [baseLoop p] else loops p) }"

fun next_loops :: "nat \<Rightarrow> loop_pool \<Rightarrow> (nat list \<times> loop_pool) option" where
  "next_loops 0 p = Some ([], p)"
| "next_loops (Suc n) p = do { (l, p) \<leftarrow> getNextLoop True p; (ls, p) \<leftarrow> next_loops n p; Some (l # ls, p) }"

lemma start_threads_loops:
  "loops (start_threads f i n p) = loops p @ map f [i..<i + n]"
  "numThreads (start_threads f i n p) = numThreads p" "next_loop (start_threads f i n p) = next_loop p"
  "started (start_threads f i n p) = started p" "baseLoop (start_threads f i n p) = baseLoop p"
  by (induction f i n p rule: start_threads.induct) (simp_all add: Let_def upt_rec)

lemma next_loops_ring:
  assumes "started p" "loops p \<noteq> []" "next_loop p < length (loops p)"
  shows "\<exists>p'. next_loops k p = Some (map (\<lambda>i. loops p ! ((next_loop p + i) mod length (loops p))) [0..<k], p')
    \<and> started p' \<and> loops p' = loops p \<and> next_loop p' = (next_loop p + k) mod length (loops p)"
  using assms
proof (induction k arbitrary: p)
  case (Suc k)
  let ?n = "length (loops p)"
  define q where "q = p\<lparr>next_loop := (next_loop p + 1) mod ?n\<rparr>"
  have "getNextLoop True p = Some (loops p ! next_loop p, q)"
  proof (cases "next_loop p + 1 < ?n")
    case True
    with Suc.prems show ?thesis by (simp add: getNextLoop_def q_def Let_def)
  next
    case False
    with Suc.prems have "next_loop p + 1 = ?n" by simp
    with Suc.prems show ?thesis by (simp add: getNextLoop_def q_def Let_def)
  qed
  moreover have "started q" "loops q = loops p" "next_loop q < length (loops q)"
    using Suc.prems by (simp_all add: q_def)
  with Suc.IH [of q] Suc.prems(2) obtain p' where
    "next_loops k q = Some (map (\<lambda>i. loops p ! ((next_loop q + i) mod ?n)) [0..<k], p')"
    "started p'" "loops p' = loops p" "next_loop p' = (next_loop q + k) mod ?n" by auto
  moreover have "next_loop q = (next_loop p + 1) mod ?n" by (simp add: q_def)
  ultimately show ?case using Suc.prems(3)
    by (simp add: map_upt_Suc mod_add_left_eq del: upt_Suc)
qed simp

text \<open>
  Connections are dealt out evenly: a pool started with n threads hands out its loops in turn, so
  that after k connections loop i has got k div n of them, or one more if it is among the first k mod n.
\<close>

theorem connections_are_dealt_evenly:
  assumes "pool_start True cb f (setThreadNum n (new_EventLoopThreadPool base name)) = Some (r, p)"
    and "0 < n" "distinct (map f [0..<n])"
  shows "\<exists>ls p'. next_loops k p = Some (ls, p') \<and> ls = map (\<lambda>j. f (j mod n)) [0..<k]
    \<and> (\<forall>i < n. count_list ls (f i) = k div n + (if i < k mod n then 1 else 0))"
proof -
  let ?p0 = "(setThreadNum n (new_EventLoopThreadPool base name))\<lparr>started := True\<rparr>"
  have p: "p = start_threads f 0 n ?p0"
    using assms(1) by (simp add: Let_def pool_start_def setThreadNum_def new_EventLoopThreadPool_def start_threads_loops)
  have pl: "loops p = map f [0..<n]" "started p" "next_loop p = 0"
    by (simp_all add: p start_threads_loops setThreadNum_def new_EventLoopThreadPool_def)
  have inj: "f a = f b \<longleftrightarrow> a = b" if "a < n" "b < n" for a b
    using assms(3) that by (auto simp: distinct_map inj_on_def)
  have count: "count_list (map (\<lambda>j. f (j mod n)) [0..<k]) (f i) = k div n + (if i < k mod n then 1 else 0)" if "i < n" for i k
  proof (induction k)
    case (Suc k)
    have "count_list (map (\<lambda>j. f (j mod n)) [0..<Suc k]) (f i)
        = count_list (map (\<lambda>j. f (j mod n)) [0..<k]) (f i) + (if k mod n = i then 1 else 0)"
      using inj [of "k mod n" i] that assms(2) by simp
    also have "\<dots> = Suc k div n + (if i < Suc k mod n then 1 else 0)"
      using Suc that by (auto simp: mod_Suc div_Suc)
    finally show ?case .
  qed simp
  obtain p' where "next_loops k p = Some (map (\<lambda>i. loops p ! ((next_loop p + i) mod length (loops p))) [0..<k], p')"
    using next_loops_ring [of p k] pl assms(2) by auto
  moreover have "map (\<lambda>i. loops p ! ((next_loop p + i) mod length (loops p))) [0..<k] = map (\<lambda>j. f (j mod n)) [0..<k]"
    using assms(2) by (simp add: pl)
  ultimately show ?thesis using count by auto
qed

lemma connections_are_dealt_evenly_witness:
  "\<exists>p ls p'. pool_start True False (\<lambda>i. i + 100) (setThreadNum 3 (new_EventLoopThreadPool 9 ''io'')) = Some ([], p)
    \<and> next_loops 5 p = Some (ls, p') \<and> ls = [100, 101, 102, 100, 101] \<and> count_list ls 101 = 2"
proof -
  obtain p where p: "pool_start True False (\<lambda>i. i + 100) (setThreadNum 3 (new_EventLoopThreadPool 9 ''io'')) = Some ([], p)"
    by (simp add: pool_start_def setThreadNum_def new_EventLoopThreadPool_def start_threads_loops)
  from connections_are_dealt_evenly [OF p, of 5] obtain ls p' where
    "next_loops 5 p = Some (ls, p')" "ls = map (\<lambda>j. j mod 3 + 100) [0..<5]" by (auto simp: upt_rec)
  with p show ?thesis by (auto simp: upt_rec)
qed

lemma loop_for_hash_stays:
  "getLoopForHash True hc p = Some l \<Longrightarrow> started p \<Longrightarrow> \<exists>ls. getAllLoops True p = Some ls \<and> l \<in> set ls"
  by (auto simp: getLoopForHash_def getAllLoops_def)

subsection \<open>The handshake of a loop thread\<close>

datatype starter_pos = S_Start | S_Lock | S_Test | S_Waiting | S_Woken | S_Unlock | S_Read | S_Returned "nat option"
datatype thread_pos = T_Unborn | T_Callback | T_Lock | T_Set | T_Notify | T_Unlock | T_Looping | T_Ended
datatype mutex_holder = Starter | Loop_Thread

record thread_pair =
  loop_ptr :: "nat option"
  holder :: "mutex_holder option"
  starter :: starter_pos
  loop_thread :: thread_pos

definition new_EventLoopThread :: thread_pair where
  "new_EventLoopThread = \<lparr>loop_ptr = None, holder = None, starter = S_Start, loop_thread = T_Unborn\<rparr>"

text \<open>\<open>startLoop\<close>; a step is not enabled (None) where it would have to wait for the mutex or the condition.\<close>

definition startLoop_step :: "thread_pair \<Rightarrow> thread_pair option" where
  "startLoop_step s =
     (case starter s of
        S_Start \<Rightarrow> if loop_thread s = T_Unborn then Some (s\<lparr>loop_thread := T_Callback, starter := S_Lock\<rparr>) else None
      | S_Lock \<Rightarrow> if holder s = None then Some (s\<lparr>holder := Some Starter, starter := S_Test\<rparr>) else None
      | S_Test \<Rightarrow> if loop_ptr s = None then Some (s\<lparr>holder := None, starter := S_Waiting\<rparr>) else Some (s\<lparr>starter := S_Unlock\<rparr>)
      | S_Waiting \<Rightarrow> None
      | S_Woken \<Rightarrow> if holder s = None then Some (s\<lparr>holder := Some Starter, starter := S_Test\<rparr>) else None
      | S_Unlock \<Rightarrow> Some (s\<lparr>holder := None, starter := S_Read\<rparr>)
      | S_Read \<Rightarrow> Some (s\<lparr>starter := S_Returned (loop_ptr s)\<rparr>)
      | S_Returned r \<Rightarrow> None)"

text \<open>\<open>threadFunc\<close>, whose loop is at \<open>l\<close>.\<close>

definition threadFunc_step :: "nat \<Rightarrow> thread_pair \<Rightarrow> thread_pair option" where
  "threadFunc_step l s =
     (case loop_thread s of
        T_Unborn \<Rightarrow> None
      | T_Callback \<Rightarrow> Some (s\<lparr>loop_thread := T_Lock\<rparr>)
      | T_Lock \<Rightarrow> if holder s = None then Some (s\<lparr>holder := Some Loop_Thread, loop_thread := T_Set\<rparr>) else None
      | T_Set \<Rightarrow> Some (s\<lparr>loop_ptr := Some l, loop_thread := T_Notify\<rparr>)
      | T_Notify \<Rightarrow> Some (s\<lparr>starter := (if starter s = S_Waiting then S_Woken else starter s), loop_thread := T_Unlock\<rparr>)
      | T_Unlock \<Rightarrow> Some (s\<lparr>holder := None, loop_thread := T_Looping\<rparr>)
      | T_Looping \<Rightarrow> None
      | T_Ended \<Rightarrow> None)"

datatype pair_event = P_starter | P_thread | P_spurious | P_loop_ends

fun pair_step :: "nat \<Rightarrow> pair_event \<Rightarrow> thread_pair \<Rightarrow> thread_pair option" where
  "pair_step l P_starter s = startLoop_step s"
| "pair_step l P_thread s = threadFunc_step l s"
| "pair_step l P_spurious s = (if starter s = S_Waiting then Some (s\<lparr>starter := S_Woken\<rparr>) else None)"
| "pair_step l P_loop_ends s = (if loop_thread s = T_Looping then Some (s\<lparr>loop_ptr := None, loop_thread := T_Ended\<rparr>) else None)"

inductive pair_reach :: "nat \<Rightarrow> thread_pair \<Rightarrow> bool" for l where
  init: "pair_reach l new_EventLoopThread"
| step: "pair_reach l s \<Longrightarrow> pair_step l e s = Some s' \<Longrightarrow> pair_reach l s'"

definition pair_inv :: "nat \<Rightarrow> thread_pair \<Rightarrow> bool" where
  "pair_inv l s \<longleftrightarrow>
     (holder s = Some Starter \<longleftrightarrow> starter s \<in> {S_Test, S_Unlock})
     \<and> (holder s = Some Loop_Thread \<longleftrightarrow> loop_thread s \<in> {T_Set, T_Notify, T_Unlock})
     \<and> (loop_thread s = T_Unborn \<longleftrightarrow> starter s = S_Start)
     \<and> loop_ptr s = (if loop_thread s \<in> {T_Notify, T_Unlock, T_Looping} then Some l else None)
     \<and> (starter s = S_Waiting \<longrightarrow> loop_thread s \<in> {T_Callback, T_Lock, T_Set, T_Notify, T_Ended})
     \<and> (starter s \<in> {S_Unlock, S_Read} \<longrightarrow> loop_thread s \<in> {T_Unlock, T_Looping, T_Ended})
     \<and> (\<forall>r. starter s = S_Returned r \<longrightarrow> r = Some l \<or> loop_thread s = T_Ended)"

lemma startLoop_step_inv:
  assumes "pair_inv l s" "startLoop_step s = Some s'"
  shows "pair_inv l s'"
proof (cases "starter s")
  case S_Start
  then have "s' = s\<lparr>loop_thread := T_Callback, starter := S_Lock\<rparr>" "loop_thread s = T_Unborn"
    using assms(2) by (simp_all add: startLoop_step_def split: if_splits)
  with S_Start assms(1) show ?thesis by (simp add: pair_inv_def)
next
  case S_Lock
  then have "s' = s\<lparr>holder := Some Starter, starter := S_Test\<rparr>" "holder s = None"
    using assms(2) by (simp_all add: startLoop_step_def split: if_splits)
  with S_Lock assms(1) show ?thesis by (simp add: pair_inv_def)
next
  case S_Test
  show ?thesis
  proof (cases "loop_ptr s")
    case None
    then have "s' = s\<lparr>holder := None, starter := S_Waiting\<rparr>"
      using S_Test assms(2) by (simp add: startLoop_step_def)
    moreover have "holder s = Some Starter" using S_Test assms(1) by (simp add: pair_inv_def)
    ultimately show ?thesis using S_Test assms(1) None
      by (cases "loop_thread s") (simp add: pair_inv_def | clarsimp simp: pair_inv_def)+
  next
    case (Some k)
    then have "s' = s\<lparr>starter := S_Unlock\<rparr>"
      using S_Test assms(2) by (simp add: startLoop_step_def)
    with S_Test assms(1) Some show ?thesis
      by (cases "loop_thread s") (simp add: pair_inv_def | clarsimp simp: pair_inv_def)+
  qed
next
  case S_Waiting
  with assms(2) show ?thesis by (simp add: startLoop_step_def)
next
  case S_Woken
  then have "s' = s\<lparr>holder := Some Starter, starter := S_Test\<rparr>" "holder s = None"
    using assms(2) by (simp_all add: startLoop_step_def split: if_splits)
  with S_Woken assms(1) show ?thesis by (simp add: pair_inv_def)
next
  case S_Unlock
  then have "s' = s\<lparr>holder := None, starter := S_Read\<rparr>"
    using assms(2) by (simp add: startLoop_step_def)
  with S_Unlock assms(1) show ?thesis by (cases "loop_thread s") (simp add: pair_inv_def | clarsimp simp: pair_inv_def)+
next
  case S_Read
  then have "s' = s\<lparr>starter := S_Returned (loop_ptr s)\<rparr>"
    using assms(2) by (simp add: startLoop_step_def)
  with S_Read assms(1) show ?thesis by (cases "loop_thread s") (simp add: pair_inv_def | clarsimp simp: pair_inv_def)+
qed (use assms(2) in \<open>simp add: startLoop_step_def\<close>)

lemma threadFunc_step_inv:
  assumes "pair_inv l s" "threadFunc_step l s = Some s'"
  shows "pair_inv l s'"
proof (cases "loop_thread s")
  case T_Callback
  then have "s' = s\<lparr>loop_thread := T_Lock\<rparr>" using assms(2) by (simp add: threadFunc_step_def)
  with T_Callback assms(1) show ?thesis by (simp add: pair_inv_def)
next
  case T_Lock
  then have "s' = s\<lparr>holder := Some Loop_Thread, loop_thread := T_Set\<rparr>" "holder s = None"
    using assms(2) by (simp_all add: threadFunc_step_def split: if_splits)
  with T_Lock assms(1) show ?thesis by (cases "starter s") (simp add: pair_inv_def | clarsimp simp: pair_inv_def)+
next
  case T_Set
  then have "s' = s\<lparr>loop_ptr := Some l, loop_thread := T_Notify\<rparr>" using assms(2) by (simp add: threadFunc_step_def)
  moreover have "holder s = Some Loop_Thread" using T_Set assms(1) by (simp add: pair_inv_def)
  ultimately show ?thesis using T_Set assms(1) by (cases "starter s") (simp add: pair_inv_def | clarsimp simp: pair_inv_def)+
next
  case T_Notify
  then have "s' = s\<lparr>starter := (if starter s = S_Waiting then S_Woken else starter s), loop_thread := T_Unlock\<rparr>"
    using assms(2) by (simp add: threadFunc_step_def)
  with T_Notify assms(1) show ?thesis by (cases "starter s") (simp add: pair_inv_def | clarsimp simp: pair_inv_def)+
next
  case T_Unlock
  then have "s' = s\<lparr>holder := None, loop_thread := T_Looping\<rparr>" using assms(2) by (simp add: threadFunc_step_def)
  with T_Unlock assms(1) show ?thesis by (cases "starter s") (simp add: pair_inv_def | clarsimp simp: pair_inv_def)+
qed (use assms(2) in \<open>simp_all add: threadFunc_step_def\<close>)

lemma pair_inv_step:
  assumes "pair_inv l s" "pair_step l e s = Some s'"
  shows "pair_inv l s'"
proof (cases e)
  case P_starter
  with assms show ?thesis using startLoop_step_inv by simp
next
  case P_thread
  with assms show ?thesis using threadFunc_step_inv by simp
next
  case P_spurious
  then have "starter s = S_Waiting" "s' = s\<lparr>starter := S_Woken\<rparr>"
    using assms(2) by (simp_all split: if_splits)
  with assms(1) show ?thesis by (simp add: pair_inv_def)
next
  case P_loop_ends
  then have "loop_thread s = T_Looping" "s' = s\<lparr>loop_ptr := None, loop_thread := T_Ended\<rparr>"
    using assms(2) by (simp_all split: if_splits)
  with assms(1) show ?thesis by (cases "starter s") (simp add: pair_inv_def | clarsimp simp: pair_inv_def)+
qed

lemma pair_reach_inv: "pair_reach l s \<Longrightarrow> pair_inv l s"
proof (induction rule: pair_reach.induct)
  case init
  show ?case by (simp add: pair_inv_def new_EventLoopThread_def)
next
  case (step s e s')
  then show ?case by (blast intro: pair_inv_step)
qed

fun starter_rank :: "starter_pos \<Rightarrow> nat" where
  "starter_rank S_Start = 6"
| "starter_rank S_Lock = 5"
| "starter_rank S_Woken = 5"
| "starter_rank S_Test = 4"
| "starter_rank S_Waiting = 3"
| "starter_rank S_Unlock = 2"
| "starter_rank S_Read = 1"
| "starter_rank (S_Returned r) = 0"

fun thread_rank :: "thread_pos \<Rightarrow> nat" where
  "thread_rank T_Unborn = 6"
| "thread_rank T_Callback = 5"
| "thread_rank T_Lock = 4"
| "thread_rank T_Set = 3"
| "thread_rank T_Notify = 2"
| "thread_rank T_Unlock = 1"
| "thread_rank T_Looping = 0"
| "thread_rank T_Ended = 0"

definition pair_measure :: "thread_pair \<Rightarrow> nat" where
  "pair_measure s = 10 * thread_rank (loop_thread s) + starter_rank (starter s)"

lemma pair_measure_less:
  "startLoop_step s = Some s' \<or> threadFunc_step l s = Some s' \<Longrightarrow> pair_measure s' < pair_measure s"
  by (cases "starter s"; cases "loop_thread s")
    (auto simp: startLoop_step_def threadFunc_step_def pair_measure_def split: if_splits)

text \<open>
  startLoop returns the loop of the new thread. As long as that loop has not ended, in every
  interleaving of the two threads what startLoop returns is the loop, never null; until it has returned
  one of the two threads can take a step, so they never deadlock and no notification is lost; and every
  such step brings the return closer (only spurious wakeups could delay it).
\<close>

theorem startLoop_returns_the_loop:
  assumes "pair_reach l s" "loop_thread s \<noteq> T_Ended"
  shows "(\<forall>r. starter s = S_Returned r \<longrightarrow> r = Some l)
    \<and> ((\<forall>r. starter s \<noteq> S_Returned r) \<longrightarrow> startLoop_step s \<noteq> None \<or> threadFunc_step l s \<noteq> None)
    \<and> (\<forall>s'. startLoop_step s = Some s' \<or> threadFunc_step l s = Some s' \<longrightarrow> pair_measure s' < pair_measure s)"
proof (intro conjI allI impI)
  note inv = pair_reach_inv [OF assms(1)]
  show "r = Some l" if "starter s = S_Returned r" for r
    using inv that assms(2) by (simp add: pair_inv_def)
  show "startLoop_step s \<noteq> None \<or> threadFunc_step l s \<noteq> None" if "\<forall>r. starter s \<noteq> S_Returned r"
    using inv that assms(2)
    by (cases "starter s"; cases "loop_thread s"; cases "holder s")
      (simp_all add: pair_inv_def startLoop_step_def threadFunc_step_def, (metis mutex_holder.exhaust)+)
  show "pair_measure s' < pair_measure s" if "startLoop_step s = Some s' \<or> threadFunc_step l s = Some s'" for s'
    using that by (rule pair_measure_less)
qed

lemma startLoop_returns_the_loop_witness:
  "\<exists>s s'. pair_reach 5 s \<and> starter s = S_Lock \<and> threadFunc_step 5 s = Some s' \<and> pair_measure s' < pair_measure s"
proof -
  let ?s = "new_EventLoopThread\<lparr>loop_thread := T_Callback, starter := S_Lock\<rparr>"
  have reach: "pair_reach 5 ?s"
    by (rule pair_reach.step [OF pair_reach.init, of _ P_starter]) (simp add: startLoop_step_def new_EventLoopThread_def)
  have step: "threadFunc_step 5 ?s = Some (?s\<lparr>loop_thread := T_Lock\<rparr>)" by (simp add: threadFunc_step_def)
  have "pair_measure (?s\<lparr>loop_thread := T_Lock\<rparr>) < pair_measure ?s"
    using startLoop_returns_the_loop [OF reach] step by fastforce
  with reach step show ?thesis by (intro exI [of _ ?s] exI conjI) simp_all
qed

end
