(* ===== verification/Tcp_Server.thy ===== *)
theory Tcp_Server
  imports Close_Once Loop_Pool
begin

text \<open>
  muduo/net/TcpServer.h and TcpServer.cpp, with the connections it owns (theory Tcp_Connection) and the
  pool that gives each a loop (theory Loop_Pool). A connection is its number in \<open>conns\<close>. What the server
  and its connections queue in the loops is held by kind: \<open>establishing\<close> (connectEstablished in the
  connection's loop), \<open>removing\<close> (removeConnectionInLoop in the base loop), \<open>destroying\<close>
  (connectDestroyed in the connection's loop); any of them may run next, which covers every order the
  loops can take. \<open>destroyed\<close> logs the connections whose connectDestroyed has run.
\<close>

record tcp_server =
  srv_name :: string
  srv_ipPort :: string
  nextConnId :: nat
  srv_started :: bool
  threadPool :: loop_pool
  srv_listening :: bool
  connections :: "(string \<times> nat) list"
  conns :: "tcp_connection list"
  conn_names :: "string list"
  conn_loops :: "nat list"
  establishing :: "nat list"
  removing :: "nat list"
  destroying :: "nat list"
  destroyed :: "nat list"

definition new_TcpServer :: "nat \<Rightarrow> string \<Rightarrow> string \<Rightarrow> tcp_server" where
  "new_TcpServer base ipPort name = \<lparr>srv_name = name, srv_ipPort = ipPort, nextConnId = 1, srv_started = False,
     threadPool = new_EventLoopThreadPool base name, srv_listening = False, connections = [], conns = [],
     conn_names = [], conn_loops = [], establishing = [], removing = [], destroying = [], destroyed = []\<rparr>"

definition server_setThreadNum :: "int \<Rightarrow> tcp_server \<Rightarrow> tcp_server option" where
  "server_setThreadNum n v = do {
     require (0 \<le> n);
     Some (v\<lparr>threadPool := setThreadNum (nat n) (threadPool v)\<rparr>) }"

definition server_start :: "(nat \<Rightarrow> nat) \<Rightarrow> tcp_server \<Rightarrow> tcp_server option" where
  "server_start startLoop v =
     (if \<not> srv_started v then do {
        let v = v\<lparr>srv_started := True\<rparr>;
        (cbs, p) \<leftarrow> pool_start True False startLoop (threadPool v);
        let v = v\<lparr>threadPool := p\<rparr>;
        require (\<not> srv_listening v);
        Some (v\<lparr>srv_listening := True\<rparr>) }
      else Some v)"

definition conn_name :: "tcp_server \<Rightarrow> nat \<Rightarrow> string" where
  "conn_name v n = srv_name v @ snprintf_to 64 (''-'' @ srv_ipPort v @ ''#'' @ dec_nat n)"

definition set_conn :: "nat \<Rightarrow> tcp_connection \<Rightarrow> tcp_server \<Rightarrow> tcp_server" where
  "set_conn i c v = v\<lparr>conns := (conns v)[i := c]\<rparr>"

definition server_establish :: "nat \<Rightarrow> tcp_server \<Rightarrow> tcp_server option" where
  "server_establish i v = do { c \<leftarrow> connectEstablished (conns v ! i); Some (set_conn i c v) }"

text \<open>\<open>wc\<close>: whether the server has a write-complete callback.\<close>

definition newConnection :: "bool \<Rightarrow> int \<Rightarrow> tcp_server \<Rightarrow> tcp_server option" where
  "newConnection wc sockfd v = do {
     (ioLoop, p) \<leftarrow> getNextLoop True (threadPool v);
     let connName = conn_name v (nextConnId v);
     let conn = new_TcpConnection sockfd wc False kHighWaterMark;
     let i = length (conns v);
     let v = v\<lparr>threadPool := p, nextConnId := nextConnId v + 1, conns := conns v @ [conn],
       conn_names := conn_names v @ [connName], conn_loops := conn_loops v @ [ioLoop],
       connections := amap_put connName i (connections v)\<rparr>;
     if ioLoop = baseLoop p then server_establish i v
     else Some (v\<lparr>establishing := establishing v @ [i]\<rparr>) }"

definition removeConnectionInLoop :: "nat \<Rightarrow> tcp_server \<Rightarrow> tcp_server option" where
  "removeConnectionInLoop i v = do {
     let n = (if map_of (connections v) (conn_names v ! i) = None then 0 else 1 :: nat);
     let v = v\<lparr>connections := amap_erase (conn_names v ! i) (connections v)\<rparr>;
     require (n = 1);
     Some (v\<lparr>destroying := destroying v @ [i]\<rparr>) }"

definition removeConnection :: "nat \<Rightarrow> tcp_server \<Rightarrow> tcp_server option" where
  "removeConnection i v =
     (if conn_loops v ! i = baseLoop (threadPool v) then removeConnectionInLoop i v
      else Some (v\<lparr>removing := removing v @ [i]\<rparr>))"

definition server_destroy_conn :: "nat \<Rightarrow> tcp_server \<Rightarrow> tcp_server option" where
  "server_destroy_conn i v = do {
     c \<leftarrow> connectDestroyed (conns v ! i);
     Some ((set_conn i c v)\<lparr>destroyed := destroyed v @ [i]\<rparr>) }"

text \<open>The destructor runs or queues connectDestroyed for every connection still in the map.\<close>

fun destroy_each :: "nat list \<Rightarrow> tcp_server \<Rightarrow> tcp_server option" where
  "destroy_each [] v = Some v"
| "destroy_each (i # is) v = do {
     v \<leftarrow> (if conn_loops v ! i = baseLoop (threadPool v) then server_destroy_conn i v
          else Some (v\<lparr>destroying := destroying v @ [i]\<rparr>));
     destroy_each is v }"

definition delete_TcpServer :: "tcp_server \<Rightarrow> tcp_server option" where
  "delete_TcpServer v = destroy_each (map snd (connections v)) v"

subsection \<open>What can happen\<close>

datatype server_event =
    V_accept bool int
  | V_establish nat
  | V_conn nat conn_event
  | V_remove nat
  | V_destroy nat

text \<open>A connection's close callback is \<open>removeConnection\<close>; it comes with the notice of the close.\<close>

fun server_do :: "server_event \<Rightarrow> tcp_server \<Rightarrow> tcp_server option" where
  "server_do (V_accept wc sockfd) v = newConnection wc sockfd v"
| "server_do (V_establish i) v = server_establish i (v\<lparr>establishing := remove1 i (establishing v)\<rparr>)"
| "server_do (V_conn i e) v = do {
     c \<leftarrow> conn_do e (conns v ! i);
     if close_count (conns v ! i) < close_count c then removeConnection i (set_conn i c v)
     else Some (set_conn i c v) }"
| "server_do (V_remove i) v = removeConnectionInLoop i (v\<lparr>removing := remove1 i (removing v)\<rparr>)"
| "server_do (V_destroy i) v = server_destroy_conn i (v\<lparr>destroying := remove1 i (destroying v)\<rparr>)"

text \<open>
  A started server; connection numbers stay in an int. A connection has events only after it was
  established, those of theory Tcp_Connection: calls of any thread, in steps, but no close between the
  test and the change of the state in one of them (\<open>calm\<close>; lemma \<open>overtaken_close_aborts_server\<close> shows
  why); its user does not call \<open>startRead\<close>.
\<close>

fun server_may :: "server_event \<Rightarrow> tcp_server \<Rightarrow> bool" where
  "server_may (V_accept wc sockfd) v \<longleftrightarrow> nextConnId v < 2 ^ 31 - 1"
| "server_may (V_establish i) v \<longleftrightarrow> i \<in> set (establishing v)"
| "server_may (V_conn i e) v \<longleftrightarrow> i < length (conns v) \<and> i \<notin> set (establishing v) \<and> quiet_event e
     \<and> may e (conns v ! i) \<and> calm e (conns v ! i)"
| "server_may (V_remove i) v \<longleftrightarrow> i \<in> set (removing v)"
| "server_may (V_destroy i) v \<longleftrightarrow> i \<in> set (destroying v)"

inductive server_reach :: "tcp_server \<Rightarrow> tcp_server \<Rightarrow> bool" for v0 where
  init: "server_reach v0 v0"
| step: "server_reach v0 v \<Longrightarrow> server_may e v \<Longrightarrow> server_do e v = Some v' \<Longrightarrow> server_reach v0 v'"

subsection \<open>The life of a connection\<close>

text \<open>
  Connection \<open>i\<close> is in the map exactly before it is removed, and in at most one queue; from its
  establishment to its destruction its channel is in the map of the poller.
\<close>

definition conn_stage :: "tcp_server \<Rightarrow> nat \<Rightarrow> bool" where
  "conn_stage v i \<longleftrightarrow>
     (let c = conns v ! i; E = i \<in> set (establishing v); R = i \<in> set (removing v);
          D = i \<in> set (destroying v); G = i \<in> set (destroyed v); M = map_of (connections v) (conn_names v ! i) = Some i
      in E \<and> conn_state c = kConnecting \<and> M \<and> \<not> R \<and> \<not> D \<and> \<not> G
       \<or> \<not> E \<and> live c \<and> M \<and> \<not> R \<and> \<not> D \<and> \<not> G \<and> addedToLoop (conn_channel c)
       \<or> \<not> E \<and> dead c \<and> M \<and> R \<and> \<not> D \<and> \<not> G \<and> addedToLoop (conn_channel c)
       \<or> \<not> E \<and> dead c \<and> \<not> M \<and> \<not> R \<and> D \<and> \<not> G \<and> addedToLoop (conn_channel c)
       \<or> \<not> E \<and> dead c \<and> \<not> M \<and> \<not> R \<and> \<not> D \<and> G)"

definition server_inv :: "tcp_server \<Rightarrow> bool" where
  "server_inv v \<longleftrightarrow>
     length (conn_names v) = length (conns v) \<and> length (conn_loops v) = length (conns v)
     \<and> nextConnId v = length (conns v) + 1 \<and> nextConnId v < 2 ^ 31 \<and> length (srv_ipPort v) \<le> 51
     \<and> conn_names v = map (\<lambda>i. conn_name v (i + 1)) [0..<length (conns v)]
     \<and> started (threadPool v) \<and> (loops (threadPool v) = [] \<or> next_loop (threadPool v) < length (loops (threadPool v)))
     \<and> distinct (establishing v) \<and> distinct (removing v) \<and> distinct (destroying v) \<and> distinct (destroyed v)
     \<and> set (establishing v) \<union> set (removing v) \<union> set (destroying v) \<union> set (destroyed v) \<subseteq> {..<length (conns v)}
     \<and> (\<forall>nm i. map_of (connections v) nm = Some i \<longrightarrow> i < length (conns v) \<and> conn_names v ! i = nm)
     \<and> (\<forall>i < length (conns v). conn_inv (conns v ! i) \<and> no_start (conns v ! i) \<and> conn_stage v i)"

lemma conn_name_inj:
  assumes "conn_name v m = conn_name v n" "length (srv_ipPort v) \<le> 51" "m < 2 ^ 31" "n < 2 ^ 31"
  shows "m = n"
proof -
  have "k < 10 ^ 10" if "k < 2 ^ 31" for k :: nat using that by simp
  then have "length (dec_nat m) \<le> 10" "length (dec_nat n) \<le> 10" using assms(3,4) by (auto intro!: length_dec_nat)
  with assms(1,2) show ?thesis by (simp add: conn_name_def snprintf_to_def)
qed

lemma server_invD:
  assumes "server_inv v"
  shows "length (conn_names v) = length (conns v)" "length (conn_loops v) = length (conns v)"
    "nextConnId v = length (conns v) + 1" "nextConnId v < 2 ^ 31" "length (srv_ipPort v) \<le> 51"
    "i < length (conns v) \<Longrightarrow> conn_names v ! i = conn_name v (i + 1)"
    "set (establishing v) \<union> set (removing v) \<union> set (destroying v) \<union> set (destroyed v) \<subseteq> {..<length (conns v)}"
    "i < length (conns v) \<Longrightarrow> conn_inv (conns v ! i)" "i < length (conns v) \<Longrightarrow> no_start (conns v ! i)"
    "i < length (conns v) \<Longrightarrow> conn_stage v i"
    "distinct (establishing v)" "distinct (removing v)" "distinct (destroying v)" "distinct (destroyed v)"
    "map_of (connections v) nm = Some i \<Longrightarrow> i < length (conns v) \<and> conn_names v ! i = nm"
proof -
  show "map_of (connections v) nm = Some i \<Longrightarrow> i < length (conns v) \<and> conn_names v ! i = nm"
    using assms unfolding server_inv_def by blast
qed (use assms in \<open>auto simp: server_inv_def\<close>)

lemma names_distinct:
  assumes "server_inv v" "i < length (conns v)" "j < length (conns v)" "conn_names v ! i = conn_names v ! j"
  shows "i = j"
proof -
  have "conn_name v (i + 1) = conn_name v (j + 1)"
    using assms(4) server_invD(6) [OF assms(1,2)] server_invD(6) [OF assms(1,3)] by simp
  from conn_name_inj [OF this server_invD(5) [OF assms(1)]] show ?thesis
    using server_invD(3,4) [OF assms(1)] assms(2,3) by simp
qed

text \<open>Only connection \<open>i\<close> moves.\<close>

definition only_moves :: "nat \<Rightarrow> tcp_server \<Rightarrow> tcp_server \<Rightarrow> bool" where
  "only_moves i v v' \<longleftrightarrow>
     srv_name v' = srv_name v \<and> srv_ipPort v' = srv_ipPort v \<and> nextConnId v' = nextConnId v
     \<and> conn_names v' = conn_names v \<and> conn_loops v' = conn_loops v \<and> threadPool v' = threadPool v
     \<and> (\<exists>c. conns v' = (conns v)[i := c])
     \<and> (\<forall>j. j \<noteq> i \<longrightarrow> (j \<in> set (establishing v') \<longleftrightarrow> j \<in> set (establishing v)) \<and> (j \<in> set (removing v') \<longleftrightarrow> j \<in> set (removing v))
          \<and> (j \<in> set (destroying v') \<longleftrightarrow> j \<in> set (destroying v)) \<and> (j \<in> set (destroyed v') \<longleftrightarrow> j \<in> set (destroyed v)))
     \<and> (connections v' = connections v \<or> connections v' = amap_erase (conn_names v ! i) (connections v))
     \<and> distinct (establishing v') \<and> distinct (removing v') \<and> distinct (destroying v') \<and> distinct (destroyed v')"

lemma server_inv_moves:
  assumes inv: "server_inv v" and i: "i < length (conns v)" and mv: "only_moves i v v'"
    and c: "conn_inv (conns v' ! i)" "no_start (conns v' ! i)" "conn_stage v' i"
  shows "server_inv v'"
proof -
  obtain c' where m: "srv_name v' = srv_name v" "srv_ipPort v' = srv_ipPort v" "nextConnId v' = nextConnId v"
      "conn_names v' = conn_names v" "conn_loops v' = conn_loops v" "threadPool v' = threadPool v"
      "conns v' = (conns v)[i := c']"
    using mv unfolding only_moves_def by blast
  have q: "j \<noteq> i \<Longrightarrow> (j \<in> set (establishing v') \<longleftrightarrow> j \<in> set (establishing v)) \<and> (j \<in> set (removing v') \<longleftrightarrow> j \<in> set (removing v))
          \<and> (j \<in> set (destroying v') \<longleftrightarrow> j \<in> set (destroying v)) \<and> (j \<in> set (destroyed v') \<longleftrightarrow> j \<in> set (destroyed v))" for j
    using mv unfolding only_moves_def by blast
  have cn: "connections v' = connections v \<or> connections v' = amap_erase (conn_names v ! i) (connections v)"
    and ds: "distinct (establishing v')" "distinct (removing v')" "distinct (destroying v')" "distinct (destroyed v')"
    using mv unfolding only_moves_def by blast+
  have old: "map_of (connections v') nm = Some j \<Longrightarrow> map_of (connections v) nm = Some j" for nm j
    using cn by (auto split: if_splits)
  have other: "map_of (connections v') (conn_names v ! j) = map_of (connections v) (conn_names v ! j)"
    if "j \<noteq> i" "j < length (conns v)" for j
    using cn names_distinct [OF inv i that(2)] that(1) by auto
  have stage: "conn_stage v' j" if j: "j < length (conns v)" "j \<noteq> i" for j
    using server_invD(10) [OF inv j(1)] q [OF j(2)] other [OF j(2,1)] j m(4,7) by (simp add: conn_stage_def)
  have sub: "set (establishing v') \<union> set (removing v') \<union> set (destroying v') \<union> set (destroyed v') \<subseteq> {..<length (conns v)}"
  proof
    fix j
    assume j: "j \<in> set (establishing v') \<union> set (removing v') \<union> set (destroying v') \<union> set (destroyed v')"
    show "j \<in> {..<length (conns v)}"
    proof (cases "j = i")
      case False
      with j q [of j] server_invD(7) [OF inv] show ?thesis by auto
    qed (use i in simp)
  qed
  have names: "conn_name v' = conn_name v" by (simp add: conn_name_def fun_eq_iff m)
  have each: "conn_inv (conns v' ! j) \<and> no_start (conns v' ! j) \<and> conn_stage v' j" if "j < length (conns v)" for j
    using that c stage server_invD(8,9) [OF inv that] m(7) by (cases "j = i") simp_all
  have conns: "length (conns v') = length (conns v)" by (simp add: m)
  show ?thesis
    unfolding server_inv_def conns names m(1-6)
    using inv sub ds each old unfolding server_inv_def by blast
qed

lemma server_establish_inv:
  assumes inv: "server_inv v" and i: "i \<in> set (establishing v)"
  shows "\<exists>v'. server_establish i (v\<lparr>establishing := remove1 i (establishing v)\<rparr>) = Some v' \<and> server_inv v'"
proof -
  have l: "i < length (conns v)" using server_invD(7) [OF inv] i by auto
  have st: "conn_state (conns v ! i) = kConnecting" using server_invD(10) [OF inv l] i by (auto simp: conn_stage_def Let_def)
  obtain c where c: "connectEstablished (conns v ! i) = Some c" "conn_inv c"
    using connectEstablished_inv [OF server_invD(8) [OF inv l] st] by blast
  have cs: "live c" "queued c = queued (conns v ! i)" "addedToLoop (conn_channel c)"
    using c(1) by (auto simp: connectEstablished_def live_def setState_def connectionCallback_def notify_def Let_def
        require_def split: if_splits)
  let ?v = "set_conn i c (v\<lparr>establishing := remove1 i (establishing v)\<rparr>)"
  have "only_moves i v ?v"
    using server_invD(11-14) [OF inv] by (auto simp: only_moves_def set_conn_def)
  moreover have "conn_inv (conns ?v ! i)" "no_start (conns ?v ! i)" "conn_stage ?v i"
    using c(2) cs l server_invD(9,10) [OF inv l] server_invD(11) [OF inv] i
    by (auto simp: set_conn_def no_start_def conn_stage_def Let_def)
  ultimately have "server_inv ?v" by (rule server_inv_moves [OF inv l])
  with c(1) show ?thesis by (simp add: server_establish_def)
qed

lemma remove_in_loop_inv:
  assumes inv: "server_inv v" and l: "i < length (conns v)" and c: "conn_inv c" "no_start c" "dead c"
    and M: "map_of (connections v) (conn_names v ! i) = Some i" and E: "i \<notin> set (establishing v)"
    and D: "i \<notin> set (destroying v)" "i \<notin> set (destroyed v)" and added: "addedToLoop (conn_channel c)"
  shows "\<exists>v'. removeConnectionInLoop i ((set_conn i c v)\<lparr>removing := remove1 i (removing v)\<rparr>) = Some v' \<and> server_inv v'"
proof -
  let ?v = "(set_conn i c v)\<lparr>removing := remove1 i (removing v), connections := amap_erase (conn_names v ! i) (connections v),
    destroying := destroying v @ [i]\<rparr>"
  have "removeConnectionInLoop i ((set_conn i c v)\<lparr>removing := remove1 i (removing v)\<rparr>) = Some ?v"
    using M by (simp add: removeConnectionInLoop_def set_conn_def)
  moreover have "only_moves i v ?v"
    using server_invD(11-14) [OF inv] D by (auto simp: only_moves_def set_conn_def)
  moreover have "conn_inv (conns ?v ! i)" "no_start (conns ?v ! i)" "conn_stage ?v i"
    using c l E D(2) added server_invD(12) [OF inv] by (auto simp: set_conn_def conn_stage_def Let_def)
  ultimately show ?thesis using server_inv_moves [OF inv l] by blast
qed

lemma server_remove_inv:
  assumes inv: "server_inv v" and i: "i \<in> set (removing v)"
  shows "\<exists>v'. removeConnectionInLoop i (v\<lparr>removing := remove1 i (removing v)\<rparr>) = Some v' \<and> server_inv v'"
proof -
  have l: "i < length (conns v)" using server_invD(7) [OF inv] i by auto
  have st: "dead (conns v ! i)" "map_of (connections v) (conn_names v ! i) = Some i" "i \<notin> set (establishing v)"
      "i \<notin> set (destroying v)" "i \<notin> set (destroyed v)" "addedToLoop (conn_channel (conns v ! i))"
    using server_invD(10) [OF inv l] i by (auto simp: conn_stage_def Let_def)
  from remove_in_loop_inv [OF inv l server_invD(8,9) [OF inv l] st] show ?thesis by (simp add: set_conn_def)
qed

lemma server_conn_inv:
  assumes inv: "server_inv v" and may: "server_may (V_conn i e) v"
  shows "\<exists>v'. server_do (V_conn i e) v = Some v' \<and> server_inv v'"
proof -
  define c where "c = conns v ! i"
  have l: "i < length (conns v)" and E: "i \<notin> set (establishing v)" and e: "quiet_event e" "may e c" "calm e c"
    using may by (simp_all add: c_def)
  have ci: "conn_inv c" "no_start c" "conn_stage v i"
    unfolding c_def using server_invD(8-10) [OF inv l] by blast+
  have ld: "live c \<or> dead c" using ci(3) E by (auto simp: conn_stage_def Let_def c_def)
  obtain c' where run: "conn_do e c = Some c'"
    using conn_do_ok [OF ci(1) e(2,3)] e(1) by (auto simp: quiet_event_def)
  have ci': "conn_inv c'" using conn_do_inv [OF ci(1) e(2,3) run] by blast
  note cl = closes_conn_do [OF run e(1) ld ci(2) e(3)]
  have ns: "no_start c'" and added: "addedToLoop (conn_channel c) \<longrightarrow> addedToLoop (conn_channel c')"
    using cl ci(2) by (simp_all add: close_rel_def)
  have same: "server_inv (set_conn i c' v)" if st: "live c \<and> live c' \<or> dead c \<and> dead c'"
  proof (rule server_inv_moves [OF inv l])
    show "only_moves i v (set_conn i c' v)"
      using server_invD(11-14) [OF inv] by (auto simp: only_moves_def set_conn_def)
    show "conn_inv (conns (set_conn i c' v) ! i)" "no_start (conns (set_conn i c' v) ! i)"
      using l ci' ns by (simp_all add: set_conn_def)
    show "conn_stage (set_conn i c' v) i"
      using ci(3) st E l live_not_dead added by (auto simp: conn_stage_def Let_def set_conn_def c_def)
  qed
  show ?thesis
  proof (cases "close_count c' = close_count c")
    case True
    then have "live c \<and> live c' \<or> dead c \<and> dead c'" using cl ld by (auto simp: close_rel_def)
    from same [OF this] True run show ?thesis by (simp add: c_def)
  next
    case False
    then have st: "live c" "dead c'" "close_count c < close_count c'"
      using cl ld by (auto simp: close_rel_def)
    then have M: "map_of (connections v) (conn_names v ! i) = Some i" "i \<notin> set (removing v)" "i \<notin> set (destroying v)"
        "i \<notin> set (destroyed v)" "addedToLoop (conn_channel c')"
      using ci(3) E live_not_dead added by (auto simp: conn_stage_def Let_def c_def)
    have step: "server_do (V_conn i e) v = removeConnection i (set_conn i c' v)"
      using run st(3) by (simp add: c_def)
    show ?thesis
    proof (cases "conn_loops v ! i = baseLoop (threadPool v)")
      case True
      have "(set_conn i c' v)\<lparr>removing := remove1 i (removing v)\<rparr> = set_conn i c' v"
        using M(2) by (simp add: set_conn_def remove1_idem)
      with remove_in_loop_inv [OF inv l ci' ns st(2) M(1) E M(3,4,5)] step True show ?thesis
        by (simp add: removeConnection_def set_conn_def)
    next
      case False
      let ?v = "(set_conn i c' v)\<lparr>removing := removing v @ [i]\<rparr>"
      have "server_inv ?v"
      proof (rule server_inv_moves [OF inv l])
        show "only_moves i v ?v"
          using server_invD(11-14) [OF inv] M(2) by (auto simp: only_moves_def set_conn_def)
        show "conn_inv (conns ?v ! i)" "no_start (conns ?v ! i)" using l ci' ns by (simp_all add: set_conn_def)
        show "conn_stage ?v i" using M E st l by (simp add: conn_stage_def Let_def set_conn_def)
      qed
      with step False show ?thesis by (simp add: removeConnection_def set_conn_def)
    qed
  qed
qed

lemma server_destroy_inv:
  assumes inv: "server_inv v" and i: "i \<in> set (destroying v)"
  shows "\<exists>v'. server_destroy_conn i (v\<lparr>destroying := remove1 i (destroying v)\<rparr>) = Some v' \<and> server_inv v'"
proof -
  have l: "i < length (conns v)" using server_invD(7) [OF inv] i by auto
  have st: "dead (conns v ! i)" "map_of (connections v) (conn_names v ! i) \<noteq> Some i" "i \<notin> set (establishing v)"
      "i \<notin> set (removing v)" "i \<notin> set (destroyed v)" "addedToLoop (conn_channel (conns v ! i))"
    using server_invD(10) [OF inv l] i by (auto simp: conn_stage_def Let_def)
  define c where "c = (conns v ! i)\<lparr>conn_channel := (conn_channel (conns v ! i))\<lparr>addedToLoop := False\<rparr>\<rparr>"
  have run: "connectDestroyed (conns v ! i) = Some c"
    using st(1,6) by (simp add: connectDestroyed_def channel_remove_def dead_def c_def Let_def)
  have c: "conn_inv c" "no_start c" "dead c"
    using connectDestroyed_inv [OF server_invD(8) [OF inv l] run] server_invD(9) [OF inv l] st(1)
    by (simp_all add: c_def no_start_def dead_def)
  let ?v = "(set_conn i c (v\<lparr>destroying := remove1 i (destroying v)\<rparr>))\<lparr>destroyed := destroyed v @ [i]\<rparr>"
  have "server_inv ?v"
  proof (rule server_inv_moves [OF inv l])
    show "only_moves i v ?v"
      using server_invD(11-14) [OF inv] st(5) by (auto simp: only_moves_def set_conn_def)
    show "conn_inv (conns ?v ! i)" "no_start (conns ?v ! i)" using l c by (simp_all add: set_conn_def)
    show "conn_stage ?v i" using c(3) st l server_invD(13) [OF inv] by (simp add: conn_stage_def Let_def set_conn_def)
  qed
  with run show ?thesis by (simp add: server_destroy_conn_def)
qed

lemma getNextLoop_ok:
  assumes "started p" "loops p = [] \<or> next_loop p < length (loops p)"
  shows "\<exists>l p'. getNextLoop True p = Some (l, p') \<and> started p' \<and> (loops p' = [] \<or> next_loop p' < length (loops p'))"
proof (cases "loops p")
  case Nil
  with assms show ?thesis by (simp add: getNextLoop_def)
next
  case (Cons x xs)
  with assms show ?thesis by (simp add: getNextLoop_def Let_def)
qed

lemma newConnection_inv:
  assumes inv: "server_inv v" and may: "nextConnId v < 2 ^ 31 - 1"
  shows "\<exists>v'. newConnection wc fd v = Some v' \<and> server_inv v'"
proof -
  let ?n = "length (conns v)"
  let ?nm = "conn_name v (nextConnId v)"
  define c where "c = new_TcpConnection fd wc False kHighWaterMark"
  obtain l p where p: "getNextLoop True (threadPool v) = Some (l, p)" "started p"
      "loops p = [] \<or> next_loop p < length (loops p)"
    using getNextLoop_ok [of "threadPool v"] inv unfolding server_inv_def by blast
  define v1 where "v1 = v\<lparr>threadPool := p, nextConnId := nextConnId v + 1, conns := conns v @ [c],
     conn_names := conn_names v @ [?nm], conn_loops := conn_loops v @ [l], connections := amap_put ?nm ?n (connections v)\<rparr>"
  define v2 where "v2 = v1\<lparr>establishing := establishing v @ [?n]\<rparr>"
  have c: "conn_inv c" "no_start c" "conn_state c = kConnecting"
    using new_TcpConnection_inv(1) by (simp_all add: c_def no_start_def new_TcpConnection_def)
  note D = server_invD [OF inv]
  have fresh: "?n \<notin> set (establishing v)" "?n \<notin> set (removing v)" "?n \<notin> set (destroying v)" "?n \<notin> set (destroyed v)"
    using D(7) by auto
  have new_name: "conn_names v ! j \<noteq> ?nm" if "j < ?n" for j
    using conn_name_inj [of v "j + 1" "nextConnId v"] D(3-5) D(6) [OF that] that may by auto
  have names: "conn_name v2 = conn_name v" by (simp add: conn_name_def fun_eq_iff v2_def v1_def)
  have stage: "conn_stage v2 j" if "j \<le> ?n" for j
  proof (cases "j = ?n")
    case True
    with c fresh D(1) show ?thesis by (simp add: conn_stage_def Let_def v2_def v1_def nth_append)
  next
    case False
    with that have j: "j < ?n" by simp
    with D(10) [OF j] new_name [OF j] D(1) show ?thesis
      by (simp add: conn_stage_def Let_def v2_def v1_def nth_append)
  qed
  have "server_inv v2"
    unfolding server_inv_def names
  proof (intro conjI)
    show "conn_names v2 = map (\<lambda>i. conn_name v (i + 1)) [0..<length (conns v2)]"
      using inv by (simp add: v2_def v1_def server_inv_def)
    show "\<forall>nm i. map_of (connections v2) nm = Some i \<longrightarrow> i < length (conns v2) \<and> conn_names v2 ! i = nm"
    proof (intro allI impI)
      fix nm i
      assume m: "map_of (connections v2) nm = Some i"
      show "i < length (conns v2) \<and> conn_names v2 ! i = nm"
      proof (cases "nm = ?nm")
        case True
        with m D(1) show ?thesis by (simp add: v2_def v1_def nth_append)
      next
        case False
        with m have "map_of (connections v) nm = Some i" by (simp add: v2_def v1_def)
        from D(15) [OF this] D(1) show ?thesis by (simp add: v2_def v1_def nth_append)
      qed
    qed
    show "\<forall>i<length (conns v2). conn_inv (conns v2 ! i) \<and> no_start (conns v2 ! i) \<and> conn_stage v2 i"
    proof (intro allI impI)
      fix i
      assume "i < length (conns v2)"
      then have "i \<le> ?n" by (simp add: v2_def v1_def)
      with stage [OF this] c D(8,9) [of i] show "conn_inv (conns v2 ! i) \<and> no_start (conns v2 ! i) \<and> conn_stage v2 i"
        by (cases "i = ?n") (simp_all add: v2_def v1_def nth_append)
    qed
    show "set (establishing v2) \<union> set (removing v2) \<union> set (destroying v2) \<union> set (destroyed v2) \<subseteq> {..<length (conns v2)}"
      using D(7) by (auto simp: v2_def v1_def less_Suc_eq)
  qed (use D(1-5,11-14) fresh p(2,3) may in \<open>simp_all add: v2_def v1_def\<close>)
  moreover have "v1 = v2\<lparr>establishing := remove1 ?n (establishing v2)\<rparr>"
    using fresh(1) by (simp add: v2_def v1_def remove1_append remove1_idem)
  then have "\<exists>v'. server_establish ?n v1 = Some v' \<and> server_inv v'" if "server_inv v2"
    using server_establish_inv [OF that, of ?n] by (simp add: v2_def)
  moreover have "newConnection wc fd v = (if l = baseLoop p then server_establish ?n v1 else Some v2)"
    using p(1) by (simp add: newConnection_def v2_def v1_def c_def Let_def)
  ultimately show ?thesis by simp
qed

lemma server_do_inv:
  assumes "server_inv v" "server_may e v"
  shows "\<exists>v'. server_do e v = Some v' \<and> server_inv v'"
proof (cases e)
  case (V_accept wc fd)
  with assms newConnection_inv show ?thesis by simp
next
  case (V_conn i ev)
  with assms server_conn_inv show ?thesis by simp
qed (use assms server_establish_inv server_remove_inv server_destroy_inv in auto)

text \<open>A server that has just been started.\<close>

definition started_server :: "string \<Rightarrow> tcp_server \<Rightarrow> bool" where
  "started_server ipPort v \<longleftrightarrow> (\<exists>base name n f. length ipPort \<le> 51 \<and>
     server_start f ((new_TcpServer base ipPort name)\<lparr>threadPool := setThreadNum n (new_EventLoopThreadPool base name)\<rparr>) = Some v)"

lemma started_server_inv:
  assumes "started_server ipPort v"
  shows "server_inv v"
proof -
  obtain base name n f where s: "length ipPort \<le> 51"
    "server_start f ((new_TcpServer base ipPort name)\<lparr>threadPool := setThreadNum n (new_EventLoopThreadPool base name)\<rparr>) = Some v"
    using assms by (auto simp: started_server_def)
  let ?p = "start_threads f 0 n ((setThreadNum n (new_EventLoopThreadPool base name))\<lparr>started := True\<rparr>)"
  have "v = (new_TcpServer base ipPort name)\<lparr>srv_started := True, threadPool := ?p, srv_listening := True\<rparr>"
    using s(2) by (auto simp: server_start_def pool_start_def new_TcpServer_def setThreadNum_def
        new_EventLoopThreadPool_def Let_def)
  with s(1) show ?thesis
    by (cases n) (simp_all add: server_inv_def new_TcpServer_def start_threads_loops setThreadNum_def new_EventLoopThreadPool_def)
qed

lemma server_reach_inv: "server_reach v0 v \<Longrightarrow> server_inv v0 \<Longrightarrow> server_inv v"
proof (induction rule: server_reach.induct)
  case (step v e v')
  with server_do_inv [of v e] show ?case by auto
qed

text \<open>
  What the order of the calls is for: with a forceClose of another thread between its test and its
  change of the state, the end of the peer's stream removes the connection from the map, the rest of
  the call closes it again, and the assertion that it is in the map ends the process.
\<close>

lemma overtaken_close_aborts_server:
  assumes inv: "server_inv v" and i: "i < length (conns v)" "i \<notin> set (establishing v)"
    and c: "live (conns v ! i)" "Tested Other_forceClose \<in> set (in_calls (conns v ! i))" "queued (conns v ! i) = []"
    and base: "conn_loops v ! i = baseLoop (threadPool v)"
  shows "\<exists>v1 v2 v3. server_do (V_conn i (E_eof t)) v = Some v1
    \<and> server_do (V_conn i (E_call_sets Other_forceClose)) v1 = Some v2
    \<and> server_do (V_conn i (E_call_hands_over Other_forceClose)) v2 = Some v3
    \<and> server_do (V_conn i (E_run ans)) v3 = None"
proof -
  obtain c1 where c1: "conn_do (E_eof t) (conns v ! i) = Some c1" "conn_state c1 = kDisconnected" "queued c1 = []"
      "in_calls c1 = in_calls (conns v ! i)" "notices c1 = notices (conns v ! i) @ [Connection_Callback False, Close_Callback]"
    using eof_closes [OF server_invD(8) [OF inv i(1)], of t] c(1,3) by (cases "conn_do (E_eof t) (conns v ! i)") auto
  have M: "map_of (connections v) (conn_names v ! i) = Some i"
    using server_invD(10) [OF inv i(1)] i(2) c(1) live_not_dead by (auto simp: conn_stage_def Let_def)
  define v1 where "v1 = (set_conn i c1 v)\<lparr>connections := amap_erase (conn_names v ! i) (connections v), destroying := destroying v @ [i]\<rparr>"
  define c2 where "c2 = call_sets Other_forceClose c1"
  define c3 where "c3 = call_hands_over Other_forceClose c2"
  have c3: "queued c3 = [F_forceCloseInLoop]" "conn_state c3 = kDisconnecting" "notices c3 = notices c1" "notices c2 = notices c1"
    using c1(3) by (simp_all add: c3_def c2_def call_hands_over_def call_sets_def setState_def queueFunctor_def)
  have "server_do (V_conn i (E_eof t)) v = Some v1"
    using c1(1,5) M base
    by (simp del: conn_do.simps(11) add: close_count_def removeConnection_def removeConnectionInLoop_def set_conn_def v1_def)
  moreover have "server_do (V_conn i (E_call_sets Other_forceClose)) v1 = Some (set_conn i c2 v1)"
    using i(1) c3(4) by (simp add: v1_def set_conn_def c2_def close_count_def)
  moreover have "server_do (V_conn i (E_call_hands_over Other_forceClose)) (set_conn i c2 v1) = Some (set_conn i c3 v1)"
    using i(1) c3(3,4) by (simp add: v1_def set_conn_def c3_def [symmetric] close_count_def)
  moreover have "server_do (V_conn i (E_run ans)) (set_conn i c3 v1) = None"
    using i(1) c3(1,2) base
    by (simp add: v1_def set_conn_def close_count_def forceCloseInLoop_def handleClose_def notify_def setState_def
        connectionCallback_def removeConnection_def removeConnectionInLoop_def Let_def)
  ultimately show ?thesis by blast
qed

subsection \<open>The properties\<close>

fun server_events :: "server_event list \<Rightarrow> tcp_server \<Rightarrow> tcp_server option" where
  "server_events [] v = Some v"
| "server_events (e # es) v = (if server_may e v then do { v \<leftarrow> server_do e v; server_events es v } else None)"

lemma server_events_reach: "server_events es v = Some v' \<Longrightarrow> server_reach v0 v \<Longrightarrow> server_reach v0 v'"
  by (induction es arbitrary: v) (auto split: if_splits Option.bind_splits intro: server_reach.step)

definition sample_server :: tcp_server where
  "sample_server = the (server_start (\<lambda>i. i + 7) ((new_TcpServer 1 ''h:9'' ''s'')\<lparr>threadPool := setThreadNum 0 (new_EventLoopThreadPool 1 ''s'')\<rparr>))"

lemma sample_started: "started_server ''h:9'' sample_server"
proof -
  have "server_start (\<lambda>i. i + 7) ((new_TcpServer 1 ''h:9'' ''s'')\<lparr>threadPool := setThreadNum 0 (new_EventLoopThreadPool 1 ''s'')\<rparr>) = Some sample_server"
    by (simp add: sample_server_def server_start_def pool_start_def new_TcpServer_def setThreadNum_def
        new_EventLoopThreadPool_def Let_def)
  moreover have "length ''h:9'' \<le> 51" by simp
  ultimately show ?thesis unfolding started_server_def by blast
qed

lemma sample_closed:
  "\<exists>v. server_reach sample_server v \<and> destroying v = [0] \<and> length (conns v) = 1"
proof -
  have "\<exists>v. server_events [V_accept False 5, V_conn 0 E_forceClose, V_conn 0 (E_run (Wrote 0))] sample_server = Some v
      \<and> destroying v = [0] \<and> length (conns v) = 1"
    by (simp add: sample_server_def server_start_def pool_start_def new_TcpServer_def setThreadNum_def
        new_EventLoopThreadPool_def newConnection_def getNextLoop_def server_establish_def connectEstablished_def
        new_TcpConnection_def connectionCallback_def notify_def setState_def forceClose_def forceCloseInLoop_def
        handleClose_def queueFunctor_def close_count_def removeConnection_def removeConnectionInLoop_def set_conn_def quiet_event_def Let_def)
  then obtain v where "server_events [V_accept False 5, V_conn 0 E_forceClose, V_conn 0 (E_run (Wrote 0))] sample_server = Some v"
      "destroying v = [0]" "length (conns v) = 1"
    by blast
  with server_events_reach [OF _ server_reach.init] show ?thesis by blast
qed



text \<open>
  C22: Every connection has one life. It is in the server's map under a name no other connection has
  exactly until its close is processed; by then it is down and its user has been told so, once up and
  once down; and connectDestroyed runs for it at most once, only after that. This is for users that do not call
  startRead, and for runs in which no close overtakes a call of another thread between its test and its
  change of the state.
\<close>

theorem connections_have_one_life:
  assumes "started_server ipPort v0" "server_reach v0 v" "i < length (conns v)"
  shows "map_of (connections v) (conn_names v ! i) = (if i \<in> set (destroying v) \<union> set (destroyed v) then None else Some i)
    \<and> (if i \<in> set (destroying v) \<union> set (destroyed v)
       then conn_state (conns v ! i) = kDisconnected \<and> updowns (notices (conns v ! i)) = [True, False] else True)
    \<and> count_list (destroying v @ destroyed v) i \<le> 1
    \<and> filter (\<lambda>j. conn_names v ! j = conn_names v ! i) [0..<length (conns v)] = [i]"
proof (intro conjI)
  have inv: "server_inv v" by (rule server_reach_inv [OF assms(2) started_server_inv [OF assms(1)]])
  have stage: "conn_stage v i" and ci: "conn_inv (conns v ! i)" using server_invD(8,10) [OF inv assms(3)] by blast+
  have entry: "map_of (connections v) (conn_names v ! i) = None \<or> map_of (connections v) (conn_names v ! i) = Some i"
  proof (cases "map_of (connections v) (conn_names v ! i)")
    case (Some j)
    from server_invD(15) [OF inv this] names_distinct [OF inv _ assms(3)] Some show ?thesis by auto
  qed simp
  then show "map_of (connections v) (conn_names v ! i) = (if i \<in> set (destroying v) \<union> set (destroyed v) then None else Some i)"
    using stage by (auto simp: conn_stage_def Let_def)
  show "if i \<in> set (destroying v) \<union> set (destroyed v)
     then conn_state (conns v ! i) = kDisconnected \<and> updowns (notices (conns v ! i)) = [True, False] else True"
    using stage conn_invD(9) [OF ci] by (auto simp: conn_stage_def Let_def dead_def)
  show "count_list (destroying v @ destroyed v) i \<le> 1"
    using stage distinct_count_list [OF server_invD(13) [OF inv], of i] distinct_count_list [OF server_invD(14) [OF inv], of i]
    by (auto simp: conn_stage_def Let_def)
  have "filter (\<lambda>j. conn_names v ! j = conn_names v ! i) [0..<length (conns v)] = filter (\<lambda>j. j = i) [0..<length (conns v)]"
    using names_distinct [OF inv _ assms(3)] by (intro filter_cong) auto
  also have "\<dots> = [i]"
    using assms(3) by (rule filter_single)
  finally show "filter (\<lambda>j. conn_names v ! j = conn_names v ! i) [0..<length (conns v)] = [i]" .
qed

lemma connections_have_one_life_witness:
  "\<exists>v. server_reach sample_server v \<and> destroying v = [0] \<and> map_of (connections v) (conn_names v ! 0) = None
     \<and> updowns (notices (conns v ! 0)) = [True, False]"
proof -
  obtain v where v: "server_reach sample_server v" "destroying v = [0]" "length (conns v) = 1" using sample_closed by blast
  from connections_have_one_life [OF sample_started v(1), of 0] v show ?thesis by auto
qed

end
