(* ===== verification/Frame_Transport.thy ===== *)
theory Frame_Transport
  imports Tcp_Connection
begin

text \<open>
  examples/tstlesrv: the echo server of the repository. basetransport.cpp and frametransport.h,
  frametransport.cpp read frames (a 4-byte length in network order, then that many bytes) from a
  non-blocking socket; clientctx.hpp, clientctx.cpp own the socket and its libevent events, answer each
  frame's body and are recycled for later connections. One record holds both objects: they are created
  together and the signals between them are direct calls. What the program is written on is an argument:
  the answers of recv(2) and write(2), and what libevent says. The bytes that have arrived at the socket
  and are not read yet are \<open>sock_in\<close>; the messages given to EchoIt, the bytes written, the recycling and
  push connections given up are logged. None is an assertion of the Buffer, a write outside it, or a call
  of event_del on memory no event was ever assigned to that does not return.
\<close>

datatype socket_state = SOCKET_RECV_FRAMING | SOCKET_RECV | SOCKET_SEND

datatype app_state = APP_INIT | APP_READ_FRAME_SIZE | APP_READ_REQUEST | APP_WAIT_TASK | APP_SEND_RESULT
  | APP_CLOSE_CONNECTION

definition INVALID_SOCKET :: int where "INVALID_SOCKET = - 1"

text \<open>
  A libevent event: its memory never assigned, assigned, added. What libevent does in one call of a handler:
  event_del on memory never assigned is undefined, so \<open>del_raw\<close> is None (the process dies) or what it
  returns; \<open>add_ok\<close> says whether event_add succeeds for the given flags. Every event of a run comes with
  answers of its own.
\<close>

datatype ev_state = Ev_Raw | Ev_Assigned | Ev_Added

record libevent =
  del_raw :: "bool option"
  add_ok :: "int \<Rightarrow> bool"

fun event_del :: "libevent \<Rightarrow> ev_state \<Rightarrow> (bool \<times> ev_state) option" where
  "event_del env Ev_Raw = map_option (\<lambda>ok. (ok, Ev_Raw)) (del_raw env)"
| "event_del env Ev_Assigned = Some (True, Ev_Assigned)"
| "event_del env Ev_Added = Some (True, Ev_Assigned)"

definition EV_READ :: int where "EV_READ = 2"
definition EV_WRITE :: int where "EV_WRITE = 4"
definition EV_PERSIST :: int where "EV_PERSIST = 16"

lemmas ev_flags = EV_READ_def EV_WRITE_def EV_PERSIST_def

record client_ctx =
  allocated :: bool
  ctxIsInUse :: bool
  m_flags :: int
  m_sfd :: int
  rdEvent :: ev_state
  wrEvent :: ev_state
  m_sessionID :: int
  m_notifyID :: int
  m_socket :: int
  m_in_buffer :: buffer
  m_outputBuffer :: buffer
  m_readWant :: int
  rd_sock_State :: socket_state
  rd_app_state :: app_state
  sock_in :: string
  sock_out :: string
  echoed :: "string list"
  returns :: nat
  given_up :: "int list"

text \<open>
  The constructors. CFrameTransport does not initialise \<open>m_rd_app_state\<close>: \<open>garbage\<close> is what the memory holds.
\<close>

definition new_ClientCtx :: client_ctx where
  "new_ClientCtx = \<lparr>allocated = False, ctxIsInUse = False, m_flags = 0, m_sfd = INVALID_SOCKET, rdEvent = Ev_Raw,
     wrEvent = Ev_Raw, m_sessionID = 0, m_notifyID = 0, m_socket = INVALID_SOCKET, m_in_buffer = new_Buffer kInitialSize,
     m_outputBuffer = new_Buffer kInitialSize, m_readWant = 0, rd_sock_State = SOCKET_RECV_FRAMING, rd_app_state = APP_INIT,
     sock_in = [], sock_out = [], echoed = [], returns = 0, given_up = []\<rparr>"

definition new_CFrameTransport :: "app_state \<Rightarrow> client_ctx \<Rightarrow> client_ctx" where
  "new_CFrameTransport garbage c = c\<lparr>m_socket := INVALID_SOCKET, m_in_buffer := new_Buffer kInitialSize,
     m_outputBuffer := new_Buffer kInitialSize, m_readWant := 0, rd_sock_State := SOCKET_RECV_FRAMING, rd_app_state := garbage\<rparr>"

definition transport_init :: "client_ctx \<Rightarrow> client_ctx" where
  "transport_init c = c\<lparr>rd_sock_State := SOCKET_RECV_FRAMING, m_readWant := 0\<rparr>"

subsection \<open>Events and closing\<close>

definition event_add :: "libevent \<Rightarrow> int \<Rightarrow> bool \<times> ev_state" where
  "event_add env flags = (if add_ok env flags then (True, Ev_Added) else (False, Ev_Assigned))"

text \<open>\<open>wr\<close>: the event is \<open>m_wrEvent\<close>, else \<open>m_rdEvent\<close>.\<close>

definition set_event :: "bool \<Rightarrow> ev_state \<Rightarrow> client_ctx \<Rightarrow> client_ctx" where
  "set_event wr e c = (if wr then c\<lparr>wrEvent := e\<rparr> else c\<lparr>rdEvent := e\<rparr>)"

definition set_ctx_flags_ctxnew :: "libevent \<Rightarrow> int \<Rightarrow> bool \<Rightarrow> client_ctx \<Rightarrow> (bool \<times> client_ctx) option" where
  "set_ctx_flags_ctxnew env flags wr c =
     (if m_flags c = flags then Some (True, c)
      else do {
        (deleted, e) \<leftarrow> (if m_flags c \<noteq> 0 then event_del env (if wr then wrEvent c else rdEvent c)
                        else Some (True, if wr then wrEvent c else rdEvent c));
        let c = set_event wr e c;
        if \<not> deleted then Some (False, c)
        else do {
          let c = c\<lparr>m_flags := flags\<rparr>;
          if m_flags c = 0 then Some (True, c)
          else do { let (added, e) = event_add env flags; Some (added, set_event wr e c) } } })"

definition set_read_ctxnew :: "libevent \<Rightarrow> client_ctx \<Rightarrow> (bool \<times> client_ctx) option" where
  "set_read_ctxnew env c = set_ctx_flags_ctxnew env (EV_PERSIST + EV_READ) False c"

definition set_write_ctxnew :: "libevent \<Rightarrow> client_ctx \<Rightarrow> (bool \<times> client_ctx) option" where
  "set_write_ctxnew env c = set_ctx_flags_ctxnew env (EV_PERSIST + EV_WRITE) True c"

definition set_write_idle_ctxnew :: "client_ctx \<Rightarrow> client_ctx" where
  "set_write_idle_ctxnew c = c"

definition setSessionID :: "int \<Rightarrow> client_ctx \<Rightarrow> client_ctx" where
  "setSessionID sessionID c = (if sessionID \<le> 0 then c else c\<lparr>m_sessionID := sessionID\<rparr>)"

definition setClientNotifyID :: "int \<Rightarrow> client_ctx \<Rightarrow> client_ctx" where
  "setClientNotifyID notifyID c = c\<lparr>m_notifyID := notifyID\<rparr>"

definition recycle_ctx :: "client_ctx \<Rightarrow> client_ctx" where
  "recycle_ctx c = c\<lparr>ctxIsInUse := False, returns := returns c + 1\<rparr>"

definition close_connection :: "libevent \<Rightarrow> bool \<Rightarrow> client_ctx \<Rightarrow> client_ctx option" where
  "close_connection env isRecycle c = do {
     (_, e) \<leftarrow> event_del env (rdEvent c);
     let c = c\<lparr>rdEvent := e\<rparr>;
     (_, e) \<leftarrow> event_del env (wrEvent c);
     let c = c\<lparr>wrEvent := e\<rparr>;
     let c = (if m_sfd c \<noteq> INVALID_SOCKET then c\<lparr>m_sfd := INVALID_SOCKET\<rparr> else c);
     let c = (if 0 < m_sessionID c then c\<lparr>given_up := given_up c @ [m_sessionID c]\<rparr> else c);
     let c = setClientNotifyID 0 (setSessionID 0 c);
     Some (if isRecycle then recycle_ctx c else c) }"

definition on_closesocket :: "libevent \<Rightarrow> client_ctx \<Rightarrow> client_ctx option" where
  "on_closesocket env c = close_connection env True c"

definition on_setwritestate :: "libevent \<Rightarrow> client_ctx \<Rightarrow> client_ctx option" where
  "on_setwritestate env c = do {
     (ok, c) \<leftarrow> set_write_ctxnew env c;
     if ok then Some c else on_closesocket env c }"

text \<open>\<open>init\<close> for an accepted socket; the logs are those of the new connection.\<close>

definition ctx_init :: "libevent \<Rightarrow> app_state \<Rightarrow> int \<Rightarrow> client_ctx \<Rightarrow> (bool \<times> client_ctx) option" where
  "ctx_init env garbage socket c =
     (let c = c\<lparr>ctxIsInUse := True, m_sessionID := 0, m_notifyID := 0, sock_in := [], sock_out := [], echoed := []\<rparr>;
          c = (if \<not> allocated c then c\<lparr>rdEvent := Ev_Raw, wrEvent := Ev_Raw\<rparr> else c);
          c = c\<lparr>m_sfd := socket, m_flags := 0\<rparr>;
          c = (if \<not> allocated c then new_CFrameTransport garbage c else c);
          c = transport_init c
      in set_read_ctxnew env (c\<lparr>allocated := True\<rparr>))"

subsection \<open>Writing\<close>

definition write_buffer :: "libevent \<Rightarrow> string \<Rightarrow> write_answer \<Rightarrow> client_ctx \<Rightarrow> (nat \<times> client_ctx) option" where
  "write_buffer env buf ans c =
     (let (nwrote, faultError) = write_result ans;
          remaining = length buf - nwrote;
          c = c\<lparr>sock_out := sock_out c @ take nwrote buf\<rparr>
      in if (case ans of Wrote n \<Rightarrow> remaining = 0 | Write_Failed e \<Rightarrow> False) then Some (0, c)
         else do {
           require (nwrote \<le> length buf);
           if \<not> faultError \<and> 0 < remaining then do {
             out \<leftarrow> buffer_append (m_outputBuffer c) (drop nwrote buf);
             c \<leftarrow> on_setwritestate env (c\<lparr>m_outputBuffer := out\<rparr>);
             Some (remaining, c) }
           else Some (remaining, c) })"

definition EchoIt :: "libevent \<Rightarrow> string \<Rightarrow> write_answer \<Rightarrow> client_ctx \<Rightarrow> client_ctx option" where
  "EchoIt env onmsg ans c = do {
     (remainBytes, c) \<leftarrow> write_buffer env onmsg ans (c\<lparr>echoed := echoed c @ [onmsg]\<rparr>);
     Some c }"

definition wr_transition :: "libevent \<Rightarrow> write_answer \<Rightarrow> client_ctx \<Rightarrow> client_ctx option" where
  "wr_transition env ans c =
     (let n = (case ans of Wrote n \<Rightarrow> n | Write_Failed e \<Rightarrow> 0)
      in if 0 < n then do {
           out \<leftarrow> retrieve (m_outputBuffer c) n;
           let c = c\<lparr>sock_out := sock_out c @ take n (contents (m_outputBuffer c)), m_outputBuffer := out\<rparr>;
           Some (if readableBytes (m_outputBuffer c) = 0 then set_write_idle_ctxnew c else c) }
         else on_closesocket env c)"

definition write_socket :: "libevent \<Rightarrow> int \<Rightarrow> write_answer \<Rightarrow> client_ctx \<Rightarrow> client_ctx option" where
  "write_socket env cfd ans c = (if m_socket c \<noteq> cfd then on_closesocket env c else wr_transition env ans c)"

subsection \<open>Reading\<close>

datatype recv_answer = Recv nat | Recv_Failed int

definition ERR_EINTR :: int where "ERR_EINTR = 4"

text \<open>
  The loop tries again after EAGAIN, EWOULDBLOCK (the same value) and EINTR, five times; \<open>ans i\<close> answers
  call \<open>i\<close>.
\<close>

function recv_loop :: "(nat \<Rightarrow> recv_answer) \<Rightarrow> nat \<Rightarrow> recv_answer" where
  "recv_loop ans retries =
     (case ans retries of
        Recv n \<Rightarrow> Recv n
      | Recv_Failed e \<Rightarrow>
          if (e = EWOULDBLOCK \<or> e = ERR_EINTR) \<and> retries < 5 then recv_loop ans (retries + 1) else Recv_Failed e)"
  by auto
termination by (relation "measure (\<lambda>(ans, retries). 5 - retries)") auto

declare recv_loop.simps [simp del]

text \<open>
  Reads up to \<open>len\<close> bytes to offset \<open>off\<close> of the input buffer's storage; the kernel hands over no more
  than has arrived. A write past the storage is None.
\<close>

definition read_sock_buffer_len :: "(nat \<Rightarrow> recv_answer) \<Rightarrow> nat \<Rightarrow> nat \<Rightarrow> client_ctx \<Rightarrow> (int \<times> client_ctx) option" where
  "read_sock_buffer_len ans off len c =
     (if m_socket c = INVALID_SOCKET \<or> len = 0 then Some (- 1, c)
      else
        (case recv_loop ans 0 of
           Recv_Failed e \<Rightarrow> Some (- 1, c)
         | Recv n \<Rightarrow>
             (let got = take (min n len) (sock_in c); b = m_in_buffer c
              in do {
                require (off + length got \<le> length (storage b));
                Some (int (length got),
                  c\<lparr>sock_in := drop (length got) (sock_in c), m_in_buffer := b\<lparr>storage := overwrite off got (storage b)\<rparr>\<rparr>) })))"

definition GetMsg :: "client_ctx \<Rightarrow> (string \<times> client_ctx) option" where
  "GetMsg c = do {
     let datalen = sint (peekInt32_FromReserve (m_in_buffer c));
     require (0 \<le> datalen);
     (s, b) \<leftarrow> retrieveAsString (m_in_buffer c) (nat datalen);
     Some (s, c\<lparr>m_in_buffer := b\<rparr>) }"

definition on_readsocketdone :: "libevent \<Rightarrow> write_answer \<Rightarrow> client_ctx \<Rightarrow> client_ctx option" where
  "on_readsocketdone env wans c = do {
     (_, c) \<leftarrow> set_read_ctxnew env c;
     (oneMsg, c) \<leftarrow> GetMsg c;
     if length oneMsg = 0 then Some c else EchoIt env oneMsg wans c }"

definition rd_transition :: "libevent \<Rightarrow> write_answer \<Rightarrow> client_ctx \<Rightarrow> client_ctx option" where
  "rd_transition env wans c =
     (case rd_app_state c of
        APP_READ_FRAME_SIZE \<Rightarrow>
          if m_readWant c \<le> 0 then on_closesocket env c
          else Some (c\<lparr>rd_sock_State := SOCKET_RECV, rd_app_state := APP_READ_REQUEST\<rparr>)
      | APP_READ_REQUEST \<Rightarrow> do {
          c \<leftarrow> on_readsocketdone env wans c;
          Some (c\<lparr>rd_sock_State := SOCKET_RECV_FRAMING, rd_app_state := APP_READ_FRAME_SIZE, m_readWant := 0\<rparr>) }
      | APP_WAIT_TASK \<Rightarrow>
          on_setwritestate env (c\<lparr>rd_sock_State := SOCKET_SEND, rd_app_state := APP_SEND_RESULT\<rparr>)
      | _ \<Rightarrow> Some c)"

definition read_framing :: "libevent \<Rightarrow> (nat \<Rightarrow> recv_answer) \<Rightarrow> write_answer \<Rightarrow> client_ctx \<Rightarrow> (bool \<times> client_ctx) option" where
  "read_framing env rans wans c = do {
     (recvBytes, c) \<leftarrow> read_sock_buffer_len rans 0 4 c;
     if recvBytes \<le> 0 then do { c \<leftarrow> on_closesocket env c; Some (False, c) }
     else do {
       let c = c\<lparr>m_readWant := sint (peekInt32_FromReserve (m_in_buffer c))\<rparr>;
       if m_readWant c \<le> 0 then do { c \<leftarrow> on_closesocket env c; Some (False, c) }
       else do {
         let c = c\<lparr>rd_app_state := APP_READ_FRAME_SIZE\<rparr>;
         c \<leftarrow> (if m_readWant c \<le> int (readableBytes (m_in_buffer c)) then on_readsocketdone env wans c else Some c);
         Some (True, c) } } }"

text \<open>\<open>shouldreadbytes\<close> is an int32 handed over as a uint32.\<close>

definition frame_read_data :: "libevent \<Rightarrow> (nat \<Rightarrow> recv_answer) \<Rightarrow> client_ctx \<Rightarrow> (bool \<times> client_ctx) option" where
  "frame_read_data env rans c =
     (if m_readWant c \<le> 0 then do { c \<leftarrow> on_closesocket env c; Some (False, c) }
      else do {
        b \<leftarrow> ensureWritableBytes (m_in_buffer c) (nat (m_readWant c));
        let c = c\<lparr>m_in_buffer := b\<rparr>;
        let shouldreadbytes = (m_readWant c - int (readableBytes b)) mod 2 ^ 32;
        (recvBytes, c) \<leftarrow> read_sock_buffer_len rans (beginWrite b) (nat shouldreadbytes) c;
        if recvBytes \<le> 0 then do { c \<leftarrow> on_closesocket env c; Some (False, c) }
        else do {
          b \<leftarrow> hasWritten (m_in_buffer c) (nat recvBytes);
          let c = c\<lparr>m_in_buffer := b\<rparr>;
          Some (\<not> int (readableBytes b) < m_readWant c, c) } })"

definition read_socket :: "libevent \<Rightarrow> int \<Rightarrow> (nat \<Rightarrow> recv_answer) \<Rightarrow> write_answer \<Rightarrow> client_ctx \<Rightarrow> client_ctx option" where
  "read_socket env cfd rans wans c =
     (if \<not> (m_socket c = INVALID_SOCKET \<or> rd_app_state c = APP_INIT) \<and> m_socket c \<noteq> cfd
      then on_closesocket env c
      else
        (let c = (if m_socket c = INVALID_SOCKET \<or> rd_app_state c = APP_INIT then c\<lparr>m_socket := cfd\<rparr> else c)
         in case rd_sock_State c of
              SOCKET_RECV_FRAMING \<Rightarrow> do {
                (ok, c) \<leftarrow> read_framing env rans wans c;
                if ok then rd_transition env wans c else Some c }
            | SOCKET_RECV \<Rightarrow> do {
                (ok, c) \<leftarrow> frame_read_data env rans c;
                if ok then rd_transition env wans c else Some c }
            | SOCKET_SEND \<Rightarrow> on_closesocket env c))"

definition read_handler :: "libevent \<Rightarrow> int \<Rightarrow> (nat \<Rightarrow> recv_answer) \<Rightarrow> write_answer \<Rightarrow> client_ctx \<Rightarrow> client_ctx option" where
  "read_handler env fd rans wans c = (if fd \<noteq> m_sfd c then Some c else read_socket env fd rans wans c)"

definition write_handler :: "libevent \<Rightarrow> int \<Rightarrow> write_answer \<Rightarrow> client_ctx \<Rightarrow> client_ctx option" where
  "write_handler env fd ans c = (if fd \<noteq> m_sfd c then Some c else write_socket env fd ans c)"

text \<open>What can happen to a connection: bytes arrive, and the loop calls the handlers.\<close>

datatype ctx_event =
    Arrive string
  | Readable int "nat \<Rightarrow> recv_answer" write_answer
  | Writable int write_answer

fun ctx_do :: "libevent \<Rightarrow> ctx_event \<Rightarrow> client_ctx \<Rightarrow> client_ctx option" where
  "ctx_do env (Arrive s) c = Some (c\<lparr>sock_in := sock_in c @ s\<rparr>)"
| "ctx_do env (Readable fd rans wans) c = read_handler env fd rans wans c"
| "ctx_do env (Writable fd wans) c = write_handler env fd wans c"

subsection \<open>Frames\<close>

definition frame :: "string \<Rightarrow> string" where
  "frame msg = chars_of (big_endian 4 (of_nat (length msg) :: u32)) @ msg"

definition frame_size :: "string \<Rightarrow> int" where
  "frame_size h = sint (networkToHost32 (load (bytes_of h)))"

definition sized :: "string \<Rightarrow> bool" where
  "sized msg \<longleftrightarrow> 0 < length msg \<and> length msg < 2 ^ 31"

lemma chars_of_bytes_of [simp]: "chars_of (bytes_of s) = s"
  by (simp add: chars_of_def bytes_of_def comp_def)

lemma big_endian_networkToHost32: "length bs = 4 \<Longrightarrow> big_endian 4 (networkToHost32 (load bs)) = bs"
  by (simp add: big_endian_def networkToHost32_def memory_byte_swap memory_load)

lemma frame_size_less: "frame_size h < 2 ^ 31"
  using sint_lt [of "networkToHost32 (load (bytes_of h))"] by (simp add: frame_size_def)

lemma sizedI: "int (length msg) = k \<Longrightarrow> 0 < k \<Longrightarrow> k < 2 ^ 31 \<Longrightarrow> sized msg"
  by (auto simp: sized_def)

lemma of_nat_nat_sint: "0 \<le> sint (w :: u32) \<Longrightarrow> of_nat (nat (sint w)) = w"
  by (simp add: of_nat_nat)

lemma frame_of_parts:
  assumes "length h = 4" "int (length msg) = frame_size h"
  shows "frame msg = h @ msg"
proof -
  have "(of_nat (length msg) :: u32) = networkToHost32 (load (bytes_of h))"
    using assms(2) of_nat_nat_sint [of "networkToHost32 (load (bytes_of h))"] by (metis frame_size_def nat_int of_nat_0_le_iff)
  moreover have "length (bytes_of h) = 4" using assms(1) by (simp add: bytes_of_def)
  ultimately show ?thesis by (simp add: frame_def big_endian_networkToHost32)
qed

lemma frame_size_frame: "sized msg \<Longrightarrow> frame_size (take 4 (frame msg)) = int (length msg)"
  by (simp add: frame_def frame_size_def sized_def signed_of_nat signed_take_bit_int_eq_self)

lemma length_frame [simp]: "length (frame msg) = 4 + length msg"
  by (simp add: frame_def)

subsection \<open>What the operations keep\<close>

text \<open>Nothing that has to do with reading changes.\<close>

definition same_input :: "client_ctx \<Rightarrow> client_ctx \<Rightarrow> bool" where
  "same_input c c' \<longleftrightarrow> m_sfd c' = m_sfd c \<and> m_socket c' = m_socket c \<and> m_in_buffer c' = m_in_buffer c
     \<and> m_readWant c' = m_readWant c \<and> rd_sock_State c' = rd_sock_State c \<and> rd_app_state c' = rd_app_state c
     \<and> sock_in c' = sock_in c \<and> echoed c' = echoed c"

lemma set_event_input [simp]:
  "same_input c (set_event wr e c')  = same_input c c'" "m_outputBuffer (set_event wr e c) = m_outputBuffer c"
  "m_flags (set_event wr e c) = m_flags c"
  by (simp_all add: set_event_def same_input_def)

lemma set_ctx_flags_input:
  "set_ctx_flags_ctxnew env flags wr c = Some (ok, c') \<Longrightarrow> same_input c c' \<and> m_outputBuffer c' = m_outputBuffer c"
  by (auto simp: set_ctx_flags_ctxnew_def event_add_def same_input_def set_event_def bind_Some_iff Let_def
      split: prod.splits if_splits)

lemma event_del_returns: "del_raw env \<noteq> None \<Longrightarrow> \<exists>ok e'. event_del env e = Some (ok, e')"
  by (cases e) auto

lemma set_ctx_flags_returns: "del_raw env \<noteq> None \<Longrightarrow> \<exists>ok c'. set_ctx_flags_ctxnew env flags wr c = Some (ok, c')"
  using event_del_returns [of env "if wr then wrEvent c else rdEvent c"]
  by (cases "m_flags c = 0") (auto simp: set_ctx_flags_ctxnew_def event_add_def Let_def)

lemma set_read_returns:
  assumes "del_raw env \<noteq> None"
  obtains ok c' where "set_read_ctxnew env c = Some (ok, c')" "same_input c c'" "m_outputBuffer c' = m_outputBuffer c"
proof -
  obtain ok c' where "set_read_ctxnew env c = Some (ok, c')"
    using set_ctx_flags_returns [OF assms, of _ False c] unfolding set_read_ctxnew_def by blast
  with set_ctx_flags_input [of env _ False c ok c'] show ?thesis using that unfolding set_read_ctxnew_def by blast
qed

text \<open>A close that returns.\<close>

definition closed :: "libevent \<Rightarrow> client_ctx \<Rightarrow> client_ctx" where
  "closed env c = the (on_closesocket env c)"

lemma close_sfd: "on_closesocket env c = Some c' \<Longrightarrow> m_sfd c' = INVALID_SOCKET"
  by (auto simp: on_closesocket_def close_connection_def recycle_ctx_def setSessionID_def setClientNotifyID_def
      bind_Some_iff Let_def)

lemma close_returns [simp]: "del_raw env \<noteq> None \<Longrightarrow> on_closesocket env c = Some (closed env c)"
  using event_del_returns [of env "rdEvent c"] event_del_returns [of env "wrEvent c"]
  by (auto simp: closed_def on_closesocket_def close_connection_def Let_def)

lemma closed_sfd [simp]: "del_raw env \<noteq> None \<Longrightarrow> m_sfd (closed env c) = INVALID_SOCKET"
  using close_sfd [OF close_returns] .

lemma on_setwritestate_input:
  assumes "del_raw env \<noteq> None"
  shows "\<exists>c'. on_setwritestate env c = Some c'
   \<and> (m_sfd c' = INVALID_SOCKET \<or> same_input c c' \<and> m_outputBuffer c' = m_outputBuffer c)"
proof -
  obtain ok d where d: "set_write_ctxnew env c = Some (ok, d)"
    using set_ctx_flags_returns [OF assms, of _ True c] unfolding set_write_ctxnew_def by blast
  with set_ctx_flags_input [of env _ True c ok d] assms show ?thesis
    by (cases ok) (auto simp: on_setwritestate_def set_write_ctxnew_def)
qed

lemma EchoIt_runs:
  assumes "buffer_ok (m_outputBuffer c)" "case wans of Wrote n \<Rightarrow> n \<le> length msg | Write_Failed e \<Rightarrow> True" "del_raw env \<noteq> None"
  shows "\<exists>c'. EchoIt env msg wans c = Some c'
    \<and> (m_sfd c' = INVALID_SOCKET \<or> same_input (c\<lparr>echoed := echoed c @ [msg]\<rparr>) c' \<and> buffer_ok (m_outputBuffer c'))"
proof -
  obtain nw fault where r: "write_result wans = (nw, fault)" by fastforce
  with assms(2) have nw: "nw \<le> length msg" by (cases wans) auto
  let ?c1 = "c\<lparr>echoed := echoed c @ [msg], sock_out := sock_out c @ take nw msg\<rparr>"
  obtain out where out: "buffer_append (m_outputBuffer c) (drop nw msg) = Some out" "buffer_ok out"
    using buffer_append_abs [OF assms(1)] by blast
  have same: "same_input (c\<lparr>echoed := echoed c @ [msg]\<rparr>) ?c1" "buffer_ok (m_outputBuffer ?c1)"
    using assms(1) by (simp_all add: same_input_def)
  obtain c2 where c2: "on_setwritestate env (?c1\<lparr>m_outputBuffer := out\<rparr>) = Some c2"
      "m_sfd c2 = INVALID_SOCKET \<or> same_input (c\<lparr>echoed := echoed c @ [msg]\<rparr>) c2 \<and> buffer_ok (m_outputBuffer c2)"
    using on_setwritestate_input [OF assms(3), of "?c1\<lparr>m_outputBuffer := out\<rparr>"] out(2) by (auto simp: same_input_def)
  then show ?thesis
    using r nw out(1) same by (auto simp: EchoIt_def write_buffer_def Let_def)
qed

lemma ensure_reserve:
  assumes "buffer_ok b" "readerIndex b = kCheapPrepend"
  shows "\<exists>b'. ensureWritableBytes b n = Some b' \<and> buffer_ok b' \<and> contents b' = contents b
    \<and> readerIndex b' = kCheapPrepend \<and> take 4 (storage b') = take 4 (storage b) \<and> n \<le> writableBytes b'"
proof -
  obtain b' where b': "ensureWritableBytes b n = Some b'" "buffer_ok b'" "contents b' = contents b" "n \<le> writableBytes b'"
    using ensureWritableBytes_abs [OF assms(1)] by blast
  moreover have "readerIndex b' = kCheapPrepend \<and> take 4 (storage b') = take 4 (storage b)"
    using b'(1) assms by (auto simp: ensureWritableBytes_def makeSpace_def writableBytes_def prependableBytes_def
        vector_resize_def kCheapPrepend_def buffer_ok_def Let_def min_def split: if_splits)
  ultimately show ?thesis by blast
qed

lemma tail_written:
  assumes "buffer_ok b" "readerIndex b = kCheapPrepend" "length d \<le> writableBytes b"
  shows "\<exists>b'. hasWritten (b\<lparr>storage := overwrite (beginWrite b) d (storage b)\<rparr>) (length d) = Some b' \<and> buffer_ok b'
    \<and> contents b' = contents b @ d \<and> readerIndex b' = kCheapPrepend \<and> take 4 (storage b') = take 4 (storage b)
    \<and> beginWrite b + length d \<le> length (storage b)"
  using assms hasWritten_abs [OF assms(1,3)]
  by (auto simp: hasWritten_def beginWrite_def writableBytes_def buffer_ok_def kCheapPrepend_def overwrite_def min_def)

lemma header_written:
  assumes "buffer_ok b" "readerIndex b = kCheapPrepend" "length h \<le> 4"
  shows "buffer_ok (b\<lparr>storage := overwrite 0 h (storage b)\<rparr>) \<and> contents (b\<lparr>storage := overwrite 0 h (storage b)\<rparr>) = contents b
    \<and> (length h = 4 \<longrightarrow> take 4 (overwrite 0 h (storage b)) = h) \<and> length h \<le> length (storage b)"
  using assms
  by (auto simp: buffer_ok_def kCheapPrepend_def overwrite_def contents_def window_def drop_append)

subsection \<open>Every byte is accounted for\<close>

definition reserve :: "client_ctx \<Rightarrow> string" where
  "reserve c = take 4 (storage (m_in_buffer c))"

text \<open>\<open>arrived\<close>: all bytes of the connection so far.\<close>

definition frame_inv :: "int \<Rightarrow> string \<Rightarrow> client_ctx \<Rightarrow> bool" where
  "frame_inv fd arrived c \<longleftrightarrow> m_sfd c = fd \<and> (m_socket c = INVALID_SOCKET \<or> m_socket c = fd)
     \<and> buffer_ok (m_in_buffer c) \<and> readerIndex (m_in_buffer c) = kCheapPrepend \<and> buffer_ok (m_outputBuffer c)
     \<and> (\<forall>m \<in> set (echoed c). sized m)
     \<and> (case rd_sock_State c of
          SOCKET_RECV_FRAMING \<Rightarrow> contents (m_in_buffer c) = [] \<and> arrived = concat (map frame (echoed c)) @ sock_in c
        | SOCKET_RECV \<Rightarrow> m_socket c = fd \<and> rd_app_state c = APP_READ_REQUEST \<and> 0 < m_readWant c
            \<and> m_readWant c = frame_size (reserve c) \<and> int (length (contents (m_in_buffer c))) < m_readWant c
            \<and> arrived = concat (map frame (echoed c)) @ reserve c @ contents (m_in_buffer c) @ sock_in c
        | SOCKET_SEND \<Rightarrow> False)"

text \<open>
  What the kernel answers: a header comes whole (or nothing of it), and write takes no more than it is
  given. What the loop reports is about an open descriptor.
\<close>

fun ctx_may :: "ctx_event \<Rightarrow> client_ctx \<Rightarrow> bool" where
  "ctx_may (Arrive s) c = True"
| "ctx_may (Readable fd rans wans) c \<longleftrightarrow> 0 \<le> fd
     \<and> (rd_sock_State c = SOCKET_RECV_FRAMING \<longrightarrow>
          (case recv_loop rans 0 of Recv n \<Rightarrow> min n (length (sock_in c)) = 0 \<or> 4 \<le> min n (length (sock_in c)) | Recv_Failed e \<Rightarrow> True))
     \<and> (case wans of Wrote n \<Rightarrow> int n \<le> m_readWant c | Write_Failed e \<Rightarrow> True)"
| "ctx_may (Writable fd wans) c \<longleftrightarrow> 0 \<le> fd
     \<and> (case wans of Wrote n \<Rightarrow> n \<le> readableBytes (m_outputBuffer c) | Write_Failed e \<Rightarrow> True)"

fun arrives :: "ctx_event \<Rightarrow> string" where
  "arrives (Arrive s) = s"
| "arrives _ = []"

lemma frame_inv_same:
  "same_input c c' \<Longrightarrow> buffer_ok (m_outputBuffer c') \<Longrightarrow> frame_inv fd arrived c' \<longleftrightarrow> frame_inv fd arrived (c\<lparr>m_outputBuffer := m_outputBuffer c'\<rparr>)"
  by (simp add: same_input_def frame_inv_def reserve_def cong: socket_state.case_cong)

lemma take_rest: "take n xs @ drop (length (take n xs)) xs = xs"
  by (cases "n \<le> length xs") (auto simp: min_def)

text \<open>The header: the frame's length is read and its body waited for.\<close>

lemma framing_step:
  assumes inv: "frame_inv fd arrived c" and st: "rd_sock_State c = SOCKET_RECV_FRAMING" and sock: "m_socket c = fd" and fd: "0 \<le> fd"
    and whole: "case recv_loop rans 0 of Recv n \<Rightarrow> min n (length (sock_in c)) = 0 \<or> 4 \<le> min n (length (sock_in c)) | Recv_Failed e \<Rightarrow> True"
    and env: "del_raw env \<noteq> None"
  shows "\<exists>c'. do { (ok, c) \<leftarrow> read_framing env rans wans c; if ok then rd_transition env wans c else Some c } = Some c'
    \<and> (m_sfd c' = INVALID_SOCKET \<or> frame_inv fd arrived c')"
proof -
  have open_sock: "m_socket c \<noteq> INVALID_SOCKET" using sock fd by (simp add: INVALID_SOCKET_def)
  have i: "buffer_ok (m_in_buffer c)" "readerIndex (m_in_buffer c) = kCheapPrepend" "contents (m_in_buffer c) = []"
    "arrived = concat (map frame (echoed c)) @ sock_in c"
    using inv st by (simp_all add: frame_inv_def)
  show ?thesis
  proof (cases "recv_loop rans 0")
    case (Recv_Failed e)
    with open_sock env show ?thesis by (simp add: read_framing_def read_sock_buffer_len_def)
  next
    case (Recv n)
    define got where "got = take (min n 4) (sock_in c)"
    define c1 where "c1 = c\<lparr>sock_in := drop (length got) (sock_in c),
      m_in_buffer := (m_in_buffer c)\<lparr>storage := overwrite 0 got (storage (m_in_buffer c))\<rparr>\<rparr>"
    have len: "length got = 0 \<or> length got = 4" "length got \<le> 4" using whole Recv by (auto simp: got_def)
    note h = header_written [OF i(1,2) len(2)]
    have rd: "read_sock_buffer_len rans 0 4 c = Some (int (length got), c1)"
      using open_sock Recv h by (simp add: read_sock_buffer_len_def got_def [symmetric] c1_def Let_def)
    show ?thesis
    proof (cases "length got = 4")
      case False
      with len(1) rd env show ?thesis by (simp add: read_framing_def)
    next
      case True
      let ?want = "sint (peekInt32_FromReserve (m_in_buffer c1))"
      have res: "reserve c1 = got" using h True by (simp add: reserve_def c1_def)
      have want: "?want = frame_size got" using res by (simp add: peekInt32_FromReserve_def frame_size_def reserve_def)
      have empty: "readableBytes (m_in_buffer c1) = 0"
        using h i(3) length_contents [of "m_in_buffer c1"] by (simp add: c1_def)
      show ?thesis
      proof (cases "?want \<le> 0")
        case True
        with rd \<open>length got = 4\<close> env show ?thesis by (simp add: read_framing_def)
      next
        case pos: False
        let ?c2 = "c1\<lparr>m_readWant := ?want, rd_app_state := APP_READ_FRAME_SIZE\<rparr>"
        let ?c3 = "?c2\<lparr>rd_sock_State := SOCKET_RECV, rd_app_state := APP_READ_REQUEST\<rparr>"
        have "read_framing env rans wans c = Some (True, ?c2)"
          using rd True pos empty by (simp add: read_framing_def)
        moreover have "rd_transition env wans ?c2 = Some ?c3" using pos by (simp add: rd_transition_def)
        moreover have "sock_in c = got @ sock_in c1" by (simp add: c1_def got_def take_rest del: length_take)
        then have "frame_inv fd arrived ?c3"
          using inv i h pos res want sock True by (simp add: frame_inv_def reserve_def c1_def)
        ultimately show ?thesis by simp
      qed
    qed
  qed
qed

text \<open>The body: it grows until it is complete, and then it is echoed.\<close>

lemma message_done:
  assumes b: "buffer_ok (m_in_buffer c)" and out: "buffer_ok (m_outputBuffer c)"
    and size: "0 < frame_size (reserve c)" "int (length (contents (m_in_buffer c))) = frame_size (reserve c)"
    and wr: "case wans of Wrote n \<Rightarrow> int n \<le> frame_size (reserve c) | Write_Failed e \<Rightarrow> True"
    and env: "del_raw env \<noteq> None"
  shows "\<exists>c'. on_readsocketdone env wans c = Some c' \<and> (m_sfd c' = INVALID_SOCKET
    \<or> same_input (c\<lparr>echoed := echoed c @ [contents (m_in_buffer c)], m_in_buffer := retrieveAll (m_in_buffer c)\<rparr>) c'
      \<and> buffer_ok (m_outputBuffer c'))"
proof -
  let ?msg = "contents (m_in_buffer c)"
  obtain ok c1 where set_read: "set_read_ctxnew env c = Some (ok, c1)" and
      c1: "same_input c c1" "m_outputBuffer c1 = m_outputBuffer c"
    by (rule set_read_returns [OF env])
  define c2 where "c2 = c1\<lparr>m_in_buffer := retrieveAll (m_in_buffer c)\<rparr>"
  have "sint (peekInt32_FromReserve (m_in_buffer c)) = int (length ?msg)"
    using size(2) by (simp add: peekInt32_FromReserve_def frame_size_def reserve_def)
  then have "GetMsg c1 = Some (?msg, c2)"
    using c1(1) b take_contents [OF b, of "length ?msg"]
    by (simp add: GetMsg_def same_input_def retrieveAsString_def retrieve_def length_contents c2_def)
  moreover have "?msg \<noteq> []" using size by auto
  ultimately have echo: "on_readsocketdone env wans c = EchoIt env ?msg wans c2"
    by (simp add: on_readsocketdone_def set_read)
  have "buffer_ok (m_outputBuffer c2)" "case wans of Wrote n \<Rightarrow> n \<le> length ?msg | Write_Failed e \<Rightarrow> True"
    using out c1(2) wr size(2) by (simp_all add: c2_def split: write_answer.splits)
  from EchoIt_runs [OF this env] obtain c' where c': "EchoIt env ?msg wans c2 = Some c'"
    "m_sfd c' = INVALID_SOCKET \<or> same_input (c2\<lparr>echoed := echoed c2 @ [?msg]\<rparr>) c' \<and> buffer_ok (m_outputBuffer c')"
    by blast
  with echo c1(1) show ?thesis by (auto simp: same_input_def c2_def)
qed

lemma header_read:
  assumes b: "buffer_ok (m_in_buffer c)" "readerIndex (m_in_buffer c) = kCheapPrepend" and sock: "m_socket c \<noteq> INVALID_SOCKET"
    and h: "sock_in c = h @ rest" "length h = 4" "int (length (contents (m_in_buffer c))) < frame_size h"
    and recv: "recv_loop rans 0 = Recv n" "4 \<le> n"
  shows "\<exists>b2. buffer_ok b2 \<and> contents b2 = contents (m_in_buffer c) \<and> readerIndex b2 = kCheapPrepend \<and> take 4 (storage b2) = h
    \<and> do { (ok, c) \<leftarrow> read_framing env rans wans c; if ok then rd_transition env wans c else Some c }
      = Some (c\<lparr>sock_in := rest, m_in_buffer := b2, m_readWant := frame_size h, rd_sock_State := SOCKET_RECV, rd_app_state := APP_READ_REQUEST\<rparr>)"
proof -
  have 4: "length h \<le> 4" using h(2) by simp
  note w = header_written [OF b 4]
  define b2 where "b2 = (m_in_buffer c)\<lparr>storage := overwrite 0 h (storage (m_in_buffer c))\<rparr>"
  have b2: "buffer_ok b2" "contents b2 = contents (m_in_buffer c)" "readerIndex b2 = kCheapPrepend" "take 4 (storage b2) = h"
    using w h(2) b(2) by (simp_all add: b2_def)
  have "min n 4 = 4" using recv(2) by simp
  then have "read_sock_buffer_len rans 0 4 c = Some (4, c\<lparr>sock_in := rest, m_in_buffer := b2\<rparr>)"
    using sock recv(1) h(1,2) w by (simp add: read_sock_buffer_len_def b2_def Let_def)
  moreover have "sint (peekInt32_FromReserve b2) = frame_size h" using b2(4) by (simp add: peekInt32_FromReserve_def frame_size_def)
  moreover have "readableBytes b2 = length (contents (m_in_buffer c))" using length_contents [OF b2(1)] b2(2) by simp
  ultimately have "read_framing env rans wans c = Some (True, c\<lparr>sock_in := rest, m_in_buffer := b2, m_readWant := frame_size h,
      rd_app_state := APP_READ_FRAME_SIZE\<rparr>)"
    using h(3) by (simp add: read_framing_def)
  then show ?thesis using b2 h(3) by (auto simp: rd_transition_def)
qed

lemma frame_read_data_eq:
  assumes "0 < m_readWant c" "ensureWritableBytes (m_in_buffer c) (nat (m_readWant c)) = Some b1"
    and "nat ((m_readWant c - int (readableBytes b1)) mod 2 ^ 32) = room"
  shows "frame_read_data env rans c = do {
     (recvBytes, c) \<leftarrow> read_sock_buffer_len rans (beginWrite b1) room (c\<lparr>m_in_buffer := b1\<rparr>);
     if recvBytes \<le> 0 then do { c \<leftarrow> on_closesocket env c; Some (False, c) }
     else do {
       b \<leftarrow> hasWritten (m_in_buffer c) (nat recvBytes);
       let c = c\<lparr>m_in_buffer := b\<rparr>;
       Some (\<not> int (readableBytes b) < m_readWant c, c) } }"
  using assms by (simp add: frame_read_data_def Let_def)

lemma body_read:
  assumes b: "buffer_ok (m_in_buffer c)" "readerIndex (m_in_buffer c) = kCheapPrepend" and sock: "m_socket c \<noteq> INVALID_SOCKET"
    and want: "int (length (contents (m_in_buffer c))) < m_readWant c" "m_readWant c < 2 ^ 31"
    and got: "recv_loop rans 0 = Recv n" "got = take (min n (nat (m_readWant c) - length (contents (m_in_buffer c)))) (sock_in c)"
  shows "\<exists>b2. buffer_ok b2 \<and> contents b2 = contents (m_in_buffer c) @ got \<and> readerIndex b2 = kCheapPrepend \<and> take 4 (storage b2) = reserve c
    \<and> readableBytes b2 = length (contents (m_in_buffer c)) + length got
    \<and> (if got = [] then \<exists>c'. frame_read_data env rans c = do { c \<leftarrow> on_closesocket env c'; Some (False, c) }
       else frame_read_data env rans c = Some (\<not> int (readableBytes b2) < m_readWant c,
              c\<lparr>sock_in := drop (length got) (sock_in c), m_in_buffer := b2\<rparr>))"
proof -
  let ?b = "m_in_buffer c" and ?want = "m_readWant c"
  obtain b1 where b1: "ensureWritableBytes ?b (nat ?want) = Some b1" "buffer_ok b1" "contents b1 = contents ?b"
      "readerIndex b1 = kCheapPrepend" "take 4 (storage b1) = reserve c" "nat ?want \<le> writableBytes b1"
    using ensure_reserve [OF b, of "nat ?want"] by (auto simp: reserve_def)
  define c1 where "c1 = c\<lparr>m_in_buffer := b1\<rparr>"
  define room where "room = nat ?want - length (contents ?b)"
  have rb: "readableBytes b1 = length (contents ?b)" using length_contents [OF b1(2)] b1(3) by simp
  have pos: "0 < ?want" using want(1) by simp
  have room: "nat ((?want - int (readableBytes b1)) mod 2 ^ 32) = room" "0 < room"
    using want rb by (auto simp: room_def)
  note eq = frame_read_data_eq [OF pos b1(1) room(1), folded c1_def]
  have gotl: "length got \<le> writableBytes b1" using b1(6) got(2) by simp
  obtain b2 where b2: "hasWritten (b1\<lparr>storage := overwrite (beginWrite b1) got (storage b1)\<rparr>) (length got) = Some b2"
      "buffer_ok b2" "contents b2 = contents ?b @ got" "readerIndex b2 = kCheapPrepend" "take 4 (storage b2) = reserve c"
      "beginWrite b1 + length got \<le> length (storage b1)"
    using tail_written [OF b1(2,4) gotl] b1(3,5) by auto
  define c2 where "c2 = c1\<lparr>sock_in := drop (length got) (sock_in c), m_in_buffer := b2\<rparr>"
  have "read_sock_buffer_len rans (beginWrite b1) room c1 = Some (int (length got),
      c2\<lparr>m_in_buffer := b1\<lparr>storage := overwrite (beginWrite b1) got (storage b1)\<rparr>\<rparr>)"
    using sock got(1) b2(6) room(2)
    by (simp add: read_sock_buffer_len_def got(2) [symmetric, folded room_def] c1_def c2_def Let_def)
  then have "if got = [] then \<exists>c'. frame_read_data env rans c = do { c \<leftarrow> on_closesocket env c'; Some (False, c) }
       else frame_read_data env rans c = Some (\<not> int (readableBytes b2) < m_readWant c, c2)"
    using b2(1) by (auto simp: eq) (simp_all add: c2_def c1_def)
  moreover have "readableBytes b2 = length (contents ?b) + length got" using length_contents [OF b2(2)] b2(3) by simp
  ultimately show ?thesis using b2 by (auto simp: c2_def c1_def)
qed

lemma body_step:
  assumes inv: "frame_inv fd arrived c" and st: "rd_sock_State c = SOCKET_RECV" and fd: "0 \<le> fd"
    and wr: "case wans of Wrote n \<Rightarrow> int n \<le> m_readWant c | Write_Failed e \<Rightarrow> True"
    and env: "del_raw env \<noteq> None"
  shows "\<exists>c'. do { (ok, c) \<leftarrow> frame_read_data env rans c; if ok then rd_transition env wans c else Some c } = Some c'
    \<and> (m_sfd c' = INVALID_SOCKET \<or> frame_inv fd arrived c')"
proof -
  let ?b = "m_in_buffer c" and ?want = "m_readWant c"
  have i: "buffer_ok ?b" "readerIndex ?b = kCheapPrepend" "m_socket c = fd" "rd_app_state c = APP_READ_REQUEST" "0 < ?want"
    "?want = frame_size (reserve c)" "int (length (contents ?b)) < ?want" "buffer_ok (m_outputBuffer c)" "m_sfd c = fd"
    "arrived = concat (map frame (echoed c)) @ reserve c @ contents ?b @ sock_in c" "\<forall>m \<in> set (echoed c). sized m"
    using inv st by (simp_all add: frame_inv_def)
  have open_sock: "m_socket c \<noteq> INVALID_SOCKET" using i(3) fd by (simp add: INVALID_SOCKET_def)
  have want: "?want < 2 ^ 31" using i(6) frame_size_less by simp
  show ?thesis
  proof (cases "recv_loop rans 0")
    case (Recv_Failed e)
    obtain b1 where "ensureWritableBytes ?b (nat ?want) = Some b1" using ensureWritableBytes_abs [OF i(1)] by blast
    with Recv_Failed i(5) env show ?thesis by (simp add: frame_read_data_def read_sock_buffer_len_def Let_def)
  next
    case (Recv n)
    define got where "got = take (min n (nat ?want - length (contents ?b))) (sock_in c)"
    obtain b2 where b2: "buffer_ok b2" "contents b2 = contents ?b @ got" "readerIndex b2 = kCheapPrepend" "take 4 (storage b2) = reserve c"
        "readableBytes b2 = length (contents ?b) + length got"
        "if got = [] then \<exists>c'. frame_read_data env rans c = do { c \<leftarrow> on_closesocket env c'; Some (False, c) }
         else frame_read_data env rans c = Some (\<not> int (readableBytes b2) < ?want, c\<lparr>sock_in := drop (length got) (sock_in c), m_in_buffer := b2\<rparr>)"
      using body_read [OF i(1,2) open_sock i(7) want Recv got_def, of env] by blast
    define c2 where "c2 = c\<lparr>sock_in := drop (length got) (sock_in c), m_in_buffer := b2\<rparr>"
    have got_in: "got @ drop (length got) (sock_in c) = sock_in c" unfolding got_def by (rule take_rest)
    have res: "reserve c2 = reserve c" using b2(4) by (simp add: reserve_def c2_def)
    show ?thesis
    proof (cases "got = []")
      case True
      with b2(6) obtain d where "frame_read_data env rans c = do { c \<leftarrow> on_closesocket env d; Some (False, c) }" by auto
      with env show ?thesis by simp
    next
      case False
      let ?full = "\<not> int (readableBytes b2) < ?want"
      have step: "frame_read_data env rans c = Some (?full, c2)" using False b2(6) by (simp add: c2_def)
      show ?thesis
      proof (cases ?full)
        case notfull: False
        then have "frame_inv fd arrived c2"
          using i b2(1-5) res got_in st by (simp add: frame_inv_def c2_def reserve_def)
        with step notfull show ?thesis by simp
      next
        case full: True
        then have "length (contents ?b) + length got = nat ?want" using b2(5) i(5,7) by (simp add: got_def)
        then have all: "int (length (contents b2)) = frame_size (reserve c2)" using b2(2) res i(5,6) by simp
        have "buffer_ok (m_in_buffer c2)" "buffer_ok (m_outputBuffer c2)" using b2(1) i(8) by (simp_all add: c2_def)
        moreover have pos: "0 < frame_size (reserve c2)" using i(5,6) res by simp
        moreover have "case wans of Wrote n \<Rightarrow> int n \<le> frame_size (reserve c2) | Write_Failed e \<Rightarrow> True" using wr unfolding res i(6) .
        ultimately obtain c3 where c3: "on_readsocketdone env wans c2 = Some c3" "m_sfd c3 = INVALID_SOCKET
            \<or> same_input (c2\<lparr>echoed := echoed c2 @ [contents b2], m_in_buffer := retrieveAll b2\<rparr>) c3 \<and> buffer_ok (m_outputBuffer c3)"
          using message_done [of c2 wans env] all env by (auto simp: c2_def)
        let ?c4 = "c3\<lparr>rd_sock_State := SOCKET_RECV_FRAMING, rd_app_state := APP_READ_FRAME_SIZE, m_readWant := 0\<rparr>"
        have tr: "rd_transition env wans c2 = Some ?c4"
          using c3(1) i(4) by (simp add: rd_transition_def c2_def)
        have "m_sfd ?c4 = INVALID_SOCKET \<or> frame_inv fd arrived ?c4"
        proof (cases "m_sfd c3 = INVALID_SOCKET")
          case False
          with c3(2) have c3': "same_input (c2\<lparr>echoed := echoed c2 @ [contents b2], m_in_buffer := retrieveAll b2\<rparr>) c3"
            "buffer_ok (m_outputBuffer c3)" by blast+
          have "4 \<le> length (storage b2)" using b2(1) by (simp add: buffer_ok_def kCheapPrepend_def)
          then have "length (reserve c) = 4" using b2(4) [symmetric] by simp
          moreover have "int (length (contents b2)) = frame_size (reserve c)" using all res by simp
          ultimately have fr: "frame (contents b2) = reserve c @ contents b2" by (rule frame_of_parts)
          have "sized (contents b2)" using all pos frame_size_less by (rule sizedI)
          moreover have "buffer_ok (retrieveAll b2)" "contents (retrieveAll b2) = []" "readerIndex (retrieveAll b2) = kCheapPrepend"
            using retrieveAll_abs [OF b2(1)] by (simp_all add: retrieveAll_def)
          moreover have "sock_in c = got @ sock_in c2" using got_in by (simp add: c2_def)
          ultimately have "frame_inv fd arrived ?c4"
            using c3' i fr b2(2) by (simp add: frame_inv_def same_input_def c2_def)
          then show ?thesis by simp
        qed simp
        with step full tr show ?thesis by simp
      qed
    qed
  qed
qed

lemma ctx_step:
  assumes "frame_inv fd arrived c" "ctx_may e c" "0 \<le> fd" "del_raw env \<noteq> None"
  shows "\<exists>c'. ctx_do env e c = Some c' \<and> (m_sfd c' = INVALID_SOCKET \<or> frame_inv fd (arrived @ arrives e) c')"
proof (cases e)
  case (Arrive s)
  with assms(1) show ?thesis by (auto simp: frame_inv_def reserve_def split: socket_state.splits)
next
  case (Writable fd' wans)
  show ?thesis
  proof (cases "fd' = fd \<and> m_socket c = fd")
    case False
    with assms(1,4) Writable show ?thesis by (auto simp: write_handler_def write_socket_def frame_inv_def)
  next
    case True
    let ?out = "m_outputBuffer c" and ?n = "case wans of Wrote n \<Rightarrow> n | Write_Failed e \<Rightarrow> 0"
    have "buffer_ok ?out" "?n \<le> length (contents ?out)"
      using assms(1,2) Writable by (auto simp: frame_inv_def length_contents split: write_answer.splits)
    then obtain out where "retrieve ?out ?n = Some out" "buffer_ok out" using retrieve_abs by blast
    with True assms(1,4) Writable show ?thesis
      by (cases "0 < ?n") (auto simp: write_handler_def write_socket_def wr_transition_def frame_inv_def reserve_def
          set_write_idle_ctxnew_def Let_def cong: socket_state.case_cong)
  qed
next
  case (Readable fd' rans wans)
  show ?thesis
  proof (cases "fd' = fd")
    case False
    with assms(1) Readable show ?thesis by (simp add: read_handler_def frame_inv_def)
  next
    case True
    define c1 where "c1 = (if m_socket c = INVALID_SOCKET \<or> rd_app_state c = APP_INIT then c\<lparr>m_socket := fd\<rparr> else c)"
    have inv: "frame_inv fd arrived c1" and sock: "m_socket c1 = fd"
      and keeps: "rd_sock_State c1 = rd_sock_State c" "sock_in c1 = sock_in c" "m_readWant c1 = m_readWant c"
      using assms(1) by (auto simp: c1_def frame_inv_def reserve_def split: socket_state.splits)
    have same: "(\<not> (m_socket c = INVALID_SOCKET \<or> rd_app_state c = APP_INIT) \<and> m_socket c \<noteq> fd) = False"
      using assms(1) by (auto simp: frame_inv_def)
    have "ctx_do env e c = read_socket env fd rans wans c"
      using assms(1) Readable True by (simp add: read_handler_def frame_inv_def)
    then have rs: "ctx_do env e c = (case rd_sock_State c1 of
              SOCKET_RECV_FRAMING \<Rightarrow> do { (ok, c) \<leftarrow> read_framing env rans wans c1; if ok then rd_transition env wans c else Some c }
            | SOCKET_RECV \<Rightarrow> do { (ok, c) \<leftarrow> frame_read_data env rans c1; if ok then rd_transition env wans c else Some c }
            | SOCKET_SEND \<Rightarrow> on_closesocket env c1)"
      by (simp only: read_socket_def same if_False Let_def c1_def [symmetric])
    show ?thesis
    proof (cases "rd_sock_State c1")
      case SOCKET_RECV_FRAMING
      with framing_step [OF inv _ sock assms(3) _ assms(4), of rans wans] rs assms(2) Readable keeps show ?thesis
        by (simp cong: recv_answer.case_cong)
    next
      case SOCKET_RECV
      with body_step [OF inv _ assms(3) _ assms(4), of wans rans] rs assms(2) Readable keeps show ?thesis
        by (simp cong: write_answer.case_cong)
    qed (use inv in \<open>simp add: frame_inv_def\<close>)
  qed
qed

text \<open>
  What an event does when event_del on unassigned memory returns does not change when it would return in
  more cases. So a step that did not die is one with an event_del that returns.
\<close>

definition answers_more :: "libevent \<Rightarrow> libevent \<Rightarrow> bool" where
  "answers_more env env' \<longleftrightarrow> add_ok env' = add_ok env \<and> (\<forall>b. del_raw env = Some b \<longrightarrow> del_raw env' = Some b)"

definition opt_le :: "'a option \<Rightarrow> 'a option \<Rightarrow> bool" where
  "opt_le x y \<longleftrightarrow> x = None \<or> y = x"

lemma opt_le_intros:
  "opt_le x x"
  "opt_le x y \<Longrightarrow> (\<And>a. opt_le (f a) (g a)) \<Longrightarrow> opt_le (x \<bind> f) (y \<bind> g)"
  "opt_le x x' \<Longrightarrow> opt_le y y' \<Longrightarrow> opt_le (if P then x else y) (if P then x' else y')"
  "(\<And>a b. opt_le (h a b) (k a b)) \<Longrightarrow> opt_le (case_prod h p) (case_prod k p)"
  "(\<And>v. opt_le (f v) (g v)) \<Longrightarrow> opt_le (Let e f) (Let e g)"
proof -
  assume "opt_le x y" and fg: "\<And>a. opt_le (f a) (g a)"
  then show "opt_le (x \<bind> f) (y \<bind> g)" using fg [of "the x"] by (cases x) (auto simp: opt_le_def)
qed (auto simp: opt_le_def Let_def split: prod.split)

lemma opt_le_sock:
  "opt_le x x' \<Longrightarrow> opt_le y y' \<Longrightarrow> opt_le z z' \<Longrightarrow>
   opt_le (case s of SOCKET_RECV_FRAMING \<Rightarrow> x | SOCKET_RECV \<Rightarrow> y | SOCKET_SEND \<Rightarrow> z)
     (case s of SOCKET_RECV_FRAMING \<Rightarrow> x' | SOCKET_RECV \<Rightarrow> y' | SOCKET_SEND \<Rightarrow> z')"
  by (cases s) simp_all

lemma opt_le_app:
  "opt_le x x' \<Longrightarrow> opt_le y y' \<Longrightarrow> opt_le z z' \<Longrightarrow> opt_le w w' \<Longrightarrow>
   opt_le (case s of APP_READ_FRAME_SIZE \<Rightarrow> x | APP_READ_REQUEST \<Rightarrow> y | APP_WAIT_TASK \<Rightarrow> z | _ \<Rightarrow> w)
     (case s of APP_READ_FRAME_SIZE \<Rightarrow> x' | APP_READ_REQUEST \<Rightarrow> y' | APP_WAIT_TASK \<Rightarrow> z' | _ \<Rightarrow> w')"
  by (cases s) simp_all

lemmas opt_le_rules = opt_le_intros opt_le_sock opt_le_app

lemma event_del_more: "answers_more env env' \<Longrightarrow> opt_le (event_del env e) (event_del env' e)"
  by (cases e; cases "del_raw env") (auto simp: answers_more_def opt_le_def)

lemma set_ctx_flags_more:
  assumes "answers_more env env'"
  shows "opt_le (set_ctx_flags_ctxnew env flags wr c) (set_ctx_flags_ctxnew env' flags wr c)"
proof -
  have "event_add env' = event_add env" using assms by (simp add: fun_eq_iff answers_more_def event_add_def)
  then show ?thesis
    unfolding set_ctx_flags_ctxnew_def by (simp only:) (intro opt_le_rules event_del_more [OF assms])
qed

lemma close_more: "answers_more env env' \<Longrightarrow> opt_le (on_closesocket env c) (on_closesocket env' c)"
  unfolding on_closesocket_def close_connection_def by (intro opt_le_rules event_del_more)

lemma on_setwritestate_more: "answers_more env env' \<Longrightarrow> opt_le (on_setwritestate env c) (on_setwritestate env' c)"
  unfolding on_setwritestate_def set_write_ctxnew_def by (intro opt_le_rules set_ctx_flags_more close_more)

lemma EchoIt_more: "answers_more env env' \<Longrightarrow> opt_le (EchoIt env msg ans c) (EchoIt env' msg ans c)"
  unfolding EchoIt_def write_buffer_def by (intro opt_le_rules on_setwritestate_more)

lemma on_readsocketdone_more: "answers_more env env' \<Longrightarrow> opt_le (on_readsocketdone env wans c) (on_readsocketdone env' wans c)"
  unfolding on_readsocketdone_def set_read_ctxnew_def by (intro opt_le_rules set_ctx_flags_more EchoIt_more)

lemma rd_transition_more: "answers_more env env' \<Longrightarrow> opt_le (rd_transition env wans c) (rd_transition env' wans c)"
  unfolding rd_transition_def by (intro opt_le_rules close_more on_setwritestate_more on_readsocketdone_more)

lemma read_framing_more: "answers_more env env' \<Longrightarrow> opt_le (read_framing env rans wans c) (read_framing env' rans wans c)"
  unfolding read_framing_def by (intro opt_le_rules close_more on_readsocketdone_more)

lemma frame_read_data_more: "answers_more env env' \<Longrightarrow> opt_le (frame_read_data env rans c) (frame_read_data env' rans c)"
  unfolding frame_read_data_def by (intro opt_le_rules close_more)

lemma read_socket_more: "answers_more env env' \<Longrightarrow> opt_le (read_socket env fd rans wans c) (read_socket env' fd rans wans c)"
  unfolding read_socket_def
  by (intro opt_le_rules close_more read_framing_more frame_read_data_more rd_transition_more)

lemma write_socket_more: "answers_more env env' \<Longrightarrow> opt_le (write_socket env fd ans c) (write_socket env' fd ans c)"
  unfolding write_socket_def wr_transition_def by (intro opt_le_rules close_more)

lemma ctx_do_more:
  assumes "answers_more env env'"
  shows "opt_le (ctx_do env e c) (ctx_do env' e c)"
  by (cases e) (auto simp: read_handler_def write_handler_def opt_le_intros(1)
    intro: read_socket_more [OF assms] write_socket_more [OF assms])

lemma ctx_do_returning:
  assumes "ctx_do env e c = Some c'"
  obtains env' where "del_raw env' \<noteq> None" "ctx_do env' e c = Some c'"
proof (cases "del_raw env")
  case None
  then have "answers_more env (env\<lparr>del_raw := Some True\<rparr>)" by (simp add: answers_more_def)
  from ctx_do_more [OF this, of e c] that [of "env\<lparr>del_raw := Some True\<rparr>"] assms show ?thesis by (simp add: opt_le_def)
qed (use that [of env] assms in simp)

text \<open>A run; every event comes with answers of libevent of its own.\<close>

inductive ctx_reach :: "client_ctx \<Rightarrow> string \<Rightarrow> client_ctx \<Rightarrow> bool" for c0 where
  init: "ctx_reach c0 [] c0"
| step: "ctx_reach c0 arrived c \<Longrightarrow> ctx_may e c \<Longrightarrow> ctx_do env e c = Some c' \<Longrightarrow> ctx_reach c0 (arrived @ arrives e) c'"

lemma closed_stays: "m_sfd c = INVALID_SOCKET \<Longrightarrow> ctx_may e c \<Longrightarrow> \<exists>c'. ctx_do env e c = Some c' \<and> m_sfd c' = INVALID_SOCKET"
  by (cases e) (auto simp: read_handler_def write_handler_def INVALID_SOCKET_def)

lemma ctx_reach_inv:
  "ctx_reach c0 arrived c \<Longrightarrow> frame_inv fd [] c0 \<Longrightarrow> 0 \<le> fd \<Longrightarrow> m_sfd c = INVALID_SOCKET \<or> frame_inv fd arrived c"
proof (induction rule: ctx_reach.induct)
  case (step arrived c e env c')
  obtain env' where "del_raw env' \<noteq> None" "ctx_do env' e c = Some c'" by (rule ctx_do_returning [OF step.hyps(3)])
  with step show ?case using ctx_step [of fd arrived c e env'] closed_stays [of c e env'] by auto
qed simp

lemma ctx_init_inv:
  assumes "ctx_init env garbage fd new_ClientCtx = Some (ok, c)"
  shows "frame_inv fd [] c"
proof -
  obtain d where "ctx_init env garbage fd new_ClientCtx = set_read_ctxnew env d" "frame_inv fd [] d" "buffer_ok (m_outputBuffer d)"
    by (rule that [unfolded ctx_init_def Let_def, OF refl])
      (simp_all add: new_ClientCtx_def new_CFrameTransport_def transport_init_def frame_inv_def new_Buffer_def
        buffer_ok_def contents_def)
  moreover from this assms have "same_input d c" "m_outputBuffer c = m_outputBuffer d"
    using set_ctx_flags_input [of env "EV_PERSIST + EV_READ" False d ok c] by (simp_all add: set_read_ctxnew_def)
  ultimately show ?thesis using frame_inv_same [of d c fd "[]"] by simp
qed

subsection \<open>The properties\<close>

lemma frame_not_Nil [simp]: "frame m \<noteq> []"
  by (simp flip: length_greater_0_conv)

lemma frame_cancel:
  assumes "frame m @ x = frame m' @ y" "sized m" "sized m'"
  shows "m = m' \<and> x = y"
proof -
  have "take 4 (frame m) = take 4 (frame m')"
    using arg_cong [OF assms(1), of "take 4"] by simp
  then have "length m = length m'"
    using frame_size_frame [OF assms(2)] frame_size_frame [OF assms(3)] by simp
  with assms(1) show ?thesis by (simp add: frame_def)
qed

lemma frames_prefix:
  assumes "concat (map frame es) @ x = concat (map frame ms)" "\<forall>m \<in> set es. sized m" "\<forall>m \<in> set ms. sized m"
  shows "\<exists>rest. ms = es @ rest \<and> x = concat (map frame rest)"
  using assms
proof (induction es arbitrary: ms)
  case (Cons e es)
  then obtain m ms' where ms: "ms = m # ms'" by (cases ms) auto
  with Cons.prems frame_cancel [of e "concat (map frame es) @ x" m "concat (map frame ms')"]
  have "e = m" "concat (map frame es) @ x = concat (map frame ms')" by auto
  with Cons.IH [of ms'] Cons.prems ms show ?case by auto
qed auto

text \<open>
  C23: The echo server reads frames right whatever the network does to them. Take a new connection and any
  sequence of arriving bytes, read and write events and answers of the kernel and of libevent (event_add
  may fail at any time) in which a header is not split: no assertion fails and nothing is written outside
  the buffers; the one way an event does not run to its end is event_del on the memory of a write event that
  was never assigned, when that does not return. And as long as the connection is
  open and the client sends well-formed frames, the messages handed to the echo are the bodies of those
  frames, whole and in order, each once, with none left out when all bytes have been read.
\<close>

theorem frames_are_read_whole_in_order:
  assumes "ctx_init env0 garbage fd new_ClientCtx = Some (ok, c0)" "0 \<le> fd" "ctx_reach c0 arrived c" "ctx_may e c"
  shows "(ctx_do env e c = None \<longrightarrow> del_raw env = None)
    \<and> (m_sfd c \<noteq> INVALID_SOCKET \<and> arrived = concat (map frame ms) \<and> (\<forall>m \<in> set ms. sized m)
       \<longrightarrow> (\<exists>rest. ms = echoed c @ rest \<and> (sock_in c = [] \<longrightarrow> rest = [])))"
proof -
  have inv: "m_sfd c = INVALID_SOCKET \<or> frame_inv fd arrived c"
    by (rule ctx_reach_inv [OF assms(3) ctx_init_inv [OF assms(1)] assms(2)])
  then have "ctx_do env e c = None \<longrightarrow> del_raw env = None"
    using ctx_step [OF _ assms(4,2), of arrived env] closed_stays [OF _ assms(4), of env] by (metis option.distinct(1))
  moreover have "\<exists>rest. ms = echoed c @ rest \<and> (sock_in c = [] \<longrightarrow> rest = [])"
    if o: "m_sfd c \<noteq> INVALID_SOCKET" and a: "arrived = concat (map frame ms)" "\<forall>m \<in> set ms. sized m"
  proof -
    from inv o have i: "frame_inv fd arrived c" by simp
    then obtain partial where p: "arrived = concat (map frame (echoed c)) @ partial @ sock_in c"
      "partial = [] \<or> (\<exists>h b. partial = h @ b \<and> length h = 4 \<and> int (length b) < frame_size h)"
    proof (cases "rd_sock_State c")
      case SOCKET_RECV
      have "4 \<le> length (storage (m_in_buffer c))" using i by (simp add: frame_inv_def buffer_ok_def kCheapPrepend_def)
      then have "length (reserve c) = 4" by (simp add: reserve_def)
      moreover have "int (length (contents (m_in_buffer c))) < frame_size (reserve c)"
        "arrived = concat (map frame (echoed c)) @ (reserve c @ contents (m_in_buffer c)) @ sock_in c"
        using i SOCKET_RECV by (simp_all add: frame_inv_def)
      ultimately show ?thesis using that by blast
    qed (auto simp: frame_inv_def)
    have "\<forall>m \<in> set (echoed c). sized m" using i by (simp add: frame_inv_def)
    with frames_prefix [of "echoed c" "partial @ sock_in c" ms] p(1) a
    obtain rest where r: "ms = echoed c @ rest" "partial @ sock_in c = concat (map frame rest)" by auto
    have "rest = []" if none: "sock_in c = []"
    proof (cases rest)
      case (Cons m ms')
      with r none have pf: "partial = frame m @ concat (map frame ms')" by simp
      have m: "sized m" using a(2) r(1) Cons by simp
      from pf have "partial \<noteq> []" by simp
      with p(2) obtain h b where hb: "partial = h @ b" "length h = 4" "int (length b) < frame_size h" by blast
      then have "h = take 4 partial" by simp
      also have "\<dots> = take 4 (frame m)" by (simp add: pf)
      finally have "frame_size h = int (length m)" using frame_size_frame [OF m] by simp
      moreover have "4 + length b = 4 + length m + length (concat (map frame ms'))"
        using arg_cong [OF pf, of length] hb(1,2) by simp
      ultimately show ?thesis using hb(3) by simp
    qed simp
    with r(1) show ?thesis by blast
  qed
  ultimately show ?thesis by blast
qed

text \<open>
  A client that reads slowly is not served. While part of an answer waits in the output buffer, the
  next answer is written at once and reaches the client before the rest of the first; and when the rest
  has been written the write event stays on, so that its next call, with nothing to write, closes the
  connection.
\<close>

theorem slow_reader_is_garbled_and_closed:
  assumes "buffer_ok (m_outputBuffer c)" "contents (m_outputBuffer c) = rest" "rest \<noteq> []" "m_sfd c = fd" "m_socket c = fd"
    and "rdEvent c \<noteq> Ev_Raw" "wrEvent c = Ev_Added"
  shows "\<exists>c1 c2 c3. EchoIt env msg (Wrote (length msg)) c = Some c1 \<and> sock_out c1 = sock_out c @ msg
    \<and> write_handler env fd (Wrote (length rest)) c1 = Some c2 \<and> sock_out c2 = sock_out c @ msg @ rest
    \<and> wrEvent c2 = wrEvent c \<and> m_sfd c2 = fd
    \<and> write_handler env fd (Wrote 0) c2 = Some c3 \<and> m_sfd c3 = INVALID_SOCKET"
proof -
  let ?c1 = "c\<lparr>echoed := echoed c @ [msg], sock_out := sock_out c @ msg\<rparr>"
  have c1: "EchoIt env msg (Wrote (length msg)) c = Some ?c1" by (simp add: EchoIt_def write_buffer_def)
  obtain out where out: "retrieve (m_outputBuffer c) (length rest) = Some out" "buffer_ok out" "contents out = []"
    using retrieve_abs [OF assms(1), of "length rest"] assms(2) by auto
  then have "readableBytes out = 0" using length_contents [of out] by simp
  with out assms have "write_handler env fd (Wrote (length rest)) ?c1
      = Some (?c1\<lparr>sock_out := sock_out ?c1 @ rest, m_outputBuffer := out\<rparr>)" (is "_ = Some ?c2")
    by (simp add: write_handler_def write_socket_def wr_transition_def set_write_idle_ctxnew_def)
  moreover have "write_handler env fd (Wrote 0) ?c2 = on_closesocket env ?c2"
    using assms(4,5) by (simp add: write_handler_def write_socket_def wr_transition_def)
  moreover obtain c3 where "on_closesocket env ?c2 = Some c3"
    using assms(6,7) by (cases "rdEvent c") (auto simp: on_closesocket_def close_connection_def Let_def)
  ultimately show ?thesis using c1 assms(4) close_sfd by auto
qed

lemma fresh_ctx:
  assumes "add_ok env (EV_PERSIST + EV_READ)"
  shows "\<exists>c. ctx_init env garbage fd new_ClientCtx = Some (True, c) \<and> m_sfd c = fd \<and> rd_sock_State c = SOCKET_RECV_FRAMING \<and> sock_in c = []"
  using assms by (simp add: ctx_init_def set_read_ctxnew_def set_ctx_flags_ctxnew_def new_ClientCtx_def ev_flags event_add_def
      set_event_def new_CFrameTransport_def transport_init_def)

lemma frames_are_read_whole_in_order_witness:
  "\<exists>c c'. ctx_do \<lparr>del_raw = Some False, add_ok = \<lambda>_. False\<rparr> (Readable 9 (\<lambda>_. Recv 4) (Wrote 0)) c = Some c' \<and> sock_in c = frame ''hi'' \<and> echoed c = []"
proof -
  let ?env = "\<lparr>del_raw = None, add_ok = \<lambda>_. True\<rparr>"
  obtain c0 where c0: "ctx_init ?env APP_INIT 9 new_ClientCtx = Some (True, c0)" "m_sfd c0 = 9"
      "rd_sock_State c0 = SOCKET_RECV_FRAMING" "sock_in c0 = []"
    using fresh_ctx [of ?env APP_INIT 9] by auto
  define c where "c = c0\<lparr>sock_in := frame ''hi''\<rparr>"
  have "ctx_do ?env (Arrive (frame ''hi'')) c0 = Some c" by (simp add: c_def c0(4))
  from ctx_reach.step [OF ctx_reach.init _ this] have r: "ctx_reach c0 (frame ''hi'') c" by simp
  have e0: "frame_inv 9 [] c0" by (rule ctx_init_inv [OF c0(1)])
  have "recv_loop (\<lambda>_. Recv 4) 0 = Recv 4" by (simp add: recv_loop.simps)
  moreover have "0 \<le> m_readWant c" using c0 by (auto simp: c_def ctx_init_def set_read_ctxnew_def set_ctx_flags_ctxnew_def
      new_ClientCtx_def ev_flags event_add_def set_event_def new_CFrameTransport_def transport_init_def)
  ultimately have "ctx_may (Readable 9 (\<lambda>_. Recv 4) (Wrote 0)) c" by (simp add: c_def)
  from frames_are_read_whole_in_order [OF c0(1) _ r this, where ms = "[''hi'']" and env = "\<lparr>del_raw = Some False, add_ok = \<lambda>_. False\<rparr>"]
    e0 c0(3) show ?thesis by (auto simp: c_def frame_inv_def)
qed

lemma slow_reader_is_garbled_and_closed_witness:
  "\<exists>out c1 c2 c3. contents out = ''cd'' \<and> EchoIt \<lparr>del_raw = None, add_ok = \<lambda>_. True\<rparr> ''efg'' (Wrote 3)
      (new_ClientCtx\<lparr>m_sfd := 9, m_socket := 9, m_outputBuffer := out, sock_out := ''ab'', rdEvent := Ev_Assigned, wrEvent := Ev_Added\<rparr>) = Some c1
    \<and> write_handler \<lparr>del_raw = None, add_ok = \<lambda>_. True\<rparr> 9 (Wrote 2) c1 = Some c2 \<and> sock_out c2 = ''abefgcd''
    \<and> write_handler \<lparr>del_raw = None, add_ok = \<lambda>_. True\<rparr> 9 (Wrote 0) c2 = Some c3 \<and> m_sfd c3 = INVALID_SOCKET"
proof -
  obtain out where out: "buffer_ok out" "contents out = ''cd''" using buffer_holding [of "''cd''"] by auto
  let ?c = "new_ClientCtx\<lparr>m_sfd := 9, m_socket := 9, m_outputBuffer := out, sock_out := ''ab'', rdEvent := Ev_Assigned, wrEvent := Ev_Added\<rparr>"
  from slow_reader_is_garbled_and_closed [of ?c "''cd''" 9 "\<lparr>del_raw = None, add_ok = \<lambda>_. True\<rparr>" "''efg''"] out
  show ?thesis by (auto simp: numeral_2_eq_2 numeral_3_eq_3)
qed

text \<open>
  How it goes wrong: a connection that never waited to write is closed, here because its peer closed it,
  and event_del is called on the memory of its write event.
\<close>

lemma close_deletes_unassigned_event:
  assumes "ctx_init env0 garbage fd new_ClientCtx = Some (True, c)" "0 \<le> fd" "fd \<noteq> INVALID_SOCKET" "del_raw env = None"
  shows "wrEvent c = Ev_Raw" "ctx_do env (Readable fd (\<lambda>_. Recv 0) wans) c = None"
proof -
  have c: "wrEvent c = Ev_Raw" "m_sfd c = fd" "m_socket c = INVALID_SOCKET" "rd_sock_State c = SOCKET_RECV_FRAMING"
    "rd_app_state c = garbage" "m_in_buffer c = new_Buffer kInitialSize"
    using assms(1)
    by (auto simp: ctx_init_def set_read_ctxnew_def set_ctx_flags_ctxnew_def new_ClientCtx_def ev_flags event_add_def
        set_event_def new_CFrameTransport_def transport_init_def Let_def split: if_splits)
  then show "wrEvent c = Ev_Raw" by simp
  have "on_closesocket env d = None" if "wrEvent d = Ev_Raw" for d
    using that assms(4) by (cases "event_del env (rdEvent d)") (auto simp: on_closesocket_def close_connection_def Let_def)
  with c assms(2,3) show "ctx_do env (Readable fd (\<lambda>_. Recv 0) wans) c = None"
    by (simp add: read_handler_def read_socket_def read_framing_def read_sock_buffer_len_def recv_loop.simps overwrite_def)
qed

text \<open>A read event with a willing kernel.\<close>

definition reads :: "libevent \<Rightarrow> write_answer \<Rightarrow> int \<Rightarrow> client_ctx \<Rightarrow> client_ctx option" where
  "reads env wans fd c = ctx_do env (Readable fd (\<lambda>_. Recv 65536) wans) c"

lemma recv_willing [simp]: "recv_loop (\<lambda>_. Recv n) 0 = Recv n"
  by (simp add: recv_loop.simps)

text \<open>A context that is used again keeps the transport's buffers and its old descriptor number.\<close>

lemma recycled_init:
  assumes "allocated c" "add_ok env (EV_PERSIST + EV_READ)"
  shows "ctx_init env garbage fd c = Some (True, c\<lparr>ctxIsInUse := True, m_sessionID := 0, m_notifyID := 0, sock_in := [], sock_out := [],
     echoed := [], m_sfd := fd, m_flags := EV_PERSIST + EV_READ, rd_sock_State := SOCKET_RECV_FRAMING, m_readWant := 0, rdEvent := Ev_Added\<rparr>)"
  using assms by (simp add: ctx_init_def transport_init_def set_read_ctxnew_def set_ctx_flags_ctxnew_def ev_flags event_add_def set_event_def)

text \<open>
  A recycled context mixes up its clients. \<open>init\<close> resets neither the transport's buffers nor its
  descriptor. When the next client gets another descriptor number, its first bytes close the connection;
  when it gets the same number, the bytes an earlier client left of an unfinished message come first in
  what is echoed as the new client's first message. (event_del is taken to return here.)
\<close>

theorem recycled_context_mixes_clients:
  assumes env: "del_raw env \<noteq> None" and c: "allocated c" "add_ok env (EV_PERSIST + EV_READ)" "buffer_ok (m_in_buffer c)" "readerIndex (m_in_buffer c) = kCheapPrepend"
    and old: "contents (m_in_buffer c) = old" "length old < length msg" "length msg \<le> 65536"
    and sock: "m_socket c = fd" "0 \<le> fd" "rd_app_state c \<noteq> APP_INIT" "0 \<le> fd'" "fd' \<noteq> fd"
  shows "(\<exists>c1 c2. ctx_init env g fd' c = Some (True, c1) \<and> ctx_do env (Readable fd' rans wans) c1 = Some c2 \<and> m_sfd c2 = INVALID_SOCKET)
    \<and> (\<exists>c1 c2 c3. ctx_init env g fd c = Some (True, c1) \<and> reads env (Wrote (length msg)) fd (c1\<lparr>sock_in := frame msg\<rparr>) = Some c2 \<and> reads env (Wrote (length msg)) fd c2 = Some c3
         \<and> echoed c3 = [old @ take (length msg - length old) msg])"
proof (intro conjI)
  show "\<exists>c1 c2. ctx_init env g fd' c = Some (True, c1) \<and> ctx_do env (Readable fd' rans wans) c1 = Some c2 \<and> m_sfd c2 = INVALID_SOCKET"
    using sock c(1,2) env by (simp add: recycled_init read_handler_def read_socket_def INVALID_SOCKET_def)
next
  obtain c1 where c1: "ctx_init env g fd c = Some (True, c1)" "m_sfd c1 = fd" "m_socket c1 = fd" "m_in_buffer c1 = m_in_buffer c"
    "rd_sock_State c1 = SOCKET_RECV_FRAMING" "rd_app_state c1 \<noteq> APP_INIT" "echoed c1 = []" "m_flags c1 = EV_PERSIST + EV_READ"
    using recycled_init [OF c(1,2), of g fd] sock by auto
  have open_sock: "fd \<noteq> INVALID_SOCKET" using sock(2) by (simp add: INVALID_SOCKET_def)
  have sz: "sized msg" using old(2,3) by (auto simp: sized_def)
  let ?h = "take 4 (frame msg)" and ?c1 = "c1\<lparr>sock_in := frame msg\<rparr>"
  have h: "length ?h = 4" "frame_size ?h = int (length msg)" "sock_in ?c1 = ?h @ msg"
    using frame_size_frame [OF sz] by (simp_all add: frame_def)
  let ?w = "Wrote (length msg)"
  obtain b2 where b2: "buffer_ok b2" "contents b2 = old" "readerIndex b2 = kCheapPrepend" "take 4 (storage b2) = ?h"
    and rf: "do { (ok, c) \<leftarrow> read_framing env (\<lambda>_. Recv 65536) ?w ?c1; if ok then rd_transition env ?w c else Some c }
      = Some (?c1\<lparr>sock_in := msg, m_in_buffer := b2, m_readWant := int (length msg), rd_sock_State := SOCKET_RECV, rd_app_state := APP_READ_REQUEST\<rparr>)"
    using header_read [of ?c1 ?h msg "\<lambda>_. Recv 65536" 65536 env ?w] c(3,4) old(1,2) c1 h open_sock by (auto simp del: bind_eq_Some_conv)
  define c2 where "c2 = ?c1\<lparr>sock_in := msg, m_in_buffer := b2, m_readWant := int (length msg), rd_sock_State := SOCKET_RECV, rd_app_state := APP_READ_REQUEST\<rparr>"
  have r1: "reads env ?w fd ?c1 = Some c2"
    using rf c1(2,3,5,6) open_sock by (simp add: reads_def read_handler_def read_socket_def c2_def)
  define got where "got = take (length msg - length old) msg"
  have g: "got = take (min 65536 (nat (m_readWant c2) - length (contents (m_in_buffer c2)))) (sock_in c2)"
    using old(2,3) b2(2) by (simp add: got_def min_def c2_def)
  have full: "length old + length got = length msg" and "got \<noteq> []" using old(2) by (auto simp: got_def)
  define c3 where "c3 b = c2\<lparr>sock_in := drop (length got) msg, m_in_buffer := b\<rparr>" for b
  obtain b3 where b3: "buffer_ok b3" "contents b3 = old @ got" "take 4 (storage b3) = ?h"
    and rd: "frame_read_data env (\<lambda>_. Recv 65536) c2 = Some (True, c3 b3)"
    using body_read [of c2 "\<lambda>_. Recv 65536" 65536 got env, OF _ _ _ _ _ _ g] b2(1-4) c1(3) open_sock old(2,3) full \<open>got \<noteq> []\<close>
    by (auto simp: reserve_def c2_def c3_def)
  have res: "sint (peekInt32_FromReserve b3) = int (length msg)" using b3(3) h(2) by (simp add: peekInt32_FromReserve_def frame_size_def)
  have "GetMsg (c3 b3) = Some (old @ got, (c3 b3)\<lparr>m_in_buffer := retrieveAll b3\<rparr>)"
    using res full b3(1,2) take_contents [OF b3(1), of "length (old @ got)"]
    by (simp add: GetMsg_def retrieveAsString_def retrieve_def length_contents [symmetric] c3_def)
  moreover have "set_read_ctxnew env (c3 b3) = Some (True, c3 b3)"
    using c1(8) by (simp add: set_read_ctxnew_def set_ctx_flags_ctxnew_def c3_def c2_def)
  ultimately have "\<exists>c4. rd_transition env ?w (c3 b3) = Some c4 \<and> echoed c4 = [old @ got]"
    using full old(2) c1(7)
    by (auto simp: rd_transition_def on_readsocketdone_def EchoIt_def write_buffer_def c3_def c2_def Let_def)
  then have "\<exists>c4. reads env ?w fd c2 = Some c4 \<and> echoed c4 = [old @ got]"
    using rd c1(2,3) open_sock by (simp add: reads_def read_handler_def read_socket_def) (simp add: c2_def)
  with r1 c1(1) show "\<exists>c1 c2 c3. ctx_init env g fd c = Some (True, c1) \<and> reads env ?w fd (c1\<lparr>sock_in := frame msg\<rparr>) = Some c2
      \<and> reads env ?w fd c2 = Some c3 \<and> echoed c3 = [old @ take (length msg - length old) msg]"
    unfolding got_def by blast
qed

lemma recycled_context_mixes_clients_witness:
  "\<exists>b c1 c2 c3. contents b = ''ab''
    \<and> ctx_init \<lparr>del_raw = Some False, add_ok = \<lambda>_. True\<rparr> APP_INIT 7 (new_ClientCtx\<lparr>allocated := True, m_socket := 7, rd_app_state := APP_READ_REQUEST, m_in_buffer := b\<rparr>) = Some (True, c1)
    \<and> reads \<lparr>del_raw = Some False, add_ok = \<lambda>_. True\<rparr> (Wrote (length ''xyz'')) 7 (c1\<lparr>sock_in := frame ''xyz''\<rparr>) = Some c2 \<and> reads \<lparr>del_raw = Some False, add_ok = \<lambda>_. True\<rparr> (Wrote (length ''xyz'')) 7 c2 = Some c3 \<and> echoed c3 = [''abx'']"
proof -
  obtain b where b: "buffer_append (new_Buffer kInitialSize) ''ab'' = Some b" "buffer_ok b" "contents b = ''ab''"
    using buffer_holding by blast
  have "readerIndex b = kCheapPrepend"
    using buffer_append_reserve [OF _ b(1)] by (simp add: new_Buffer_asserts) (simp add: prependableBytes_def)
  with b have "\<exists>c1 c2 c3. ctx_init \<lparr>del_raw = Some False, add_ok = \<lambda>_. True\<rparr> APP_INIT 7
      (new_ClientCtx\<lparr>allocated := True, m_socket := 7, rd_app_state := APP_READ_REQUEST, m_in_buffer := b\<rparr>) = Some (True, c1)
    \<and> reads \<lparr>del_raw = Some False, add_ok = \<lambda>_. True\<rparr> (Wrote (length ''xyz'')) 7 (c1\<lparr>sock_in := frame ''xyz''\<rparr>) = Some c2
    \<and> reads \<lparr>del_raw = Some False, add_ok = \<lambda>_. True\<rparr> (Wrote (length ''xyz'')) 7 c2 = Some c3
    \<and> echoed c3 = [''ab'' @ take (length ''xyz'' - length ''ab'') ''xyz'']"
    by (intro conjunct2 [OF recycled_context_mixes_clients [of _ _ _ _ 7 8]]) simp_all
  then show ?thesis using b(3) by (intro exI [of _ b]) simp
qed

end
