(* ===== verification/Io_Threads.thy ===== *)
theory Io_Threads
  imports Frame_Transport
begin

text \<open>
  examples/tstlesrv/iothread.h, iothread.cpp and iothreadmanager.hpp, iothreadmanager.cpp: the threads the
  echo server deals its connections to, each with its queue of accepted sockets and its pool of recycled
  contexts. A context is its number in \<open>heap\<close>; an accepted socket is an Item_t, None a null pointer. The
  pipe watcher that wakes the thread is the count \<open>notified\<close> of what was written to it.
\<close>

record io_thread =
  io_tid :: nat
  connQueue :: "int option list"
  notified :: nat
  idleCtxs :: "nat list"
  heap :: "client_ctx list"
  deleted :: "nat list"
  pushConnections :: "(int \<times> nat) list"
  closed_sockets :: "int list"

definition new_CIOThread :: "nat \<Rightarrow> io_thread" where
  "new_CIOThread tid = \<lparr>io_tid = tid, connQueue = [], notified = 0, idleCtxs = [], heap = [], deleted = [],
     pushConnections = [], closed_sockets = []\<rparr>"

definition set_item :: "int option \<Rightarrow> io_thread \<Rightarrow> bool \<times> io_thread" where
  "set_item item t =
     (if item = None then (False, t)
      else (True, t\<lparr>connQueue := connQueue t @ [item], notified := notified t + 1\<rparr>))"

fun pop_items :: "int option \<Rightarrow> int option list \<Rightarrow> int option \<times> int option list" where
  "pop_items item [] = (item, [])"
| "pop_items item (x # q) = (if x \<noteq> None then (x, q) else pop_items x q)"

definition get_connitem :: "io_thread \<Rightarrow> int option \<times> io_thread" where
  "get_connitem t = (let (item, q) = pop_items None (connQueue t) in (item, t\<lparr>connQueue := q\<rparr>))"

definition return_clientctx :: "nat \<Rightarrow> io_thread \<Rightarrow> io_thread" where
  "return_clientctx i t = t\<lparr>idleCtxs := idleCtxs t @ [i]\<rparr>"

text \<open>The loop skips contexts in use; None when the queue runs out.\<close>

fun pop_ctxs :: "client_ctx list \<Rightarrow> nat list \<Rightarrow> nat option \<times> nat list" where
  "pop_ctxs cs [] = (None, [])"
| "pop_ctxs cs (i # q) = (if ctxIsInUse (cs ! i) then pop_ctxs cs q else (Some i, q))"

definition get_clientctx :: "io_thread \<Rightarrow> nat \<times> io_thread" where
  "get_clientctx t =
     (let (ctx, q) = pop_ctxs (heap t) (idleCtxs t); t = t\<lparr>idleCtxs := q\<rparr>
      in case ctx of
           Some i \<Rightarrow> (i, t)
         | None \<Rightarrow> (length (heap t), t\<lparr>heap := heap t @ [new_ClientCtx]\<rparr>))"

definition create_connection :: "libevent \<Rightarrow> app_state \<Rightarrow> int \<Rightarrow> io_thread \<Rightarrow> (bool \<times> io_thread) option" where
  "create_connection env garbage socket t = do {
     let (i, t) = get_clientctx t;
     (ok, c) \<leftarrow> ctx_init env garbage socket (heap t ! i);
     let t = t\<lparr>heap := (heap t)[i := c]\<rparr>;
     if \<not> ok then Some (False, t\<lparr>deleted := deleted t @ [i]\<rparr>) else Some (True, t) }"

definition thread_handle_newconnection :: "libevent \<Rightarrow> app_state \<Rightarrow> char \<Rightarrow> io_thread \<Rightarrow> io_thread option" where
  "thread_handle_newconnection env garbage ch t =
     (if ch = CHR ''c'' then
        (let (newItem, t) = get_connitem t
         in case newItem of
              None \<Rightarrow> Some t
            | Some socket \<Rightarrow> do {
                (ok, t) \<leftarrow> create_connection env garbage socket t;
                Some (if \<not> ok then t\<lparr>closed_sockets := closed_sockets t @ [socket]\<rparr> else t) })
      else Some t)"

definition setPushConnection :: "int \<Rightarrow> nat option \<Rightarrow> io_thread \<Rightarrow> io_thread" where
  "setPushConnection sid ctx t =
     (if sid \<le> 0 then t else case ctx of None \<Rightarrow> t | Some i \<Rightarrow> t\<lparr>pushConnections := amap_put sid i (pushConnections t)\<rparr>)"

definition deletePushConnection :: "int \<Rightarrow> nat \<Rightarrow> io_thread \<Rightarrow> io_thread" where
  "deletePushConnection sid i t =
     (if map_of (pushConnections t) sid = Some i then t\<lparr>pushConnections := amap_erase sid (pushConnections t)\<rparr> else t)"

subsection \<open>The manager\<close>

record io_manager =
  m_nthreads :: nat
  m_nextthreads :: nat
  m_threads :: "io_thread list"

definition new_CIoThreadMgr :: "nat \<Rightarrow> io_manager" where
  "new_CIoThreadMgr numthreads = \<lparr>m_nthreads = numthreads, m_nextthreads = 0, m_threads = []\<rparr>"

text \<open>\<open>starts j\<close>: whether the thread of round \<open>j\<close> starts; those that do not are deleted.\<close>

fun start_io_threads :: "(nat \<Rightarrow> bool) \<Rightarrow> nat \<Rightarrow> nat \<Rightarrow> nat \<Rightarrow> io_thread list" where
  "start_io_threads starts 0 j threadIndex = []"
| "start_io_threads starts (Suc n) j threadIndex =
     (if starts j then new_CIOThread threadIndex # start_io_threads starts n (j + 1) (threadIndex + 1)
      else start_io_threads starts n (j + 1) threadIndex)"

definition manager_start :: "(nat \<Rightarrow> bool) \<Rightarrow> io_manager \<Rightarrow> bool \<times> io_manager" where
  "manager_start starts g =
     (let g = g\<lparr>m_threads := m_threads g @ start_io_threads starts (m_nthreads g) 1 1\<rparr>;
          g = g\<lparr>m_nthreads := length (m_threads g)\<rparr>
      in (0 < m_nthreads g, g))"

definition dispatch_item :: "int option \<Rightarrow> io_manager \<Rightarrow> bool \<times> io_manager" where
  "dispatch_item item g =
     (if item = None \<or> m_nthreads g = 0 then (False, g)
      else
        (let selected = m_nextthreads g;
             g = g\<lparr>m_nextthreads := (m_nextthreads g + 1) mod m_nthreads g\<rparr>;
             (ok, t) = set_item item (m_threads g ! selected)
         in (ok, g\<lparr>m_threads := (m_threads g)[selected := t]\<rparr>)))"

subsection \<open>What can happen to a thread\<close>

text \<open>An event of the pipe or of a context comes with what libevent answers in it.\<close>

datatype io_event =
    IO_item int
  | IO_pipe char libevent app_state
  | IO_ctx nat libevent ctx_event

text \<open>The signals of a context reach its thread: sessions given up, then the context returned.\<close>

definition ctx_signals :: "nat \<Rightarrow> client_ctx \<Rightarrow> client_ctx \<Rightarrow> io_thread \<Rightarrow> io_thread" where
  "ctx_signals i c c' t =
     (let t = fold (\<lambda>sid. deletePushConnection sid i) (drop (length (given_up c)) (given_up c')) t
      in fold (\<lambda>_. return_clientctx i) [0..<returns c' - returns c] t)"

fun io_do :: "io_event \<Rightarrow> io_thread \<Rightarrow> io_thread option" where
  "io_do (IO_item s) t = Some (snd (set_item (Some s) t))"
| "io_do (IO_pipe ch env garbage) t = thread_handle_newconnection env garbage ch t"
| "io_do (IO_ctx i env e) t = do {
     c \<leftarrow> ctx_do env e (heap t ! i);
     Some (ctx_signals i (heap t ! i) c (t\<lparr>heap := (heap t)[i := c]\<rparr>)) }"

text \<open>Accepted descriptors are not negative; the events of a context are about an open descriptor.\<close>

fun about_open :: "ctx_event \<Rightarrow> client_ctx \<Rightarrow> bool" where
  "about_open (Arrive s) c \<longleftrightarrow> m_sfd c \<noteq> INVALID_SOCKET"
| "about_open (Readable fd rans wans) c \<longleftrightarrow> 0 \<le> fd"
| "about_open (Writable fd wans) c \<longleftrightarrow> 0 \<le> fd"

fun io_may :: "io_event \<Rightarrow> io_thread \<Rightarrow> bool" where
  "io_may (IO_item s) t \<longleftrightarrow> 0 \<le> s"
| "io_may (IO_pipe ch env garbage) t \<longleftrightarrow> True"
| "io_may (IO_ctx i env e) t \<longleftrightarrow> i < length (heap t) \<and> i \<notin> set (deleted t) \<and> about_open e (heap t ! i)"

inductive io_reach :: "io_thread \<Rightarrow> io_thread \<Rightarrow> bool" for t0 where
  init: "io_reach t0 t0"
| step: "io_reach t0 t \<Longrightarrow> io_may e t \<Longrightarrow> io_do e t = Some t' \<Longrightarrow> io_reach t0 t'"

subsection \<open>A context closes once\<close>

definition ctx_open :: "client_ctx \<Rightarrow> bool" where
  "ctx_open c \<longleftrightarrow> m_sfd c \<noteq> INVALID_SOCKET \<and> ctxIsInUse c"

definition ctx_closed :: "client_ctx \<Rightarrow> bool" where
  "ctx_closed c \<longleftrightarrow> m_sfd c = INVALID_SOCKET \<and> \<not> ctxIsInUse c"

definition same_life :: "client_ctx \<Rightarrow> client_ctx \<Rightarrow> bool" where
  "same_life c c' \<longleftrightarrow> m_sfd c' = m_sfd c \<and> ctxIsInUse c' = ctxIsInUse c \<and> returns c' = returns c"

definition ends_life :: "client_ctx \<Rightarrow> client_ctx \<Rightarrow> bool" where
  "ends_life c c' \<longleftrightarrow> ctx_closed c' \<and> returns c' = returns c + 1"

lemmas life_defs = same_life_def ends_life_def ctx_closed_def

lemma close_ends: "same_life c d \<Longrightarrow> on_closesocket env d = Some c' \<Longrightarrow> ends_life c c'"
  by (auto simp: life_defs on_closesocket_def close_connection_def recycle_ctx_def setSessionID_def setClientNotifyID_def
      bind_Some_iff Let_def)

lemma set_ctx_flags_life: "set_ctx_flags_ctxnew env flags wr c = Some (ok, c') \<Longrightarrow> same_life c c'"
  by (auto simp: set_ctx_flags_ctxnew_def event_add_def same_life_def set_event_def bind_Some_iff Let_def
      split: prod.splits if_splits)

lemma on_setwritestate_life:
  assumes "same_life c d" "on_setwritestate env d = Some c'"
  shows "same_life c c' \<or> ends_life c c'"
proof -
  obtain ok d' where d: "set_ctx_flags_ctxnew env (EV_PERSIST + EV_WRITE) True d = Some (ok, d')"
      "if ok then c' = d' else on_closesocket env d' = Some c'"
    using assms(2) by (auto simp: on_setwritestate_def set_write_ctxnew_def bind_Some_iff split: if_splits)
  have "same_life c d'" using set_ctx_flags_life [OF d(1)] assms(1) by (simp add: same_life_def)
  with d(2) close_ends [OF this] show ?thesis by (auto split: if_splits)
qed

definition same_states :: "client_ctx \<Rightarrow> client_ctx \<Rightarrow> bool" where
  "same_states c c' \<longleftrightarrow> rd_app_state c' = rd_app_state c \<and> m_readWant c' = m_readWant c"

lemma EchoIt_cases:
  assumes "EchoIt env msg ans d = Some c'"
  obtains d' where "same_life d d'" "same_states d d'" "c' = d' \<or> on_setwritestate env d' = Some c'"
proof -
  obtain nw f where r: "write_result ans = (nw, f)" by fastforce
  define d1 where "d1 = d\<lparr>echoed := echoed d @ [msg], sock_out := sock_out d @ take nw msg\<rparr>"
  have "c' = d1 \<or> (\<exists>out. on_setwritestate env (d1\<lparr>m_outputBuffer := out\<rparr>) = Some c')"
    using assms r by (auto simp: EchoIt_def write_buffer_def d1_def Let_def run_simps split: if_splits)
  moreover have "same_life d d1" "same_states d d1" "same_life d (d1\<lparr>m_outputBuffer := out\<rparr>)"
      "same_states d (d1\<lparr>m_outputBuffer := out\<rparr>)" for out
    by (simp_all add: same_life_def same_states_def d1_def)
  ultimately show ?thesis using that by blast
qed

lemma EchoIt_life:
  assumes "EchoIt env msg ans d = Some c'" "same_life c d"
  shows "same_life c c' \<or> ends_life c c'"
proof -
  obtain d' where d': "same_life d d'" "c' = d' \<or> on_setwritestate env d' = Some c'" by (rule EchoIt_cases [OF assms(1)])
  with assms(2) have "same_life c d'" by (simp add: same_life_def)
  with d'(2) on_setwritestate_life [OF this] show ?thesis by blast
qed

lemma on_readsocketdone_life:
  assumes "on_readsocketdone env wans c = Some c'"
  shows "same_life c c' \<or> ends_life c c'"
proof -
  obtain ok c1 where c1: "set_read_ctxnew env c = Some (ok, c1)"
    using assms by (auto simp: on_readsocketdone_def bind_Some_iff)
  then have "same_life c c1" using set_ctx_flags_life [of env _ False c] by (metis set_read_ctxnew_def)
  with c1 assms EchoIt_life [of env _ wans _ c' c] show ?thesis
    by (fastforce simp: on_readsocketdone_def GetMsg_def same_life_def run_simps Let_def split: if_splits)
qed

lemma on_setwritestate_states:
  assumes "on_setwritestate env d = Some c'"
  shows "same_states d c'"
proof -
  obtain ok d' where d: "set_ctx_flags_ctxnew env (EV_PERSIST + EV_WRITE) True d = Some (ok, d')"
      "if ok then c' = d' else on_closesocket env d' = Some c'"
    using assms by (auto simp: on_setwritestate_def set_write_ctxnew_def bind_Some_iff split: if_splits)
  have "same_states d d'" using set_ctx_flags_input [OF d(1)] by (simp add: same_states_def same_input_def)
  moreover have "same_states d' c'" if "on_closesocket env d' = Some c'"
    using that by (auto simp: same_states_def on_closesocket_def close_connection_def recycle_ctx_def setSessionID_def
        setClientNotifyID_def bind_Some_iff Let_def)
  ultimately show ?thesis using d(2) by (auto simp: same_states_def split: if_splits)
qed

lemma on_readsocketdone_states:
  assumes "on_readsocketdone env wans c = Some c'"
  shows "same_states c c'"
proof -
  obtain ok c1 where c1: "set_read_ctxnew env c = Some (ok, c1)"
    using assms by (auto simp: on_readsocketdone_def bind_Some_iff)
  then have s1: "same_states c c1"
    using set_ctx_flags_input [of env _ False c] by (auto simp: set_read_ctxnew_def same_states_def same_input_def)
  from c1 assms obtain m b where e: "EchoIt env m wans (c1\<lparr>m_in_buffer := b\<rparr>) = Some c' \<or> c' = c1\<lparr>m_in_buffer := b\<rparr>"
    by (auto simp: on_readsocketdone_def GetMsg_def run_simps Let_def split: if_splits)
  have "same_states d c'" if "EchoIt env m wans d = Some c'" for d
    using EchoIt_cases [OF that] on_setwritestate_states by (metis same_states_def)
  from e this [of "c1\<lparr>m_in_buffer := b\<rparr>"] s1 show ?thesis by (auto simp: same_states_def)
qed

lemma read_sock_life: "read_sock_buffer_len ans off len c = Some (r, c') \<Longrightarrow> same_life c c'"
  by (auto simp: read_sock_buffer_len_def same_life_def run_simps Let_def split: if_splits recv_answer.splits)

lemma same_life_trans: "same_life c d \<Longrightarrow> same_life d e \<Longrightarrow> same_life c e"
  by (simp add: same_life_def)

lemma life_trans: "same_life c d \<Longrightarrow> ends_life d e \<Longrightarrow> ends_life c e"
  by (simp add: life_defs)

lemma read_framing_life:
  assumes "read_framing env rans wans c = Some (ok, c')"
  shows "(if ok then same_life c c' \<or> ends_life c c' \<and> rd_app_state c' = APP_READ_FRAME_SIZE \<and> 0 < m_readWant c' else ends_life c c')"
proof -
  obtain n c1 where r: "read_sock_buffer_len rans 0 4 c = Some (n, c1)"
    using assms by (auto simp: read_framing_def run_simps)
  note l1 = read_sock_life [OF r]
  let ?want = "sint (peekInt32_FromReserve (m_in_buffer c1))"
  let ?c2 = "c1\<lparr>m_readWant := ?want, rd_app_state := APP_READ_FRAME_SIZE\<rparr>"
  have l2: "same_life c ?c2" "same_life c (c1\<lparr>m_readWant := ?want\<rparr>)" using l1 by (simp_all add: same_life_def)
  have "n \<le> 0 \<and> ok = False \<and> on_closesocket env c1 = Some c'
    \<or> 0 < n \<and> ?want \<le> 0 \<and> ok = False \<and> on_closesocket env (c1\<lparr>m_readWant := ?want\<rparr>) = Some c'
    \<or> 0 < ?want \<and> ok \<and> (on_readsocketdone env wans ?c2 = Some c' \<or> c' = ?c2)"
    using assms r by (auto simp: read_framing_def run_simps Let_def not_le split: if_splits)
  moreover have "same_life c c' \<or> ends_life c c'" "rd_app_state c' = APP_READ_FRAME_SIZE \<and> m_readWant c' = ?want"
    if "on_readsocketdone env wans ?c2 = Some c'"
    using on_readsocketdone_life [OF that] on_readsocketdone_states [OF that] same_life_trans [OF l2(1)] life_trans [OF l2(1)]
    by (auto simp: same_states_def)
  ultimately show ?thesis using close_ends [OF l1, of env c'] close_ends [OF l2(2), of env c'] l2(1) by auto
qed

lemma frame_read_data_life:
  assumes "frame_read_data env rans c = Some (ok, c')"
  shows "if ok then same_life c c' else same_life c c' \<or> ends_life c c'"
proof (cases "m_readWant c \<le> 0")
  case True
  with assms close_ends [of c c env c'] show ?thesis by (auto simp: frame_read_data_def same_life_def bind_Some_iff)
next
  case False
  then obtain b where b: "ensureWritableBytes (m_in_buffer c) (nat (m_readWant c)) = Some b"
    using assms by (cases "ensureWritableBytes (m_in_buffer c) (nat (m_readWant c))") (simp_all add: frame_read_data_def)
  let ?room = "nat ((m_readWant c - int (readableBytes b)) mod 2 ^ 32)"
  have eq: "frame_read_data env rans c = do {
     (recvBytes, c) \<leftarrow> read_sock_buffer_len rans (beginWrite b) ?room (c\<lparr>m_in_buffer := b\<rparr>);
     if recvBytes \<le> 0 then do { c \<leftarrow> on_closesocket env c; Some (False, c) }
     else do {
       b \<leftarrow> hasWritten (m_in_buffer c) (nat recvBytes);
       let c = c\<lparr>m_in_buffer := b\<rparr>;
       Some (\<not> int (readableBytes b) < m_readWant c, c) } }"
    using False b by (intro frame_read_data_eq) simp_all
  obtain n c1 where r: "read_sock_buffer_len rans (beginWrite b) ?room (c\<lparr>m_in_buffer := b\<rparr>) = Some (n, c1)"
    using assms unfolding eq by (cases "read_sock_buffer_len rans (beginWrite b) ?room (c\<lparr>m_in_buffer := b\<rparr>)") auto
  have l1: "same_life c c1" using read_sock_life [OF r] by (simp add: same_life_def)
  show ?thesis
  proof (cases "n \<le> 0")
    case True
    with assms r close_ends [OF l1, of env c'] show ?thesis unfolding eq by (auto simp: bind_Some_iff)
  next
    case False
    with assms r obtain b2 where "c' = c1\<lparr>m_in_buffer := b2\<rparr>" unfolding eq
      by (cases "hasWritten (m_in_buffer c1) (nat n)") (auto simp: Let_def)
    with l1 show ?thesis by (simp add: same_life_def)
  qed
qed

lemma rd_transition_life:
  assumes "rd_transition env wans c = Some c'"
  shows "same_life c c' \<or> ends_life c c'"
proof -
  have s: "same_life c (c\<lparr>rd_sock_State := x, rd_app_state := y\<rparr>)" for x y by (simp add: same_life_def)
  have upd: "same_life c (d\<lparr>rd_sock_State := x, rd_app_state := y, m_readWant := z\<rparr>) = same_life c d"
    "ends_life c (d\<lparr>rd_sock_State := x, rd_app_state := y, m_readWant := z\<rparr>) = ends_life c d" for d x y z
    by (simp_all add: life_defs)
  show ?thesis
    using assms close_ends [of c c env c'] on_setwritestate_life [OF s] on_readsocketdone_life [of env wans c] s
    by (auto simp: rd_transition_def run_simps upd split: app_state.splits if_splits) (auto simp: same_life_def)
qed

lemma life_step: "same_life c d \<Longrightarrow> same_life d e \<or> ends_life d e \<Longrightarrow> same_life c e \<or> ends_life c e"
  using same_life_trans life_trans by blast

lemma read_socket_life:
  assumes "read_socket env fd rans wans c = Some c'"
  shows "same_life c c' \<or> ends_life c c'"
proof -
  define c1 where "c1 = (if m_socket c = INVALID_SOCKET \<or> rd_app_state c = APP_INIT then c\<lparr>m_socket := fd\<rparr> else c)"
  have s1: "same_life c c1" by (simp add: c1_def same_life_def)
  have eq: "read_socket env fd rans wans c =
     (if \<not> (m_socket c = INVALID_SOCKET \<or> rd_app_state c = APP_INIT) \<and> m_socket c \<noteq> fd then on_closesocket env c
      else case rd_sock_State c1 of
              SOCKET_RECV_FRAMING \<Rightarrow> do { (ok, c) \<leftarrow> read_framing env rans wans c1; if ok then rd_transition env wans c else Some c }
            | SOCKET_RECV \<Rightarrow> do { (ok, c) \<leftarrow> frame_read_data env rans c1; if ok then rd_transition env wans c else Some c }
            | SOCKET_SEND \<Rightarrow> on_closesocket env c1)"
    by (simp only: read_socket_def Let_def c1_def)
  consider (close) d where "on_closesocket env d = Some c'" "same_life c d"
    | (framing) ok c2 where "read_framing env rans wans c1 = Some (ok, c2)" "(if ok then rd_transition env wans c2 else Some c2) = Some c'"
    | (body) ok c2 where "frame_read_data env rans c1 = Some (ok, c2)" "(if ok then rd_transition env wans c2 else Some c2) = Some c'"
  proof (cases "\<not> (m_socket c = INVALID_SOCKET \<or> rd_app_state c = APP_INIT) \<and> m_socket c \<noteq> fd")
    case True
    with assms close [of c] show thesis by (simp add: eq same_life_def)
  next
    case False
    note r = assms [unfolded eq if_not_P [OF False]]
    show thesis
    proof (cases "rd_sock_State c1")
      case SOCKET_RECV_FRAMING
      with r framing show thesis by (cases "read_framing env rans wans c1") auto
    next
      case SOCKET_RECV
      with r body show thesis by (cases "frame_read_data env rans c1") auto
    next
      case SOCKET_SEND
      with r close [of c1] s1 show thesis by simp
    qed
  qed
  then show ?thesis
  proof cases
    case close
    with close_ends show ?thesis by blast
  next
    case framing
    note l = read_framing_life [OF framing(1)]
    have "same_life c1 c' \<or> ends_life c1 c'"
    proof (cases ok)
      case False
      with l framing(2) show ?thesis by simp
    next
      case True
      then consider "same_life c1 c2" | "ends_life c1 c2" "rd_app_state c2 = APP_READ_FRAME_SIZE" "0 < m_readWant c2"
        using l by auto
      then show ?thesis
      proof cases
        case 1
        from framing(2) True have "rd_transition env wans c2 = Some c'" by simp
        from life_step [OF 1 rd_transition_life [OF this]] show ?thesis .
      next
        case 2
        with framing(2) True have "c' = c2\<lparr>rd_sock_State := SOCKET_RECV, rd_app_state := APP_READ_REQUEST\<rparr>"
          by (simp add: rd_transition_def)
        with 2(1) show ?thesis by (simp add: life_defs)
      qed
    qed
    from life_step [OF s1 this] show ?thesis .
  next
    case body
    note l = frame_read_data_life [OF body(1)]
    have "same_life c1 c' \<or> ends_life c1 c'"
    proof (cases ok)
      case False
      with l body(2) show ?thesis by simp
    next
      case True
      with l have "same_life c1 c2" by simp
      moreover from body(2) True have "rd_transition env wans c2 = Some c'" by simp
      ultimately show ?thesis using life_step rd_transition_life by blast
    qed
    from life_step [OF s1 this] show ?thesis .
  qed
qed

lemma write_socket_life: "write_socket env fd ans c = Some c' \<Longrightarrow> same_life c c' \<or> ends_life c c'"
  using close_ends [of c c env c']
  by (auto simp: write_socket_def wr_transition_def set_write_idle_ctxnew_def same_life_def run_simps Let_def split: if_splits)

lemma ctx_do_life: "ctx_do env e c = Some c' \<Longrightarrow> same_life c c' \<or> ends_life c c'"
  using read_socket_life write_socket_life
  by (cases e) (auto simp: read_handler_def write_handler_def same_life_def split: if_splits)

lemma ctx_do_closed: "ctx_closed c \<Longrightarrow> about_open e c \<Longrightarrow> ctx_do env e c = Some c"
  by (cases e) (auto simp: read_handler_def write_handler_def ctx_closed_def INVALID_SOCKET_def)

lemma ctx_init_opens:
  assumes "ctx_init env garbage s c = Some (ok, c')" "0 \<le> s"
  shows "ctx_open c'"
proof -
  obtain d where d: "ctx_init env garbage s c = set_read_ctxnew env d" "m_sfd d = s" "ctxIsInUse d"
    by (rule that [unfolded ctx_init_def Let_def, OF refl]) (simp_all add: transport_init_def new_CFrameTransport_def)
  with assms have "same_life d c'" using set_ctx_flags_life [of env _ False d] by (metis set_read_ctxnew_def)
  with d(2,3) assms(2) show ?thesis by (simp add: ctx_open_def same_life_def INVALID_SOCKET_def)
qed

subsection \<open>The contexts of a thread\<close>

definition io_inv :: "io_thread \<Rightarrow> bool" where
  "io_inv t \<longleftrightarrow> distinct (idleCtxs t) \<and> set (idleCtxs t) \<subseteq> {..<length (heap t)} \<and> set (idleCtxs t) \<inter> set (deleted t) = {}
     \<and> set (deleted t) \<subseteq> {..<length (heap t)}
     \<and> (\<forall>i < length (heap t). if i \<in> set (idleCtxs t) then ctx_closed (heap t ! i) else i \<in> set (deleted t) \<or> ctx_open (heap t ! i))
     \<and> (\<forall>s. Some s \<in> set (connQueue t) \<longrightarrow> 0 \<le> s)"

lemma pop_items_sub: "pop_items x q = (y, q') \<Longrightarrow> set q' \<subseteq> set q \<and> (y = x \<or> y \<in> set q)"
  by (induction x q rule: pop_items.induct) (auto split: if_splits)

lemma get_clientctx_inv:
  assumes "io_inv t" "get_clientctx t = (i, t')"
  shows "i < length (heap t') \<and> i \<notin> set (idleCtxs t') \<and> \<not> ctx_open (heap t' ! i) \<and> deleted t' = deleted t \<and> connQueue t' = connQueue t
    \<and> distinct (idleCtxs t') \<and> set (idleCtxs t') \<subseteq> set (idleCtxs t) \<and> i \<notin> set (deleted t)
    \<and> (\<forall>j < length (heap t'). j \<noteq> i \<longrightarrow> j < length (heap t) \<and> heap t' ! j = heap t ! j \<and> (j \<in> set (idleCtxs t') \<longleftrightarrow> j \<in> set (idleCtxs t)))
    \<and> length (heap t) \<le> length (heap t')"
proof (cases "idleCtxs t")
  case Nil
  then have "i = length (heap t)" "t' = t\<lparr>idleCtxs := [], heap := heap t @ [new_ClientCtx]\<rparr>"
    using assms(2) by (auto simp: get_clientctx_def)
  with assms(1) Nil show ?thesis by (auto simp: io_inv_def nth_append ctx_open_def new_ClientCtx_def)
next
  case (Cons k q)
  with assms(1) have k: "k < length (heap t)" "ctx_closed (heap t ! k)" "k \<notin> set (deleted t)" "k \<notin> set q"
    by (auto simp: io_inv_def)
  then have "i = k" "t' = t\<lparr>idleCtxs := q\<rparr>"
    using assms(2) Cons by (auto simp: get_clientctx_def ctx_closed_def)
  with k Cons assms(1) show ?thesis by (auto simp: io_inv_def ctx_closed_def ctx_open_def)
qed

lemma create_connection_inv:
  assumes "io_inv t" "0 \<le> s" "create_connection env g s t = Some (ok, t')"
  shows "io_inv t'"
proof -
  obtain i u where u: "get_clientctx t = (i, u)" by fastforce
  obtain r c where c: "ctx_init env g s (heap u ! i) = Some (r, c)"
    using assms(3) u by (auto simp: create_connection_def bind_Some_iff)
  note g = get_clientctx_inv [OF assms(1) u]
  have t': "t' = (if r then u\<lparr>heap := (heap u)[i := c]\<rparr> else u\<lparr>heap := (heap u)[i := c], deleted := deleted u @ [i]\<rparr>)"
    using assms(3) u c by (auto simp: create_connection_def)
  have "ctx_open c" by (rule ctx_init_opens [OF c assms(2)])
  moreover have "set (idleCtxs u) \<inter> set (deleted u) = {}" "set (idleCtxs u) \<subseteq> {..<length (heap u)}" "set (deleted u) \<subseteq> {..<length (heap u)}"
    using g assms(1) by (auto simp: io_inv_def)
  moreover have "if j \<in> set (idleCtxs u) then ctx_closed (heap u ! j) else j \<in> set (deleted u) \<or> ctx_open (heap u ! j)"
    if "j < length (heap u)" "j \<noteq> i" for j
    using g that assms(1) by (simp add: io_inv_def)
  ultimately show ?thesis
    using g assms(1) unfolding t' by (cases r) (auto simp: io_inv_def nth_list_update)
qed

lemma fold_deletePush [simp]:
  "heap (fold (\<lambda>sid. deletePushConnection sid i) ids t) = heap t"
  "idleCtxs (fold (\<lambda>sid. deletePushConnection sid i) ids t) = idleCtxs t"
  "deleted (fold (\<lambda>sid. deletePushConnection sid i) ids t) = deleted t"
  "connQueue (fold (\<lambda>sid. deletePushConnection sid i) ids t) = connQueue t"
  by (induction ids arbitrary: t) (simp_all add: deletePushConnection_def)

lemma ctx_event_inv:
  assumes inv: "io_inv t" and i: "i < length (heap t)" "i \<notin> set (deleted t)" and e: "about_open e (heap t ! i)"
    and step: "ctx_do env e (heap t ! i) = Some c"
  shows "io_inv (ctx_signals i (heap t ! i) c (t\<lparr>heap := (heap t)[i := c]\<rparr>))"
proof (cases "i \<in> set (idleCtxs t)")
  case True
  with inv i have "ctx_closed (heap t ! i)" by (simp add: io_inv_def)
  with ctx_do_closed [OF this e] step have "c = heap t ! i" by simp
  with inv show ?thesis by (simp add: ctx_signals_def io_inv_def)
next
  case False
  with inv i have o: "ctx_open (heap t ! i)" by (auto simp: io_inv_def)
  from ctx_do_life [OF step] show ?thesis
  proof
    assume s: "same_life (heap t ! i) c"
    with o have "ctx_open c" by (simp add: same_life_def ctx_open_def)
    with s inv False i show ?thesis by (auto simp: ctx_signals_def io_inv_def same_life_def nth_list_update)
  next
    assume s: "ends_life (heap t ! i) c"
    then have "ctx_closed c" "returns c - returns (heap t ! i) = 1" by (simp_all add: ends_life_def)
    with inv False i show ?thesis
      by (auto simp: ctx_signals_def io_inv_def return_clientctx_def nth_list_update)
  qed
qed

lemma io_step_inv:
  assumes "io_inv t" "io_may e t" "io_do e t = Some t'"
  shows "io_inv t'"
proof (cases e)
  case (IO_item s)
  with assms show ?thesis by (auto simp: set_item_def io_inv_def)
next
  case (IO_pipe ch env g)
  obtain item q where q: "pop_items None (connQueue t) = (item, q)" by fastforce
  have inv: "io_inv (t\<lparr>connQueue := q\<rparr>)" and pos: "item = Some s \<Longrightarrow> 0 \<le> s" for s
    using pop_items_sub [OF q] assms(1) by (auto simp: io_inv_def)
  have keep: "io_inv (u\<lparr>closed_sockets := x\<rparr>) = io_inv u" for u x by (simp add: io_inv_def)
  have "thread_handle_newconnection env g ch t = Some t'" using assms(3) IO_pipe by simp
  with inv assms(1) q create_connection_inv [OF inv pos] show ?thesis
    by (auto simp: thread_handle_newconnection_def get_connitem_def keep bind_Some_iff Let_def
        split: if_splits option.splits prod.splits)
next
  case (IO_ctx i env ev)
  with assms obtain c where "ctx_do env ev (heap t ! i) = Some c" "t' = ctx_signals i (heap t ! i) c (t\<lparr>heap := (heap t)[i := c]\<rparr>)"
    by (auto simp: run_simps)
  with ctx_event_inv [OF assms(1) _ _ _ this(1)] assms(2) IO_ctx show ?thesis by simp
qed

lemma io_reach_inv: "io_reach t0 t \<Longrightarrow> io_inv t0 \<Longrightarrow> io_inv t"
  by (induction rule: io_reach.induct) (auto intro: io_step_inv)

lemma pop_ctxs_hd: "\<forall>i \<in> set q. \<not> ctxIsInUse (cs ! i) \<Longrightarrow> pop_ctxs cs q = (case q of [] \<Rightarrow> (None, []) | i # q' \<Rightarrow> (Some i, q'))"
  by (cases q) simp_all

text \<open>
  C24: A context serves one client at a time. Whatever connections come, whatever their clients, the
  kernel and libevent do at each event (as long as the process lives: see event_del on memory never
  assigned), the queue of recycled contexts of an I/O thread never holds a context twice and only holds
  contexts whose connection is closed, so that the loop's check for a context in use never fires and the
  context a new connection gets is nobody else's.
\<close>

theorem contexts_serve_one_client:
  assumes "io_reach (new_CIOThread tid) t" "get_clientctx t = (i, t')"
  shows "distinct (idleCtxs t) \<and> filter (\<lambda>j. ctx_open (heap t ! j)) (idleCtxs t) = []
    \<and> pop_ctxs (heap t) (idleCtxs t) = (case idleCtxs t of [] \<Rightarrow> (None, []) | j # q \<Rightarrow> (Some j, q))
    \<and> i \<notin> set (idleCtxs t') \<and> i \<notin> set (deleted t) \<and> \<not> ctx_open (heap t' ! i)"
proof -
  have "io_inv (new_CIOThread tid)" by (simp add: io_inv_def new_CIOThread_def)
  from io_reach_inv [OF assms(1) this] have inv: "io_inv t" .
  then have c: "ctx_closed (heap t ! j)" if "j \<in> set (idleCtxs t)" for j using that by (auto simp: io_inv_def)
  then have "filter (\<lambda>j. ctx_open (heap t ! j)) (idleCtxs t) = []"
    by (auto simp: filter_empty_conv ctx_open_def ctx_closed_def)
  moreover have "pop_ctxs (heap t) (idleCtxs t) = (case idleCtxs t of [] \<Rightarrow> (None, []) | j # q \<Rightarrow> (Some j, q))"
    using c by (intro pop_ctxs_hd) (simp add: ctx_closed_def)
  ultimately show ?thesis using get_clientctx_inv [OF inv assms(2)] inv by (simp add: io_inv_def)
qed

lemma contexts_serve_one_client_witness:
  "\<exists>t i t'. io_reach (new_CIOThread 1) t \<and> length (heap t) = 1
     \<and> get_clientctx t = (i, t') \<and> \<not> ctx_open (heap t' ! i)"
proof -
  let ?env = "\<lparr>del_raw = None, add_ok = \<lambda>_. True\<rparr>"
  obtain t1 where t1: "io_do (IO_item 7) (new_CIOThread 1) = Some t1" "connQueue t1 = [Some 7]" "heap t1 = []" "idleCtxs t1 = []"
    by (simp add: set_item_def new_CIOThread_def)
  obtain c where c: "ctx_init ?env APP_INIT 7 new_ClientCtx = Some (True, c)" using fresh_ctx [of ?env APP_INIT 7] by auto
  then obtain t2 where t2: "io_do (IO_pipe CHR ''c'' ?env APP_INIT) t1 = Some t2" "length (heap t2) = 1"
    using t1 by (simp add: thread_handle_newconnection_def get_connitem_def create_connection_def get_clientctx_def)
  have "io_reach (new_CIOThread 1) t2"
    by (rule io_reach.step [OF io_reach.step [OF io_reach.init _ t1(1)] _ t2(1)]) simp_all
  moreover obtain i t3 where "get_clientctx t2 = (i, t3)" by fastforce
  ultimately show ?thesis using contexts_serve_one_client [of 1 t2 i t3] t2(2) by blast
qed

end
