(* ===== verification/Sync_Queues.thy ===== *)
theory Sync_Queues
  imports Prelude
begin

text \<open>
  muduo/base/BlockingQueue.h, BoundedBlockingQueue.h and CountDownLatch.h, CountDownLatch.cc: monitors of
  one mutex and condition variables. Every stretch of code under the mutex is one step of one thread; a
  wait on a condition ends the step. Where each thread stands is its phase: outside, about to lock the
  mutex (after the call or after it was woken), or waiting on a condition. \<open>notify\<close> wakes any one waiter
  (\<open>k\<close> chooses); a waiter may also wake for no reason. A woken thread tests its condition again.
\<close>

datatype 'a phase =
    Outside
  | Takes
  | Waits_notEmpty
  | Got 'a
  | Puts 'a
  | Waits_notFull 'a

fun waits_take :: "'a phase \<Rightarrow> bool" where
  "waits_take Waits_notEmpty = True"
| "waits_take _ = False"

fun waits_put :: "'a phase \<Rightarrow> bool" where
  "waits_put (Waits_notFull x) = True"
| "waits_put _ = False"

fun ready_take :: "'a phase \<Rightarrow> bool" where
  "ready_take Takes = True"
| "ready_take _ = False"

fun ready_put :: "'a phase \<Rightarrow> bool" where
  "ready_put (Puts x) = True"
| "ready_put _ = False"

text \<open>A waiter that wakes wants the mutex again.\<close>

fun wake :: "'a phase \<Rightarrow> 'a phase" where
  "wake Waits_notEmpty = Takes"
| "wake (Waits_notFull x) = Puts x"
| "wake p = p"

definition waiters :: "('a phase \<Rightarrow> bool) \<Rightarrow> 'a phase list \<Rightarrow> nat list" where
  "waiters W ps = filter (\<lambda>i. W (ps ! i)) [0..<length ps]"

definition notify_one :: "('a phase \<Rightarrow> bool) \<Rightarrow> nat \<Rightarrow> 'a phase list \<Rightarrow> 'a phase list" where
  "notify_one W k ps =
     (let ws = waiters W ps
      in if ws = [] then ps else (let i = ws ! (k mod length ws) in ps[i := wake (ps ! i)]))"

definition notify_all :: "('a phase \<Rightarrow> bool) \<Rightarrow> 'a phase list \<Rightarrow> 'a phase list" where
  "notify_all W ps = map (\<lambda>p. if W p then wake p else p) ps"

definition how_many :: "('a phase \<Rightarrow> bool) \<Rightarrow> 'a phase list \<Rightarrow> nat" where
  "how_many P ps = length (filter P ps)"

lemma how_many_update:
  "t < length ps \<Longrightarrow> how_many P (ps[t := p]) + (if P (ps ! t) then 1 else 0) = how_many P ps + (if P p then 1 else 0)"
proof (induction ps arbitrary: t)
  case (Cons a ps)
  then show ?case by (cases t) (auto simp: how_many_def)
qed simp

lemma notify_one_cases:
  obtains "how_many W ps = 0" "notify_one W k ps = ps"
  | i where "i < length ps" "W (ps ! i)" "notify_one W k ps = ps[i := wake (ps ! i)]"
proof (cases "waiters W ps")
  case Nil
  then have "\<forall>p \<in> set ps. \<not> W p" by (auto simp: waiters_def filter_empty_conv in_set_conv_nth)
  then have "how_many W ps = 0" by (simp add: how_many_def)
  with Nil that(1) show thesis by (simp add: notify_one_def)
next
  case (Cons w ws)
  let ?i = "waiters W ps ! (k mod length (waiters W ps))"
  have "?i \<in> set (waiters W ps)" using Cons by (intro nth_mem) simp
  then have "?i < length ps" "W (ps ! ?i)" by (auto simp: waiters_def)
  with Cons that(2) [of ?i] show thesis by (simp add: notify_one_def Let_def)
qed

lemma length_notify_one [simp]: "length (notify_one W k ps) = length ps"
  by (simp add: notify_one_def Let_def)

text \<open>Waking a taker: one waiter fewer and one ready taker more, if there was a waiter at all.\<close>

lemma notify_take:
  "how_many waits_put (notify_one waits_take k ps) = how_many waits_put ps"
  "how_many ready_put (notify_one waits_take k ps) = how_many ready_put ps"
  "how_many waits_take ps = 0 \<and> how_many waits_take (notify_one waits_take k ps) = 0 \<and> how_many ready_take (notify_one waits_take k ps) = how_many ready_take ps
   \<or> how_many waits_take ps = how_many waits_take (notify_one waits_take k ps) + 1
     \<and> how_many ready_take (notify_one waits_take k ps) = how_many ready_take ps + 1"
proof -
  have "how_many waits_put (notify_one waits_take k ps) = how_many waits_put ps
    \<and> how_many ready_put (notify_one waits_take k ps) = how_many ready_put ps
    \<and> (how_many waits_take ps = 0 \<and> how_many waits_take (notify_one waits_take k ps) = 0 \<and> how_many ready_take (notify_one waits_take k ps) = how_many ready_take ps
      \<or> how_many waits_take ps = how_many waits_take (notify_one waits_take k ps) + 1
        \<and> how_many ready_take (notify_one waits_take k ps) = how_many ready_take ps + 1)"
  proof (cases rule: notify_one_cases [of waits_take ps k])
    case (2 i)
    then have "ps ! i = Waits_notEmpty" by (cases "ps ! i") auto
    with 2(3) how_many_update [OF 2(1), of waits_put Takes] how_many_update [OF 2(1), of ready_put Takes]
      how_many_update [OF 2(1), of waits_take Takes] how_many_update [OF 2(1), of ready_take Takes]
    show ?thesis by simp
  qed simp
  then show "how_many waits_put (notify_one waits_take k ps) = how_many waits_put ps"
    "how_many ready_put (notify_one waits_take k ps) = how_many ready_put ps"
    "how_many waits_take ps = 0 \<and> how_many waits_take (notify_one waits_take k ps) = 0 \<and> how_many ready_take (notify_one waits_take k ps) = how_many ready_take ps
     \<or> how_many waits_take ps = how_many waits_take (notify_one waits_take k ps) + 1
       \<and> how_many ready_take (notify_one waits_take k ps) = how_many ready_take ps + 1" by blast+
qed

lemma notify_put:
  "how_many waits_take (notify_one waits_put k ps) = how_many waits_take ps"
  "how_many ready_take (notify_one waits_put k ps) = how_many ready_take ps"
  "how_many waits_put ps = 0 \<and> how_many waits_put (notify_one waits_put k ps) = 0 \<and> how_many ready_put (notify_one waits_put k ps) = how_many ready_put ps
   \<or> how_many waits_put ps = how_many waits_put (notify_one waits_put k ps) + 1
     \<and> how_many ready_put (notify_one waits_put k ps) = how_many ready_put ps + 1"
proof -
  have "how_many waits_take (notify_one waits_put k ps) = how_many waits_take ps
    \<and> how_many ready_take (notify_one waits_put k ps) = how_many ready_take ps
    \<and> (how_many waits_put ps = 0 \<and> how_many waits_put (notify_one waits_put k ps) = 0 \<and> how_many ready_put (notify_one waits_put k ps) = how_many ready_put ps
      \<or> how_many waits_put ps = how_many waits_put (notify_one waits_put k ps) + 1
        \<and> how_many ready_put (notify_one waits_put k ps) = how_many ready_put ps + 1)"
  proof (cases rule: notify_one_cases [of waits_put ps k])
    case (2 i)
    then obtain x where "ps ! i = Waits_notFull x" by (cases "ps ! i") auto
    with 2(3) how_many_update [OF 2(1), of waits_put "Puts x"] how_many_update [OF 2(1), of ready_put "Puts x"]
      how_many_update [OF 2(1), of waits_take "Puts x"] how_many_update [OF 2(1), of ready_take "Puts x"]
    show ?thesis by simp
  qed simp
  then show "how_many waits_take (notify_one waits_put k ps) = how_many waits_take ps"
    "how_many ready_take (notify_one waits_put k ps) = how_many ready_take ps"
    "how_many waits_put ps = 0 \<and> how_many waits_put (notify_one waits_put k ps) = 0 \<and> how_many ready_put (notify_one waits_put k ps) = how_many ready_put ps
     \<or> how_many waits_put ps = how_many waits_put (notify_one waits_put k ps) + 1
       \<and> how_many ready_put (notify_one waits_put k ps) = how_many ready_put ps + 1" by blast+
qed

lemma notify_keeps:
  "t < length ps \<Longrightarrow> \<not> W (ps ! t) \<Longrightarrow> notify_one W k ps ! t = ps ! t"
  by (rule notify_one_cases [of W ps k]) (auto simp: nth_list_update)

subsection \<open>The queues\<close>

record 'a sync_queue =
  items :: "'a list"
  phases :: "'a phase list"

definition new_queue :: "nat \<Rightarrow> 'a sync_queue" where
  "new_queue threads = \<lparr>items = [], phases = replicate threads Outside\<rparr>"

definition set_phase :: "nat \<Rightarrow> 'a phase \<Rightarrow> 'a sync_queue \<Rightarrow> 'a sync_queue" where
  "set_phase t p q = q\<lparr>phases := (phases q)[t := p]\<rparr>"

definition notify :: "('a phase \<Rightarrow> bool) \<Rightarrow> nat \<Rightarrow> 'a sync_queue \<Rightarrow> 'a sync_queue" where
  "notify W k q = q\<lparr>phases := notify_one W k (phases q)\<rparr>"

definition blocking_put :: "nat \<Rightarrow> 'a \<Rightarrow> nat \<Rightarrow> 'a sync_queue \<Rightarrow> 'a sync_queue" where
  "blocking_put t x k q =
     (let q = q\<lparr>items := items q @ [x]\<rparr>; q = notify waits_take k q in set_phase t Outside q)"

definition blocking_take :: "nat \<Rightarrow> nat \<Rightarrow> 'a sync_queue \<Rightarrow> 'a sync_queue" where
  "blocking_take t k q =
     (if items q = [] then set_phase t Waits_notEmpty q
      else (let front = hd (items q); q = q\<lparr>items := tl (items q)\<rparr> in set_phase t (Got front) q))"

definition bounded_full :: "nat \<Rightarrow> 'a sync_queue \<Rightarrow> bool" where
  "bounded_full maxSize q \<longleftrightarrow> maxSize \<le> length (items q)"

definition bounded_put :: "nat \<Rightarrow> nat \<Rightarrow> 'a \<Rightarrow> nat \<Rightarrow> 'a sync_queue \<Rightarrow> 'a sync_queue" where
  "bounded_put maxSize t x k q =
     (if bounded_full maxSize q then set_phase t (Waits_notFull x) q
      else (let q = q\<lparr>items := items q @ [x]\<rparr>; q = notify waits_take k q in set_phase t Outside q))"

definition bounded_take :: "nat \<Rightarrow> nat \<Rightarrow> 'a sync_queue \<Rightarrow> 'a sync_queue" where
  "bounded_take t k q =
     (if items q = [] then set_phase t Waits_notEmpty q
      else (let front = hd (items q); q = q\<lparr>items := tl (items q)\<rparr>; q = notify waits_put k q
            in set_phase t (Got front) q))"

text \<open>
  The events of thread \<open>t\<close>: it calls, goes on with the mutex (\<open>k\<close> chooses whom a notify wakes), leaves
  with what it took, or wakes for no reason.
\<close>

datatype 'a queue_event =
    Call_put nat 'a
  | Call_take nat
  | Goes nat nat
  | Leaves nat
  | Wakes nat

fun queue_do :: "(nat \<Rightarrow> 'a \<Rightarrow> nat \<Rightarrow> 'a sync_queue \<Rightarrow> 'a sync_queue) \<Rightarrow> (nat \<Rightarrow> nat \<Rightarrow> 'a sync_queue \<Rightarrow> 'a sync_queue)
    \<Rightarrow> 'a queue_event \<Rightarrow> 'a sync_queue \<Rightarrow> 'a sync_queue" where
  "queue_do putf takef (Call_put t x) q = (case phases q ! t of Outside \<Rightarrow> set_phase t (Puts x) q | _ \<Rightarrow> q)"
| "queue_do putf takef (Call_take t) q = (case phases q ! t of Outside \<Rightarrow> set_phase t Takes q | _ \<Rightarrow> q)"
| "queue_do putf takef (Goes t k) q = (case phases q ! t of Puts x \<Rightarrow> putf t x k q | Takes \<Rightarrow> takef t k q | _ \<Rightarrow> q)"
| "queue_do putf takef (Leaves t) q = (case phases q ! t of Got x \<Rightarrow> set_phase t Outside q | _ \<Rightarrow> q)"
| "queue_do putf takef (Wakes t) q = set_phase t (wake (phases q ! t)) q"

fun thread_of :: "'a queue_event \<Rightarrow> nat" where
  "thread_of (Call_put t x) = t" | "thread_of (Call_take t) = t" | "thread_of (Goes t k) = t"
| "thread_of (Leaves t) = t" | "thread_of (Wakes t) = t"

text \<open>
  What put and take promise: put waits only when nothing is free and otherwise appends and wakes a taker;
  take waits only when there is nothing and otherwise takes the first and, when that frees a place a putter
  may wait for, wakes a putter.
\<close>

text \<open>
  What a step of thread \<open>t\<close> ends, seen from outside: the call of put that returns, with the argument it was
  given, and the call of take that has a result, with that result.
\<close>

fun put_returns :: "'a phase \<Rightarrow> 'a phase \<Rightarrow> 'a list" where
  "put_returns (Puts x) Outside = [x]"
| "put_returns _ _ = []"

fun take_returns :: "'a phase \<Rightarrow> 'a phase \<Rightarrow> 'a list" where
  "take_returns Takes (Got x) = [x]"
| "take_returns _ _ = []"

definition pushed_by :: "nat \<Rightarrow> 'a sync_queue \<Rightarrow> 'a sync_queue \<Rightarrow> 'a list" where
  "pushed_by t q q' = put_returns (phases q ! t) (phases q' ! t)"

definition taken_by :: "nat \<Rightarrow> 'a sync_queue \<Rightarrow> 'a sync_queue \<Rightarrow> 'a list" where
  "taken_by t q q' = take_returns (phases q ! t) (phases q' ! t)"

lemmas returns_defs = pushed_by_def taken_by_def

lemma returns_same [simp]: "put_returns p p = []" "take_returns p p = []"
  by (cases p; simp)+

inductive queue_run :: "(nat \<Rightarrow> 'a \<Rightarrow> nat \<Rightarrow> 'a sync_queue \<Rightarrow> 'a sync_queue) \<Rightarrow> (nat \<Rightarrow> nat \<Rightarrow> 'a sync_queue \<Rightarrow> 'a sync_queue)
    \<Rightarrow> nat \<Rightarrow> 'a list \<Rightarrow> 'a list \<Rightarrow> 'a sync_queue \<Rightarrow> bool" for putf takef threads where
  start: "queue_run putf takef threads [] [] (new_queue threads)"
| event: "queue_run putf takef threads pushed taken q \<Longrightarrow> thread_of e < threads \<Longrightarrow> q' = queue_do putf takef e q \<Longrightarrow>
    queue_run putf takef threads (pushed @ pushed_by (thread_of e) q q') (taken @ taken_by (thread_of e) q q') q'"

lemma notify_items [simp]: "items (notify W k q) = items q" "length (phases (notify W k q)) = length (phases q)"
  by (simp_all add: notify_def)

lemma set_phase_simps [simp]: "items (set_phase t p q) = items q" "length (phases (set_phase t p q)) = length (phases q)"
  "t < length (phases q) \<Longrightarrow> phases (set_phase t p q) ! t = p"
  by (simp_all add: set_phase_def)

locale monitor_queue =
  fixes putf :: "nat \<Rightarrow> 'a \<Rightarrow> nat \<Rightarrow> 'a sync_queue \<Rightarrow> 'a sync_queue"
    and takef :: "nat \<Rightarrow> nat \<Rightarrow> 'a sync_queue \<Rightarrow> 'a sync_queue"
    and free :: "nat \<Rightarrow> nat"
  assumes put_law: "(free (length (items q)) = 0 \<and> putf t x k q = set_phase t (Waits_notFull x) q)
      \<or> putf t x k q = set_phase t Outside (notify waits_take k (q\<lparr>items := items q @ [x]\<rparr>))"
    and free_put: "free (Suc n) \<le> free n - 1"
    and take_law: "items q \<noteq> [] \<Longrightarrow>
        takef t k q = set_phase t (Got (hd (items q))) (notify waits_put k (q\<lparr>items := tl (items q)\<rparr>))
        \<and> free (length (items q) - 1) \<le> free (length (items q)) + 1
      \<or> takef t k q = set_phase t (Got (hd (items q))) (q\<lparr>items := tl (items q)\<rparr>)
        \<and> free (length (items q) - 1) = free (length (items q))"
    and take_empty: "items q = [] \<Longrightarrow> takef t k q = set_phase t Waits_notEmpty q"
begin

text \<open>No wake-up is lost: whoever waits is matched by somebody who was woken and will look again.\<close>

definition signalled :: "'a sync_queue \<Rightarrow> bool" where
  "signalled q \<longleftrightarrow> (how_many waits_take (phases q) = 0 \<or> length (items q) \<le> how_many ready_take (phases q))
     \<and> (how_many waits_put (phases q) = 0 \<or> free (length (items q)) \<le> how_many ready_put (phases q))"

lemma put_signalled:
  assumes inv: "signalled q" and t: "t < length (phases q)" "phases q ! t = Puts x"
  shows "signalled (putf t x k q)"
  using put_law [of q t x k]
proof
  assume w: "free (length (items q)) = 0 \<and> putf t x k q = set_phase t (Waits_notFull x) q"
  with inv t how_many_update [OF t(1), of waits_take "Waits_notFull x"] how_many_update [OF t(1), of ready_take "Waits_notFull x"]
  show ?thesis by (simp add: signalled_def set_phase_def)
next
  assume p: "putf t x k q = set_phase t Outside (notify waits_take k (q\<lparr>items := items q @ [x]\<rparr>))"
  let ?ps = "notify_one waits_take k (phases q)"
  have t': "t < length ?ps" "?ps ! t = Puts x" using t notify_keeps [OF t(1), of waits_take k] by simp_all
  show ?thesis
    using inv free_put [of "length (items q)"] notify_take [where k = k and ps = "phases q"] t'
      how_many_update [OF t'(1), of waits_take Outside] how_many_update [OF t'(1), of ready_take Outside]
      how_many_update [OF t'(1), of waits_put Outside] how_many_update [OF t'(1), of ready_put Outside]
    by (simp add: p signalled_def set_phase_def notify_def) arith
qed

lemma take_signalled:
  assumes inv: "signalled q" and t: "t < length (phases q)" "phases q ! t = Takes"
  shows "signalled (takef t k q)"
proof (cases "items q = []")
  case True
  with inv t how_many_update [OF t(1), of waits_put Waits_notEmpty] how_many_update [OF t(1), of ready_put Waits_notEmpty]
  show ?thesis by (simp add: take_empty signalled_def set_phase_def)
next
  case False
  let ?g = "Got (hd (items q))"
  from take_law [OF False, of t k] show ?thesis
  proof
    assume p: "takef t k q = set_phase t ?g (notify waits_put k (q\<lparr>items := tl (items q)\<rparr>))
        \<and> free (length (items q) - 1) \<le> free (length (items q)) + 1"
    let ?ps = "notify_one waits_put k (phases q)"
    have t': "t < length ?ps" "?ps ! t = Takes" using t notify_keeps [OF t(1), of waits_put k] by simp_all
    show ?thesis
      using p inv notify_put [where k = k and ps = "phases q"] t'
        how_many_update [OF t'(1), of waits_take ?g] how_many_update [OF t'(1), of ready_take ?g]
        how_many_update [OF t'(1), of waits_put ?g] how_many_update [OF t'(1), of ready_put ?g]
      by (simp add: signalled_def set_phase_def notify_def) arith
  next
    assume p: "takef t k q = set_phase t ?g (q\<lparr>items := tl (items q)\<rparr>) \<and> free (length (items q) - 1) = free (length (items q))"
    show ?thesis
      using p inv t how_many_update [OF t(1), of waits_take ?g] how_many_update [OF t(1), of ready_take ?g]
        how_many_update [OF t(1), of waits_put ?g] how_many_update [OF t(1), of ready_put ?g]
      by (simp add: signalled_def set_phase_def) arith
  qed
qed

text \<open>Any other change of phase that makes no new waiter and takes no ready thread away.\<close>

lemma phase_signalled:
  assumes "signalled q" "t < length (phases q)" "waits_take p \<longrightarrow> waits_take (phases q ! t)" "waits_put p \<longrightarrow> waits_put (phases q ! t)"
    "ready_take (phases q ! t) \<longrightarrow> ready_take p" "ready_put (phases q ! t) \<longrightarrow> ready_put p"
  shows "signalled (set_phase t p q)"
  using assms how_many_update [OF assms(2), of waits_take p] how_many_update [OF assms(2), of ready_take p]
    how_many_update [OF assms(2), of waits_put p] how_many_update [OF assms(2), of ready_put p]
  by (simp add: signalled_def set_phase_def split: if_splits) arith+

lemma do_signalled:
  assumes "signalled q" "thread_of e < length (phases q)"
  shows "signalled (queue_do putf takef e q)"
proof (cases e)
  case (Call_put t x)
  with assms phase_signalled [of q t "Puts x"] show ?thesis by (cases "phases q ! t") simp_all
next
  case (Call_take t)
  with assms phase_signalled [of q t Takes] show ?thesis by (cases "phases q ! t") simp_all
next
  case (Goes t k)
  with assms put_signalled [of q t] take_signalled [of q t] show ?thesis by (cases "phases q ! t") simp_all
next
  case (Leaves t)
  with assms phase_signalled [of q t Outside] show ?thesis by (cases "phases q ! t") simp_all
next
  case (Wakes t)
  with assms phase_signalled [of q t "wake (phases q ! t)"] show ?thesis by (cases "phases q ! t") simp_all
qed

lemma do_fifo:
  assumes "thread_of e < length (phases q)"
  shows "length (phases (queue_do putf takef e q)) = length (phases q)
   \<and> items q @ pushed_by (thread_of e) q (queue_do putf takef e q) = taken_by (thread_of e) q (queue_do putf takef e q) @ items (queue_do putf takef e q)"
proof (cases e)
  case (Goes t k)
  then have t: "t < length (phases q)" using assms by simp
  show ?thesis
  proof (cases "phases q ! t")
    case (Puts x)
    with put_law [of q t x k] Goes t show ?thesis by (auto simp: returns_defs)
  next
    case Takes
    with take_law [of q t k] take_empty [of q t k] Goes t show ?thesis
      by (cases "items q") (auto simp: returns_defs)
  qed (use Goes in \<open>simp_all add: returns_defs\<close>)
next
  case (Wakes t)
  with assms show ?thesis by (cases "phases q ! t") (simp_all add: returns_defs)
qed (use assms in \<open>auto simp: returns_defs split: phase.split\<close>)

lemma run_ok:
  "queue_run putf takef threads pushed taken q \<Longrightarrow> length (phases q) = threads \<and> signalled q \<and> pushed = taken @ items q"
proof (induction rule: queue_run.induct)
  case start
  then show ?case by (simp add: new_queue_def signalled_def how_many_def)
next
  case (event pushed taken q e q')
  with do_signalled [of q e] do_fifo [of e q] show ?case by auto
qed

lemma nobody_forgotten:
  assumes "queue_run putf takef threads pushed taken q"
  shows "how_many waits_take (phases q) = 0 \<or> items q = [] \<or> 0 < how_many ready_take (phases q)"
    "how_many waits_put (phases q) = 0 \<or> free (length (items q)) = 0 \<or> 0 < how_many ready_put (phases q)"
  using run_ok [OF assms] by (auto simp: signalled_def)

end

interpretation blocking: monitor_queue blocking_put blocking_take "\<lambda>_. 0"
  by unfold_locales (auto simp: blocking_put_def blocking_take_def Let_def)

interpretation bounded: monitor_queue "bounded_put maxSize" bounded_take "\<lambda>n. maxSize - n" for maxSize
  by unfold_locales (auto simp: bounded_put_def bounded_take_def bounded_full_def Let_def)

lemma bounded_size:
  "queue_run (bounded_put maxSize) bounded_take threads pushed taken q \<Longrightarrow> length (items q) \<le> maxSize"
proof (induction rule: queue_run.induct)
  case (event pushed taken q e q')
  then show ?case
    by (cases e) (auto simp: bounded_put_def bounded_take_def bounded_full_def Let_def split: phase.split)
qed (simp add: new_queue_def)

lemma blocking_no_put_waiter:
  "queue_run blocking_put blocking_take threads pushed taken q \<Longrightarrow> how_many waits_put (phases q) = 0"
proof (induction rule: queue_run.induct)
  case start
  then show ?case by (simp add: new_queue_def how_many_def)
next
  case (event pushed taken q e q')
  have w: "\<not> waits_put (wake x)" for x :: "'a phase" by (cases x) auto
  have set: "how_many waits_put (phases (set_phase t p u)) = 0"
    if "how_many waits_put (phases u) = 0" "\<not> waits_put p" for t p and u :: "'a sync_queue"
  proof (cases "t < length (phases u)")
    case True
    with that how_many_update [OF True, of waits_put p] show ?thesis by (simp add: set_phase_def)
  qed (use that in \<open>simp add: set_phase_def list_update_beyond\<close>)
  have n: "how_many waits_put (phases (notify waits_take k u)) = how_many waits_put (phases u)" for k and u :: "'a sync_queue"
    using notify_take(1) [of k "phases u"] by (simp add: notify_def)
  show ?case
  proof (cases e)
    case (Goes t k)
    with event show ?thesis
      by (auto simp: blocking_put_def blocking_take_def Let_def n split: phase.split intro!: set)
  qed (use event w in \<open>auto split: phase.split intro!: set\<close>)
qed

text \<open>
  C27: The bounded queue is a first-in-first-out queue of at most maxSize elements that forgets nobody: for
  any number of threads and any interleaving, with any choice of whom a signal wakes and with wake-ups for
  no reason, the arguments of the calls of put that have returned are, in the order they returned, the results
  of the calls of take, in the order they were had, and after these the elements of the queue; a thread
  waits to take only while the queue is empty or another thread is about to take, and waits to put only
  while the queue is full or another is about to put. The unbounded queue does the same and never makes a
  putter wait.
\<close>

theorem queues_are_fifo_and_forget_nobody:
  assumes "queue_run (bounded_put maxSize) bounded_take threads pushed taken q"
    and "queue_run blocking_put blocking_take threads' pushed' taken' u"
  shows "pushed = taken @ items q \<and> length (items q) \<le> maxSize
    \<and> (how_many waits_take (phases q) = 0 \<or> items q = [] \<or> 0 < how_many ready_take (phases q))
    \<and> (how_many waits_put (phases q) = 0 \<or> bounded_full maxSize q \<or> 0 < how_many ready_put (phases q))
    \<and> pushed' = taken' @ items u
    \<and> (how_many waits_take (phases u) = 0 \<or> items u = [] \<or> 0 < how_many ready_take (phases u))
    \<and> how_many waits_put (phases u) = 0"
  using bounded.run_ok [OF assms(1)] bounded.nobody_forgotten [OF assms(1)] bounded_size [OF assms(1)]
    blocking.run_ok [OF assms(2)] blocking.nobody_forgotten [OF assms(2)] blocking_no_put_waiter [OF assms(2)]
  by (auto simp: bounded_full_def)

fun queue_events :: "(nat \<Rightarrow> 'a \<Rightarrow> nat \<Rightarrow> 'a sync_queue \<Rightarrow> 'a sync_queue) \<Rightarrow> (nat \<Rightarrow> nat \<Rightarrow> 'a sync_queue \<Rightarrow> 'a sync_queue)
    \<Rightarrow> 'a queue_event list \<Rightarrow> 'a sync_queue \<Rightarrow> 'a sync_queue" where
  "queue_events putf takef [] q = q"
| "queue_events putf takef (e # es) q = queue_events putf takef es (queue_do putf takef e q)"

lemma queue_events_run:
  "queue_run putf takef threads pushed taken q \<Longrightarrow> \<forall>e \<in> set es. thread_of e < threads \<Longrightarrow>
   \<exists>pushed' taken'. queue_run putf takef threads pushed' taken' (queue_events putf takef es q)"
proof (induction es arbitrary: q pushed taken)
  case (Cons e es)
  from queue_run.event [OF Cons.prems(1) _ refl, of e] Cons.prems(2) Cons.IH show ?case by fastforce
qed auto

lemma queues_are_fifo_and_forget_nobody_witness:
  "\<exists>pushed taken q. queue_run (bounded_put 1) bounded_take 3 pushed taken q \<and> items q = [7 :: nat]
     \<and> phases q = [Outside, Waits_notFull 8, Outside] \<and> pushed = taken @ [7]"
proof -
  let ?es = "[Call_put 0 (7 :: nat), Goes 0 0, Call_put 1 8, Goes 1 0]"
  have q: "queue_events (bounded_put 1) bounded_take ?es (new_queue 3)
      = \<lparr>items = [7 :: nat], phases = [Outside, Waits_notFull 8, Outside]\<rparr>" (is "_ = ?q") by code_simp
  have "\<exists>pushed taken. queue_run (bounded_put 1) bounded_take 3 pushed taken (queue_events (bounded_put 1) bounded_take ?es (new_queue 3))"
    by (rule queue_events_run [OF queue_run.start]) simp
  then obtain pushed taken where r: "queue_run (bounded_put 1) bounded_take 3 pushed taken ?q" unfolding q by blast
  have "pushed = taken @ items ?q"
    using queues_are_fifo_and_forget_nobody [OF r, of 0 "[]" "[] :: nat list" "new_queue 0"] by (simp add: queue_run.start)
  with r show ?thesis by (intro exI [of _ pushed] exI [of _ taken] exI [of _ ?q]) simp
qed

subsection \<open>CountDownLatch\<close>

record latch =
  latch_count :: int
  in_wait :: "nat list"
  passed :: "nat list"

definition new_CountDownLatch :: "int \<Rightarrow> latch" where
  "new_CountDownLatch count = \<lparr>latch_count = count, in_wait = [], passed = []\<rparr>"

text \<open>A thread enters \<open>wait\<close>, or looks at the count again after it was woken.\<close>

definition latch_wait :: "nat \<Rightarrow> latch \<Rightarrow> latch" where
  "latch_wait t l =
     (if 0 < latch_count l then l\<lparr>in_wait := in_wait l @ [t]\<rparr> else l\<lparr>passed := passed l @ [t]\<rparr>)"

definition latch_countDown :: "latch \<Rightarrow> latch" where
  "latch_countDown l =
     (let l = l\<lparr>latch_count := latch_count l - 1\<rparr>
      in if latch_count l = 0 then fold latch_wait (in_wait l) (l\<lparr>in_wait := []\<rparr>) else l)"

definition latch_getCount :: "latch \<Rightarrow> int" where
  "latch_getCount l = latch_count l"

lemma fold_latch_wait:
  "latch_count l \<le> 0 \<Longrightarrow> fold latch_wait ts l = l\<lparr>passed := passed l @ ts\<rparr>"
  by (induction ts arbitrary: l) (simp_all add: latch_wait_def)

text \<open>Nobody passes before the count is down, and then everybody does, in the order they came.\<close>

lemma latch_opens:
  assumes "0 < n" "in_wait l = ts" "latch_count l = int n" "passed l = []"
  shows "(latch_countDown ^^ n) l = l\<lparr>latch_count := 0, in_wait := [], passed := ts\<rparr>"
    and "m < n \<Longrightarrow> (latch_countDown ^^ m) l = l\<lparr>latch_count := int (n - m)\<rparr>"
proof -
  have part: "(latch_countDown ^^ m) l = l\<lparr>latch_count := int (n - m)\<rparr>" if "m < n" for m
    using that
  proof (induction m)
    case (Suc m)
    then show ?case by (auto simp: latch_countDown_def Let_def)
  qed (simp add: assms(3) flip: latch.surjective)
  then show "m < n \<Longrightarrow> (latch_countDown ^^ m) l = l\<lparr>latch_count := int (n - m)\<rparr>" .
  obtain k where n: "n = Suc k" using assms(1) by (cases n) auto
  have "(latch_countDown ^^ n) l = latch_countDown (l\<lparr>latch_count := 1\<rparr>)" using part [of k] n by simp
  then show "(latch_countDown ^^ n) l = l\<lparr>latch_count := 0, in_wait := [], passed := ts\<rparr>"
    using assms by (simp add: latch_countDown_def fold_latch_wait)
qed

end
