(* ===== verification/Thread_Pool.thy ===== *)
theory Thread_Pool
  imports Sync_Queues "HOL-Library.Multiset"
begin

text \<open>
  muduo/base/ThreadPool.h and ThreadPool.cc: a pool of worker threads that take tasks from a queue, which
  may be bounded. The threads are numbered: 0 to nthreads - 1 are the workers, the others call \<open>run\<close>. A
  worker that is \<open>Outside\<close> the monitor is at the test of its loop; \<open>Got x\<close> is a worker that runs task x.
  The condition variables are those of theory Sync_Queues. Tasks do not throw.
\<close>

record 'a thread_pool =
  tasks :: "'a sync_queue"
  maxQueueSize :: nat
  pool_running :: bool
  nthreads :: nat
  exited :: "nat list"
  ran_tasks :: "'a list"

definition new_ThreadPool :: "nat \<Rightarrow> 'a thread_pool" where
  "new_ThreadPool threads = \<lparr>tasks = new_queue threads, maxQueueSize = 0, pool_running = False, nthreads = 0,
     exited = [], ran_tasks = []\<rparr>"

definition setMaxQueueSize :: "nat \<Rightarrow> 'a thread_pool \<Rightarrow> 'a thread_pool" where
  "setMaxQueueSize maxSize p = p\<lparr>maxQueueSize := maxSize\<rparr>"

definition pool_threads_start :: "nat \<Rightarrow> 'a thread_pool \<Rightarrow> 'a thread_pool option" where
  "pool_threads_start numThreads p = do {
     require (nthreads p = 0);
     Some (p\<lparr>pool_running := True, nthreads := numThreads\<rparr>) }"

definition isFull :: "nat \<Rightarrow> 'a sync_queue \<Rightarrow> bool" where
  "isFull maxSize q \<longleftrightarrow> 0 < maxSize \<and> maxSize \<le> length (items q)"

text \<open>\<open>run\<close> with the mutex.\<close>

definition pool_put :: "nat \<Rightarrow> nat \<Rightarrow> 'a \<Rightarrow> nat \<Rightarrow> 'a sync_queue \<Rightarrow> 'a sync_queue" where
  "pool_put maxSize t task k q =
     (if isFull maxSize q then set_phase t (Waits_notFull task) q
      else (let q = q\<lparr>items := items q @ [task]\<rparr>; q = notify waits_take k q in set_phase t Outside q))"

text \<open>\<open>take\<close>; when the pool stops it may return an empty task, which the worker skips.\<close>

definition pool_take :: "nat \<Rightarrow> bool \<Rightarrow> nat \<Rightarrow> nat \<Rightarrow> 'a sync_queue \<Rightarrow> 'a sync_queue" where
  "pool_take maxSize running t k q =
     (if items q = [] \<and> running then set_phase t Waits_notEmpty q
      else if items q \<noteq> [] then
        (let task = hd (items q); q = q\<lparr>items := tl (items q)\<rparr>;
             q = (if 0 < maxSize then notify waits_put k q else q)
         in set_phase t (Got task) q)
      else set_phase t Outside q)"

definition pool_stop :: "'a thread_pool \<Rightarrow> 'a thread_pool" where
  "pool_stop p = (let p = p\<lparr>pool_running := False\<rparr>
     in p\<lparr>tasks := (tasks p)\<lparr>phases := notify_all waits_take (phases (tasks p))\<rparr>\<rparr>)"

text \<open>\<open>stop\<close> joins the workers: it returns when all have left their loops.\<close>

definition all_joined :: "'a thread_pool \<Rightarrow> bool" where
  "all_joined p \<longleftrightarrow> (\<forall>t < nthreads p. t \<in> set (exited p))"

datatype 'a pool_event =
    Run nat 'a
  | Step nat nat
  | Spurious nat
  | Stop

definition upd_tasks :: "('a sync_queue \<Rightarrow> 'a sync_queue) \<Rightarrow> 'a thread_pool \<Rightarrow> 'a thread_pool" where
  "upd_tasks f p = p\<lparr>tasks := f (tasks p)\<rparr>"

fun pool_do :: "'a pool_event \<Rightarrow> 'a thread_pool \<Rightarrow> 'a thread_pool" where
  "pool_do (Run t task) p =
     (if nthreads p = 0 then p\<lparr>ran_tasks := ran_tasks p @ [task]\<rparr>
      else if nthreads p \<le> t \<and> phases (tasks p) ! t = Outside then upd_tasks (set_phase t (Puts task)) p
      else p)"
| "pool_do (Step t k) p =
     (case phases (tasks p) ! t of
        Outside \<Rightarrow>
          if t < nthreads p \<and> t \<notin> set (exited p)
          then (if pool_running p then upd_tasks (set_phase t Takes) p else p\<lparr>exited := exited p @ [t]\<rparr>)
          else p
      | Takes \<Rightarrow> upd_tasks (pool_take (maxQueueSize p) (pool_running p) t k) p
      | Puts task \<Rightarrow> upd_tasks (pool_put (maxQueueSize p) t task k) p
      | Got task \<Rightarrow> upd_tasks (set_phase t Outside) (p\<lparr>ran_tasks := ran_tasks p @ [task]\<rparr>)
      | _ \<Rightarrow> p)"
| "pool_do (Spurious t) p = upd_tasks (\<lambda>q. set_phase t (wake (phases q ! t)) q) p"
| "pool_do Stop p = pool_stop p"

fun pool_thread :: "'a pool_event \<Rightarrow> nat" where
  "pool_thread (Run t x) = t" | "pool_thread (Step t k) = t" | "pool_thread (Spurious t) = t" | "pool_thread Stop = 0"

lemma upd_tasks_simps [simp]:
  "tasks (upd_tasks f p) = f (tasks p)" "maxQueueSize (upd_tasks f p) = maxQueueSize p" "pool_running (upd_tasks f p) = pool_running p"
  "nthreads (upd_tasks f p) = nthreads p" "exited (upd_tasks f p) = exited p" "ran_tasks (upd_tasks f p) = ran_tasks p"
  by (simp_all add: upd_tasks_def)

subsection \<open>While the pool runs\<close>

text \<open>The pool's queue keeps the contract of a monitor queue, bounded or not.\<close>

interpretation pool: monitor_queue "pool_put maxSize" "pool_take maxSize True" "\<lambda>n. if maxSize = 0 then 0 else maxSize - n" for maxSize
  by unfold_locales (auto simp: pool_put_def pool_take_def isFull_def Let_def)

text \<open>Each event of the pool is an event of its queue.\<close>

fun as_queue_event :: "'a thread_pool \<Rightarrow> 'a pool_event \<Rightarrow> 'a queue_event option" where
  "as_queue_event p (Run t task) = (if nthreads p \<le> t \<and> nthreads p \<noteq> 0 then Some (Call_put t task) else None)"
| "as_queue_event p (Step t k) = (case phases (tasks p) ! t of
      Outside \<Rightarrow> if t < nthreads p \<and> t \<notin> set (exited p) then Some (Call_take t) else None
    | Got x \<Rightarrow> Some (Leaves t) | _ \<Rightarrow> Some (Goes t k))"
| "as_queue_event p (Spurious t) = Some (Wakes t)"
| "as_queue_event p Stop = None"

lemma pool_is_monitor:
  assumes "pool_running p" "e \<noteq> Stop"
  shows "tasks (pool_do e p) = (case as_queue_event p e of None \<Rightarrow> tasks p
      | Some qe \<Rightarrow> queue_do (pool_put (maxQueueSize p)) (pool_take (maxQueueSize p) True) qe (tasks p))"
  using assms by (cases e) (auto split: phase.split)

lemma pool_do_keeps [simp]:
  "nthreads (pool_do e p) = nthreads p" "maxQueueSize (pool_do e p) = maxQueueSize p"
  "e \<noteq> Stop \<Longrightarrow> pool_running (pool_do e p) = pool_running p"
  by (cases e; auto simp: pool_stop_def split: phase.split)+

text \<open>The tasks the workers are running.\<close>

fun in_hand :: "'a phase list \<Rightarrow> 'a list" where
  "in_hand [] = []"
| "in_hand (Got x # ps) = x # in_hand ps"
| "in_hand (p # ps) = in_hand ps"

lemma in_hand_update:
  "t < length ps \<Longrightarrow> mset (in_hand (ps[t := p])) + mset (in_hand [ps ! t]) = mset (in_hand ps) + mset (in_hand [p])"
proof (induction ps arbitrary: t)
  case (Cons a ps)
  show ?case
  proof (cases t)
    case 0
    then show ?thesis by (cases a; cases p) auto
  next
    case (Suc u)
    with Cons have "mset (in_hand (ps[u := p])) + mset (in_hand [ps ! u]) = mset (in_hand ps) + mset (in_hand [p])" by simp
    with Suc show ?thesis by (cases a) auto
  qed
qed simp

lemma in_hand_same: "t < length ps \<Longrightarrow> in_hand [ps ! t] = [] \<Longrightarrow> in_hand [p] = [] \<Longrightarrow> mset (in_hand (ps[t := p])) = mset (in_hand ps)"
  using in_hand_update [of t ps p] by simp

lemma take_returns_none: "in_hand [p] = [] \<Longrightarrow> take_returns p' p = []"
  by (cases p'; cases p; simp)

lemma in_hand_notify:
  assumes "\<And>x. \<not> W (Got x)" "\<And>p. W p \<Longrightarrow> in_hand [wake p] = []"
  shows "mset (in_hand (notify_one W k ps)) = mset (in_hand ps)"
proof (cases rule: notify_one_cases [of W ps k])
  case (2 i)
  then have "in_hand [ps ! i] = []" using assms(1) by (cases "ps ! i") auto
  with 2 in_hand_same [OF 2(1)] assms(2) show ?thesis by simp
qed simp

lemma in_hand_notify_take [simp]: "mset (in_hand (notify_one waits_take k ps)) = mset (in_hand ps)"
proof (rule in_hand_notify)
  fix p :: "'a phase" assume "waits_take p" then show "in_hand [wake p] = []" by (cases p) auto
qed simp

lemma in_hand_notify_put [simp]: "mset (in_hand (notify_one waits_put k ps)) = mset (in_hand ps)"
proof (rule in_hand_notify)
  fix p :: "'a phase" assume "waits_put p" then show "in_hand [wake p] = []" by (cases p) auto
qed simp

lemma pool_put_hand:
  assumes "t < length (phases q)" "phases q ! t = Puts x"
  shows "mset (in_hand (phases (pool_put m t x k q))) = mset (in_hand (phases q)) \<and> taken_by t q (pool_put m t x k q) = []"
proof -
  have "notify_one waits_take k (phases q) ! t = Puts x" using assms notify_keeps [of t "phases q" waits_take k] by simp
  with assms in_hand_same [of t "phases q" "Waits_notFull x"] in_hand_same [of t "notify_one waits_take k (phases q)" Outside]
  show ?thesis by (simp add: pool_put_def set_phase_def notify_def taken_by_def Let_def)
qed

lemma pool_take_hand:
  assumes "t < length (phases q)" "phases q ! t = Takes"
  shows "mset (in_hand (phases (pool_take m True t k q))) = mset (in_hand (phases q)) + mset (taken_by t q (pool_take m True t k q))"
proof (cases "items q = []")
  case True
  with assms in_hand_same [of t "phases q" Waits_notEmpty] show ?thesis by (simp add: pool_take_def set_phase_def taken_by_def)
next
  case False
  let ?g = "Got (hd (items q))"
  have "notify_one waits_put k (phases q) ! t = Takes" using assms notify_keeps [of t "phases q" waits_put k] by simp
  with False assms in_hand_update [of t "phases q" ?g] in_hand_update [of t "notify_one waits_put k (phases q)" ?g]
  show ?thesis by (simp add: pool_take_def set_phase_def notify_def taken_by_def Let_def)
qed

text \<open>A running pool, with the tasks put into and taken out of its queue.\<close>

inductive pool_run :: "nat \<Rightarrow> nat \<Rightarrow> nat \<Rightarrow> 'a list \<Rightarrow> 'a list \<Rightarrow> 'a thread_pool \<Rightarrow> bool" for maxSize n threads where
  start: "pool_threads_start n (setMaxQueueSize maxSize (new_ThreadPool threads)) = Some p \<Longrightarrow> pool_run maxSize n threads [] [] p"
| event: "pool_run maxSize n threads pushed taken p \<Longrightarrow> e \<noteq> Stop \<Longrightarrow> pool_thread e < threads \<Longrightarrow> p' = pool_do e p \<Longrightarrow>
    pool_run maxSize n threads (pushed @ pushed_by (pool_thread e) (tasks p) (tasks p')) (taken @ taken_by (pool_thread e) (tasks p) (tasks p')) p'"

lemma as_queue_thread: "as_queue_event p e = Some qe \<Longrightarrow> thread_of qe = pool_thread e"
  by (cases e) (auto split: if_splits phase.splits)

lemma exited_running: "pool_running p \<Longrightarrow> e \<noteq> Stop \<Longrightarrow> exited (pool_do e p) = exited p"
  by (cases e) (auto split: phase.split)

lemma pool_run_queue:
  "pool_run maxSize n threads pushed taken p \<Longrightarrow> queue_run (pool_put maxSize) (pool_take maxSize True) threads pushed taken (tasks p)
    \<and> pool_running p \<and> maxQueueSize p = maxSize \<and> nthreads p = n \<and> exited p = []"
proof (induction rule: pool_run.induct)
  case (start p)
  then have "p = (setMaxQueueSize maxSize (new_ThreadPool threads))\<lparr>pool_running := True, nthreads := n\<rparr>"
    by (auto simp: pool_threads_start_def run_simps)
  with queue_run.start show ?case by (simp add: setMaxQueueSize_def new_ThreadPool_def)
next
  case (event pushed taken p e p')
  note q = pool_is_monitor [of p e]
  show ?case
  proof (cases "as_queue_event p e")
    case None
    with event q have "tasks p' = tasks p" by simp
    with event exited_running [of p e] show ?thesis by (simp add: pushed_by_def taken_by_def)
  next
    case (Some qe)
    with event q have "tasks p' = queue_do (pool_put maxSize) (pool_take maxSize True) qe (tasks p)" by simp
    from queue_run.event [OF _ _ this] event as_queue_thread [OF Some] exited_running [of p e] show ?thesis by simp
  qed
qed

lemma pool_step_hand:
  assumes "pool_running p" "0 < nthreads p" "e \<noteq> Stop" "pool_thread e < length (phases (tasks p))"
  shows "mset (ran_tasks (pool_do e p)) + mset (in_hand (phases (tasks (pool_do e p))))
    = mset (ran_tasks p) + mset (in_hand (phases (tasks p))) + mset (taken_by (pool_thread e) (tasks p) (tasks (pool_do e p)))"
proof -
  let ?ps = "phases (tasks p)"
  have same: "mset (in_hand (phases (set_phase t x q))) = mset (in_hand (phases q)) \<and> taken_by t q (set_phase t x q) = []"
    if "t < length (phases q)" "in_hand [phases q ! t] = []" "in_hand [x] = []" for t x q
    using in_hand_same [OF that] take_returns_none [OF that(3)] that(1) by (simp add: set_phase_def taken_by_def)
  show ?thesis
  proof (cases e)
    case (Run t task)
    with assms same [of t "tasks p" "Puts task"] show ?thesis by (auto simp: taken_by_def)
  next
    case (Step t k)
    then have t: "t < length ?ps" using assms(4) by simp
    show ?thesis
    proof (cases "?ps ! t")
      case Outside
      with Step t assms(1) same [of t "tasks p" Takes] show ?thesis by (auto simp: taken_by_def)
    next
      case Takes
      with Step assms(1) pool_take_hand [OF t] show ?thesis by simp
    next
      case (Got x)
      with Step in_hand_update [OF t, of Outside] show ?thesis by (simp add: set_phase_def taken_by_def)
    next
      case (Puts x)
      with Step pool_put_hand [OF t] show ?thesis by simp
    qed (use Step in \<open>simp_all add: taken_by_def\<close>)
  next
    case (Spurious t)
    then have t: "t < length ?ps" using assms(4) by simp
    show ?thesis
    proof (cases "\<exists>x. ?ps ! t = Got x")
      case True
      then obtain x where "?ps ! t = Got x" ..
      with Spurious in_hand_update [OF t, of "Got x"] show ?thesis by (simp add: set_phase_def taken_by_def)
    next
      case False
      then have "in_hand [?ps ! t] = []" "in_hand [wake (?ps ! t)] = []" by (cases "?ps ! t"; simp)+
      with Spurious same [OF t] show ?thesis by simp
    qed
  qed (use assms(3) in simp)
qed

lemma pool_run_hand:
  "pool_run maxSize n threads pushed taken p \<Longrightarrow> 0 < n \<Longrightarrow> mset taken = mset (ran_tasks p) + mset (in_hand (phases (tasks p)))"
proof (induction rule: pool_run.induct)
  case (start p)
  have "in_hand (replicate k Outside) = []" for k by (induction k) auto
  with start show ?case by (auto simp: pool_threads_start_def run_simps setMaxQueueSize_def new_ThreadPool_def new_queue_def)
next
  case (event pushed taken p e p')
  have "length (phases (tasks p)) = threads" using pool.run_ok pool_run_queue [OF event.hyps(1)] by blast
  with event pool_step_hand [of p e] pool_run_queue [OF event.hyps(1)] show ?case by simp
qed

subsection \<open>Stopping\<close>

text \<open>How many steps a worker is from the end, once the pool no longer runs.\<close>

fun steps_left :: "'a phase \<Rightarrow> nat" where
  "steps_left Outside = 1"
| "steps_left (Got x) = 2"
| "steps_left Takes = 3"
| "steps_left _ = 0"

definition left_of :: "'a thread_pool \<Rightarrow> nat \<Rightarrow> nat" where
  "left_of p t = (if t \<in> set (exited p) then 0 else steps_left (phases (tasks p) ! t))"

definition workers_left :: "'a thread_pool \<Rightarrow> nat" where
  "workers_left p = sum_list (map (left_of p) [0..<nthreads p])"

definition worker_phase :: "'a phase \<Rightarrow> bool" where
  "worker_phase x \<longleftrightarrow> x = Outside \<or> x = Takes \<or> (\<exists>y. x = Got y)"

text \<open>Stopped: no worker waits, and none that has left its loop is anywhere else.\<close>

definition stopped :: "'a thread_pool \<Rightarrow> bool" where
  "stopped p \<longleftrightarrow> \<not> pool_running p \<and> nthreads p \<le> length (phases (tasks p)) \<and> set (exited p) \<subseteq> {..<nthreads p}
     \<and> (\<forall>t < nthreads p. worker_phase (phases (tasks p) ! t) \<and> (t \<in> set (exited p) \<longrightarrow> phases (tasks p) ! t = Outside))"

lemma pool_do_length [simp]: "length (phases (tasks (pool_do e p))) = length (phases (tasks p))"
  by (cases e) (auto simp: pool_stop_def notify_all_def pool_take_def pool_put_def Let_def split: phase.split)

text \<open>A signal for producers or takers leaves the workers of a stopped pool alone.\<close>

lemma notify_other: "t < length ps \<Longrightarrow> worker_phase (ps ! t) \<Longrightarrow> notify_one waits_take k ps ! t = ps ! t \<and> notify_one waits_put k ps ! t = ps ! t"
  using notify_keeps [of t ps waits_take k] notify_keeps [of t ps waits_put k] by (auto simp: worker_phase_def)

lemma stopped_others:
  assumes "stopped p" "e \<noteq> Stop" "u < nthreads p" "u \<noteq> pool_thread e"
  shows "phases (tasks (pool_do e p)) ! u = phases (tasks p) ! u" "u \<in> set (exited (pool_do e p)) \<longleftrightarrow> u \<in> set (exited p)"
proof -
  have u: "u < length (phases (tasks p))" "worker_phase (phases (tasks p) ! u)" using assms(1,3) by (auto simp: stopped_def)
  show "phases (tasks (pool_do e p)) ! u = phases (tasks p) ! u"
    using assms(2,4) notify_other [OF u] by (cases e) (auto simp: set_phase_def pool_take_def pool_put_def notify_def Let_def split: phase.split)
  show "u \<in> set (exited (pool_do e p)) \<longleftrightarrow> u \<in> set (exited p)"
    using assms(2,4) by (cases e) (auto split: phase.split)
qed

text \<open>The thread of the event.\<close>

lemma stopped_self:
  assumes "stopped p" "e \<noteq> Stop" "pool_thread e < nthreads p"
  defines "t \<equiv> pool_thread e"
  shows "worker_phase (phases (tasks (pool_do e p)) ! t) \<and> (t \<in> set (exited (pool_do e p)) \<longrightarrow> phases (tasks (pool_do e p)) ! t = Outside)
    \<and> left_of (pool_do e p) t \<le> left_of p t \<and> ((\<exists>k. e = Step t k) \<and> t \<notin> set (exited p) \<longrightarrow> left_of (pool_do e p) t < left_of p t)"
proof -
  have t: "t < length (phases (tasks p))" "worker_phase (phases (tasks p) ! t)" "\<not> pool_running p" "t < nthreads p"
    "t \<in> set (exited p) \<Longrightarrow> phases (tasks p) ! t = Outside"
    using assms(1,3) by (auto simp: stopped_def t_def)
  show ?thesis
  proof (cases e)
    case (Step u k)
    then have u: "u = t" by (simp add: t_def)
    from t(2) consider "phases (tasks p) ! t = Outside" | "phases (tasks p) ! t = Takes" | x where "phases (tasks p) ! t = Got x"
      by (auto simp: worker_phase_def)
    then show ?thesis
    proof cases
      case 2
      moreover have "t \<notin> set (exited p)" using t(5) 2 by auto
      ultimately show ?thesis
        using t Step u by (cases "items (tasks p) = []") (simp_all add: pool_take_def set_phase_def left_of_def worker_phase_def Let_def)
    next
      case (3 x)
      moreover have "t \<notin> set (exited p)" using t(5) 3 by auto
      ultimately show ?thesis using t Step u by (simp add: set_phase_def left_of_def worker_phase_def)
    qed (use t Step u in \<open>auto simp: left_of_def worker_phase_def\<close>)
  next
    case (Run u x)
    with t show ?thesis by (simp add: left_of_def t_def)
  next
    case (Spurious u)
    with t have "wake (phases (tasks p) ! t) = phases (tasks p) ! t" by (auto simp: worker_phase_def t_def)
    with Spurious t show ?thesis by (auto simp: set_phase_def left_of_def t_def)
  qed (use assms(2) in simp)
qed

lemma stopped_step:
  assumes "stopped p" "e \<noteq> Stop"
  shows "stopped (pool_do e p)"
proof -
  have "worker_phase (phases (tasks (pool_do e p)) ! u) \<and> (u \<in> set (exited (pool_do e p)) \<longrightarrow> phases (tasks (pool_do e p)) ! u = Outside)"
    if "u < nthreads p" for u
  proof (cases "u = pool_thread e")
    case True
    with stopped_self [OF assms] that show ?thesis by simp
  next
    case False
    with stopped_others [OF assms that] assms(1) that show ?thesis by (simp add: stopped_def)
  qed
  moreover have "set (exited (pool_do e p)) \<subseteq> {..<nthreads p}"
    using assms by (cases e) (auto simp: stopped_def split: phase.split)
  ultimately show ?thesis using assms by (simp add: stopped_def)
qed

lemma sum_list_le: "(\<And>x. x \<in> set xs \<Longrightarrow> f x \<le> (g x :: nat)) \<Longrightarrow> sum_list (map f xs) \<le> sum_list (map g xs)"
  by (rule sum_list_mono)

lemma sum_list_less:
  assumes "\<And>x. x \<in> set xs \<Longrightarrow> f x \<le> (g x :: nat)" "y \<in> set xs" "f y < g y"
  shows "sum_list (map f xs) < sum_list (map g xs)"
  using assms
proof (induction xs)
  case (Cons a xs)
  show ?case
  proof (cases "f a < g a")
    case True
    with Cons.prems(1) sum_list_le [of xs f g] show ?thesis by (simp add: add_less_le_mono)
  next
    case False
    with Cons.prems have "y \<in> set xs" by auto
    with Cons show ?thesis by (simp add: add_le_less_mono)
  qed
qed simp

lemma left_le: "stopped p \<Longrightarrow> e \<noteq> Stop \<Longrightarrow> u < nthreads p \<Longrightarrow> left_of (pool_do e p) u \<le> left_of p u"
  using stopped_self [of p e] stopped_others [of p e u] by (cases "u = pool_thread e") (auto simp: left_of_def)

definition worker_wait :: "'a phase \<Rightarrow> bool" where
  "worker_wait x \<longleftrightarrow> worker_phase x \<or> x = Waits_notEmpty"

lemma worker_wait_notify:
  assumes "t < length ps" "worker_wait (ps ! t)"
  shows "worker_wait (notify_one waits_take k ps ! t) \<and> worker_wait (notify_one waits_put k ps ! t)"
proof
  show "worker_wait (notify_one waits_take k ps ! t)"
    using assms by (rule_tac notify_one_cases [of waits_take ps k]) (auto simp: nth_list_update worker_wait_def worker_phase_def)
  show "worker_wait (notify_one waits_put k ps ! t)"
    using assms by (rule_tac notify_one_cases [of waits_put ps k]) (auto simp: nth_list_update worker_wait_def worker_phase_def)
qed

lemma pool_run_workers:
  "pool_run maxSize n threads pushed taken p \<Longrightarrow> n \<le> threads \<Longrightarrow> t < n \<Longrightarrow> worker_wait (phases (tasks p) ! t)"
proof (induction rule: pool_run.induct)
  case (start p)
  then show ?case
    by (auto simp: pool_threads_start_def run_simps setMaxQueueSize_def new_ThreadPool_def new_queue_def worker_wait_def worker_phase_def)
next
  case (event pushed taken p e p')
  from pool_run_queue [OF event.hyps(1)] have q: "pool_running p" "nthreads p = n" and len: "length (phases (tasks p)) = threads"
    using pool.run_ok by blast+
  with event have t: "t < length (phases (tasks p))" "worker_wait (phases (tasks p) ! t)" by simp_all
  note n = worker_wait_notify [OF t]
  show ?case
  proof (cases "t = pool_thread e")
    case False
    with event.hyps(2,4) t(2) n show ?thesis
      by (cases e) (auto simp: set_phase_def pool_take_def pool_put_def notify_def Let_def split: phase.split)
  next
    case True
    with event.hyps(2,4) t n q event.prems(2) len show ?thesis
      by (cases e; cases "phases (tasks p) ! t") (auto simp: set_phase_def pool_take_def pool_put_def notify_def Let_def worker_wait_def worker_phase_def)
  qed
qed

lemma stop_stopped:
  assumes "pool_run maxSize n threads pushed taken p" "n \<le> threads"
  shows "stopped (pool_stop p)"
proof -
  have q: "nthreads p = n" "exited p = []" "length (phases (tasks p)) = threads"
    using pool_run_queue [OF assms(1)] pool.run_ok by blast+
  have "worker_phase (phases (tasks (pool_stop p)) ! t)" if "t < n" for t
    using pool_run_workers [OF assms that] that assms(2) q(3)
    by (auto simp: pool_stop_def notify_all_def worker_wait_def worker_phase_def)
  with q assms(2) show ?thesis by (simp add: stopped_def pool_stop_def notify_all_def)
qed

lemma stopped_run: "stopped p \<Longrightarrow> Stop \<notin> set es \<Longrightarrow> stopped (fold pool_do es p) \<and> nthreads (fold pool_do es p) = nthreads p"
  by (induction es arbitrary: p) (auto simp: stopped_step)

lemma left_max: "left_of p t \<le> 3"
  by (cases "phases (tasks p) ! t") (auto simp: left_of_def)

lemma workers_left_0:
  assumes "stopped p" "workers_left p = 0"
  shows "all_joined p"
  unfolding all_joined_def
proof (intro allI impI)
  fix t assume t: "t < nthreads p"
  with assms(2) have "left_of p t = 0" by (simp add: workers_left_def)
  moreover have "worker_phase (phases (tasks p) ! t)" using assms(1) t by (simp add: stopped_def)
  then have "steps_left (phases (tasks p) ! t) \<noteq> 0" by (auto simp: worker_phase_def)
  ultimately show "t \<in> set (exited p)" by (simp add: left_of_def split: if_splits)
qed

text \<open>An unbounded pool makes no caller wait.\<close>

lemma how_many_0: "how_many P ps = 0 \<longleftrightarrow> (\<forall>i < length ps. \<not> P (ps ! i))"
  by (simp add: how_many_def filter_empty_conv all_set_conv_all_nth)

lemma set_phase_no_waiter:
  "how_many waits_put (phases q) = 0 \<Longrightarrow> \<not> waits_put x \<Longrightarrow> how_many waits_put (phases (set_phase t x q)) = 0"
  by (cases "t < length (phases q)") (auto simp: how_many_0 set_phase_def nth_list_update)

lemma unbounded_no_waiter:
  "queue_run (pool_put 0) (pool_take 0 True) threads pushed taken q \<Longrightarrow> how_many waits_put (phases q) = 0"
proof (induction rule: queue_run.induct)
  case start
  then show ?case by (simp add: how_many_0 new_queue_def)
next
  case (event pushed taken q e q')
  have w: "\<not> waits_put (wake x)" if "\<not> waits_put x" for x :: "'a phase" using that by (cases x) auto
  have n: "how_many waits_put (phases (notify waits_take k u)) = 0" if "how_many waits_put (phases u) = 0" for k and u :: "'a sync_queue"
    using that notify_take(1) [of k "phases u"] by (simp add: notify_def)
  have i: "how_many waits_put (phases (u\<lparr>items := xs\<rparr>)) = how_many waits_put (phases u)" for u :: "'a sync_queue" and xs by simp
  show ?case
  proof (cases e)
    case (Goes t k)
    with event show ?thesis
      by (auto simp: pool_put_def pool_take_def isFull_def Let_def split: phase.split intro!: set_phase_no_waiter n)
  next
    case (Wakes t)
    with event have "how_many waits_put (phases q) = 0" "t < length (phases q)"
      using pool.run_ok [OF event.hyps(1)] by auto
    with Wakes event(3) w show ?thesis by (auto simp: how_many_0 set_phase_def nth_list_update)
  qed (use event in \<open>auto split: phase.split intro!: set_phase_no_waiter\<close>)
qed

subsection \<open>The properties\<close>

text \<open>
  C25: A running pool (with at least one worker) runs every task once, in the order in which the calls of run
  return, and never stalls: for any number of workers and callers, any bound and any interleaving, the tasks
  of the calls of run that have returned are, in that order, those that take has handed to workers, in the
  order it did, and after these the ones in the queue; each task handed out has been run or is being run,
  once; and whenever tasks wait some worker is about to take one or no worker waits, and whenever callers
  wait the queue is full or one was woken.
\<close>

theorem thread_pool_runs_each_task_once:
  assumes "pool_run maxSize n threads pushed taken p" "0 < n"
  shows "pushed = taken @ items (tasks p) \<and> mset taken = mset (ran_tasks p) + mset (in_hand (phases (tasks p)))
    \<and> (how_many waits_take (phases (tasks p)) = 0 \<or> items (tasks p) = [] \<or> 0 < how_many ready_take (phases (tasks p)))
    \<and> (how_many waits_put (phases (tasks p)) = 0 \<or> isFull maxSize (tasks p) \<or> 0 < how_many ready_put (phases (tasks p)))"
proof -
  have q: "queue_run (pool_put maxSize) (pool_take maxSize True) threads pushed taken (tasks p)"
    using pool_run_queue [OF assms(1)] by blast
  have w: "how_many waits_put (phases (tasks p)) = 0 \<or> isFull maxSize (tasks p) \<or> 0 < how_many ready_put (phases (tasks p))" if "maxSize \<noteq> 0"
    using pool.nobody_forgotten(2) [OF q] that by (auto simp: isFull_def)
  show ?thesis
  proof (cases "maxSize = 0")
    case False
    with w pool.run_ok [OF q] pool.nobody_forgotten(1) [OF q] pool_run_hand [OF assms] show ?thesis by simp
  next
    case True
    from q have "how_many waits_put (phases (tasks p)) = 0" unfolding True by (rule unbounded_no_waiter)
    then show ?thesis using pool.run_ok [OF q] pool.nobody_forgotten(1) [OF q] pool_run_hand [OF assms] by simp
  qed
qed

text \<open>
  C26: stop returns. Once stop was called, every worker that has not left its loop can go on, no other
  thread can put its end off (callers may still queue tasks), and the work the workers have left, at most
  three steps each, decreases with every step of one of them; when none is left all have been joined.
\<close>

theorem stop_lets_every_worker_leave:
  assumes "pool_run maxSize n threads pushed taken p" "n \<le> threads" "Stop \<notin> set es" "e \<noteq> Stop"
  defines "p' \<equiv> fold pool_do es (pool_stop p)"
  shows "workers_left p' \<le> 3 * n \<and> workers_left (pool_do e p') \<le> workers_left p'
    \<and> (t < n \<and> t \<notin> set (exited p') \<longrightarrow> workers_left (pool_do (Step t k) p') < workers_left p')
    \<and> (workers_left p' = 0 \<longrightarrow> all_joined p')"
proof (intro conjI impI)
  have st: "stopped p'" and n: "nthreads p' = n"
    using stopped_run [OF stop_stopped [OF assms(1,2)] assms(3)] pool_run_queue [OF assms(1)] by (simp_all add: p'_def pool_stop_def)
  have "workers_left p' \<le> sum_list (map (\<lambda>_. 3) [0..<n])" unfolding workers_left_def n by (rule sum_list_le) (rule left_max)
  then show "workers_left p' \<le> 3 * n" by (simp add: sum_list_triv)
  show "workers_left (pool_do e p') \<le> workers_left p'"
    unfolding workers_left_def pool_do_keeps by (rule sum_list_le) (use left_le [OF st assms(4)] in simp)
  show "workers_left (pool_do (Step t k) p') < workers_left p'" if "t < n \<and> t \<notin> set (exited p')"
    unfolding workers_left_def pool_do_keeps
  proof (rule sum_list_less [where y = t])
    show "left_of (pool_do (Step t k) p') t < left_of p' t" using stopped_self [OF st, of "Step t k"] that n by auto
  qed (use that n left_le [OF st, of "Step t k"] in auto)
  show "all_joined p'" if "workers_left p' = 0" by (rule workers_left_0 [OF st that])
qed

definition stranded :: "nat \<Rightarrow> 'a \<Rightarrow> 'a thread_pool \<Rightarrow> bool" where
  "stranded t x p \<longleftrightarrow> stopped p \<and> all_joined p \<and> 0 < nthreads p \<and> nthreads p \<le> t \<and> t < length (phases (tasks p))
     \<and> isFull (maxQueueSize p) (tasks p) \<and> (phases (tasks p) ! t = Waits_notFull x \<or> phases (tasks p) ! t = Puts x)
     \<and> (\<forall>u < length (phases (tasks p)). phases (tasks p) ! u \<noteq> Takes \<and> \<not> waits_take (phases (tasks p) ! u))"

lemma no_takers_notify: "\<forall>u < length ps. \<not> waits_take (ps ! u) \<Longrightarrow> notify_one waits_take k ps = ps"
  by (rule notify_one_cases [of waits_take ps k]) auto

lemma stranded_step:
  assumes s: "stranded t x p" and e: "e \<noteq> Stop" "pool_thread e < length (phases (tasks p))"
  shows "stranded t x (pool_do e p)"
proof -
  let ?ps = "phases (tasks p)"
  note d = s [unfolded stranded_def]
  have st: "stopped (pool_do e p)" by (rule stopped_step) (use d e in auto)
  have full: "isFull (maxQueueSize p) (tasks p)" using d by blast
  have none: "?ps ! u \<noteq> Takes" "\<not> waits_take (?ps ! u)" if "u < length ?ps" for u using d that by blast+
  have gone: "u \<in> set (exited p)" if "u < nthreads p" for u using d that by (simp add: all_joined_def)
  have wk: "wake y = Takes \<longleftrightarrow> y = Takes \<or> waits_take y" "waits_take (wake y) \<longleftrightarrow> False" for y :: "'a phase" by (cases y; simp)+
  have idle: "?ps = ?ps[pool_thread e := ?ps ! pool_thread e] \<and> ?ps ! pool_thread e \<noteq> Takes \<and> \<not> waits_take (?ps ! pool_thread e)"
    using none e(2) by simp
  have step: "exited (pool_do e p) = exited p \<and> items (tasks (pool_do e p)) = items (tasks p)
    \<and> (\<exists>y. phases (tasks (pool_do e p)) = ?ps[pool_thread e := y] \<and> y \<noteq> Takes \<and> \<not> waits_take y
         \<and> (y = Waits_notFull z \<or> y = Puts z \<or> \<not> (?ps ! pool_thread e = Waits_notFull z \<or> ?ps ! pool_thread e = Puts z)))" for z
  proof (cases e)
    case (Run u v)
    show ?thesis
    proof (cases "nthreads p \<le> u \<and> ?ps ! u = Outside")
      case True
      with Run e(2) d show ?thesis by (auto simp: set_phase_def)
    next
      case False
      with Run d have "pool_do e p = p" by auto
      with idle show ?thesis by (intro conjI exI [of _ "?ps ! pool_thread e"]) auto
    qed
  next
    case (Step u k)
    show ?thesis
    proof (cases "?ps ! u")
      case Outside
      with Step gone have "pool_do e p = p" by auto
      with idle show ?thesis by (intro conjI exI [of _ "?ps ! pool_thread e"]) auto
    next
      case (Puts v)
      with Step full show ?thesis by (auto simp: pool_put_def set_phase_def)
    next
      case Waits_notEmpty
      with Step none(2) [of u] e(2) show ?thesis by simp
    next
      case (Waits_notFull v)
      with Step have "pool_do e p = p" by simp
      with idle show ?thesis by (intro conjI exI [of _ "?ps ! pool_thread e"]) auto
    next
      case (Got v)
      with Step show ?thesis by (auto simp: set_phase_def)
    qed (use Step none e(2) in auto)
  next
    case (Spurious u)
    with none [of u] e(2) show ?thesis by (cases "?ps ! u") (auto simp: set_phase_def)
  qed (use e(1) in simp)
  then obtain y where y: "exited (pool_do e p) = exited p" "items (tasks (pool_do e p)) = items (tasks p)"
    "phases (tasks (pool_do e p)) = ?ps[pool_thread e := y]" "y \<noteq> Takes" "\<not> waits_take y"
    "y = Waits_notFull x \<or> y = Puts x \<or> \<not> (?ps ! pool_thread e = Waits_notFull x \<or> ?ps ! pool_thread e = Puts x)"
    by blast
  have "?ps[pool_thread e := y] ! t = Waits_notFull x \<or> ?ps[pool_thread e := y] ! t = Puts x"
    using y(6) d e(2) by (cases "pool_thread e = t") auto
  moreover have "\<forall>u < length ?ps. ?ps[pool_thread e := y] ! u \<noteq> Takes \<and> \<not> waits_take (?ps[pool_thread e := y] ! u)"
    using none y(4,5) e(2) by (auto simp: nth_list_update)
  ultimately show ?thesis
    using d st y(1-3) e(1) by (simp add: stranded_def all_joined_def isFull_def)
qed

text \<open>
  stop forgets the callers that wait for room. When a bounded pool has stopped with its queue full, a
  caller inside run never leaves it, whatever happens afterwards: nobody takes a task any more.
\<close>

theorem stop_strands_waiting_callers:
  assumes "stranded t x p" "Stop \<notin> set es" "\<forall>e \<in> set es. pool_thread e < length (phases (tasks p))"
  shows "phases (tasks (fold pool_do es p)) ! t = Waits_notFull x \<or> phases (tasks (fold pool_do es p)) ! t = Puts x"
proof -
  have "stranded t x (fold pool_do es p)"
    using assms
  proof (induction es arbitrary: p)
    case (Cons e es)
    have "e \<noteq> Stop" using Cons.prems(2) by auto
    with Cons stranded_step [of t x p e] show ?case by simp
  qed simp
  then show ?thesis by (simp add: stranded_def)
qed

fun pool_events :: "'a pool_event list \<Rightarrow> 'a thread_pool \<Rightarrow> 'a thread_pool" where
  "pool_events [] p = p"
| "pool_events (e # es) p = pool_events es (pool_do e p)"

lemma pool_events_run:
  "pool_run maxSize n threads pushed taken p \<Longrightarrow> Stop \<notin> set es \<Longrightarrow> \<forall>e \<in> set es. pool_thread e < threads \<Longrightarrow>
   \<exists>pushed' taken'. pool_run maxSize n threads pushed' taken' (pool_events es p)"
proof (induction es arbitrary: p pushed taken)
  case (Cons e es)
  have "e \<noteq> Stop" using Cons.prems(2) by auto
  from pool_run.event [OF Cons.prems(1) this _ refl] Cons.prems(2,3) Cons.IH show ?case by fastforce
qed auto

text \<open>One worker, a queue of one task, two callers: the second waits.\<close>

definition sample_pool :: "nat thread_pool" where
  "sample_pool = \<lparr>tasks = \<lparr>items = [7], phases = [Outside, Outside, Waits_notFull 8]\<rparr>, maxQueueSize = 1, pool_running = True,
     nthreads = 1, exited = [], ran_tasks = []\<rparr>"

lemma sample_pool_run: "\<exists>pushed taken. pool_run 1 1 3 pushed taken sample_pool"
proof -
  obtain p where p: "pool_threads_start 1 (setMaxQueueSize 1 (new_ThreadPool 3)) = Some (p :: nat thread_pool)"
      "p = \<lparr>tasks = new_queue 3, maxQueueSize = 1, pool_running = True, nthreads = 1, exited = [], ran_tasks = []\<rparr>"
    by (simp add: pool_threads_start_def setMaxQueueSize_def new_ThreadPool_def)
  let ?es = "[Run 1 7, Step 1 0, Run 2 8, Step 2 0]"
  have e: "pool_events ?es p = sample_pool" unfolding p(2) by code_simp
  have "\<exists>pushed taken. pool_run 1 1 3 pushed taken (pool_events ?es p)"
    by (rule pool_events_run [OF pool_run.start [OF p(1)]]) simp_all
  then show ?thesis unfolding e .
qed

lemma thread_pool_runs_each_task_once_witness:
  "\<exists>pushed taken. pool_run 1 1 3 pushed taken sample_pool \<and> pushed = taken @ [7] \<and> mset taken = mset (ran_tasks sample_pool)"
proof -
  obtain pushed taken where r: "pool_run 1 1 3 pushed taken sample_pool" using sample_pool_run by blast
  from thread_pool_runs_each_task_once [OF r] have "pushed = taken @ items (tasks sample_pool)"
    "mset taken = mset (ran_tasks sample_pool) + mset (in_hand (phases (tasks sample_pool)))" by simp_all
  with r show ?thesis by (intro exI [of _ pushed] exI [of _ taken]) (simp add: sample_pool_def)
qed

lemma stop_lets_every_worker_leave_witness:
  "workers_left (pool_do (Step 0 5) (pool_stop sample_pool)) < workers_left (pool_stop sample_pool)"
proof -
  obtain pushed taken where r: "pool_run 1 1 3 pushed taken sample_pool" using sample_pool_run by blast
  have "0 \<notin> set (exited (pool_stop sample_pool))" by (simp add: pool_stop_def sample_pool_def)
  with stop_lets_every_worker_leave [OF r, of "[]" "Step 0 5" 0 5] show ?thesis by simp
qed

lemma stop_strands_waiting_callers_witness:
  "phases (tasks (fold pool_do [Step 0 0, Spurious 2, Step 2 0, Step 0 0] (pool_do (Step 0 0) (pool_stop sample_pool)))) ! 2 = Waits_notFull 8
   \<or> phases (tasks (fold pool_do [Step 0 0, Spurious 2, Step 2 0, Step 0 0] (pool_do (Step 0 0) (pool_stop sample_pool)))) ! 2 = Puts 8"
proof (rule stop_strands_waiting_callers)
  have p: "pool_do (Step 0 0) (pool_stop sample_pool) = \<lparr>tasks = \<lparr>items = [7], phases = [Outside, Outside, Waits_notFull 8]\<rparr>,
      maxQueueSize = 1, pool_running = False, nthreads = 1, exited = [0], ran_tasks = []\<rparr>"
    by (simp add: sample_pool_def pool_stop_def notify_all_def)
  show "stranded 2 8 (pool_do (Step 0 0) (pool_stop sample_pool))"
    unfolding p by (auto simp: stranded_def stopped_def all_joined_def isFull_def worker_phase_def less_Suc_eq numeral_3_eq_3 nth_Cons')
  show "\<forall>e \<in> set [Step 0 0, Spurious 2, Step 2 0, Step 0 0]. pool_thread e < length (phases (tasks (pool_do (Step 0 0) (pool_stop sample_pool))))"
    unfolding p by simp
qed simp

end
