(* ===== verification/Quick_Sort.thy ===== *)
theory Quick_Sort
  imports Prelude "HOL-Library.Multiset" "HOL-Library.Word"
begin

text \<open>
  quicksort.cpp: the two quicksorts, the heap sorts, the k least numbers and the bit map of the
  repository's demo program. An array is the list of its elements; indices are the code's ints, and an
  access outside the array is None. Printing is left out. What rand() answers is an argument.
\<close>

definition rd :: "'a list \<Rightarrow> int \<Rightarrow> 'a option" where
  "rd a i = (if 0 \<le> i \<and> i < int (length a) then Some (a ! nat i) else None)"

definition wr :: "'a list \<Rightarrow> int \<Rightarrow> 'a \<Rightarrow> 'a list option" where
  "wr a i x = (if 0 \<le> i \<and> i < int (length a) then Some (a[nat i := x]) else None)"

definition swp :: "'a list \<Rightarrow> int \<Rightarrow> int \<Rightarrow> 'a list option" where
  "swp a i j = do { x \<leftarrow> rd a i; y \<leftarrow> rd a j; a \<leftarrow> wr a i y; wr a j x }"

lemma rd_at [simp]: "int (length xs) = i \<Longrightarrow> rd (xs @ x # ys) i = Some x"
  by (auto simp: rd_def)

lemma wr_at [simp]: "int (length xs) = i \<Longrightarrow> wr (xs @ x # ys) i z = Some (xs @ z # ys)"
  by (auto simp: wr_def)

lemma swp_at:
  assumes "int (length xs) = i" "int (length (xs @ x # ys)) = j"
  shows "swp (xs @ x # ys @ y # zs) i j = Some (xs @ y # ys @ x # zs)" "swp (xs @ x # ys @ y # zs) j i = Some (xs @ y # ys @ x # zs)"
proof -
  have j: "rd (xs @ u # ys @ v # zs) j = Some v" "wr (xs @ u # ys @ v # zs) j w = Some (xs @ u # ys @ w # zs)" for u v w
    using rd_at [of "xs @ u # ys" j v zs] wr_at [of "xs @ u # ys" j v zs w] assms(2) by simp_all
  show "swp (xs @ x # ys @ y # zs) i j = Some (xs @ y # ys @ x # zs)" "swp (xs @ x # ys @ y # zs) j i = Some (xs @ y # ys @ x # zs)"
    using assms(1) by (simp_all add: swp_def j)
qed

lemma swp_same [simp]: "int (length xs) = i \<Longrightarrow> swp (xs @ x # ys) i i = Some (xs @ x # ys)"
  by (simp add: swp_def)

subsection \<open>Partition and quicksort\<close>

text \<open>The loop both partitions share: elements less than the first go behind the growing border \<open>j\<close>.\<close>

function partion_loop :: "int \<Rightarrow> int \<Rightarrow> int \<Rightarrow> int \<Rightarrow> int list \<Rightarrow> (int \<times> int list) option" where
  "partion_loop flag right i j a =
     (if i \<le> right then do {
        x \<leftarrow> rd a i;
        if x < flag then do {
          let j = j + 1;
          a \<leftarrow> (if j \<noteq> i then swp a i j else Some a);
          partion_loop flag right (i + 1) j a }
        else partion_loop flag right (i + 1) j a }
      else Some (j, a))"
  by auto
termination by (relation "measure (\<lambda>(flag, right, i, j, a). nat (right + 1 - i))") auto

declare partion_loop.simps [simp del]

definition partion :: "int list \<Rightarrow> int \<Rightarrow> int \<Rightarrow> (int \<times> int list) option" where
  "partion a left right = do {
     flag \<leftarrow> rd a left;
     (j, a) \<leftarrow> partion_loop flag right (left + 1) left a;
     a \<leftarrow> swp a j left;
     Some (j, a) }"

text \<open>\<open>Rand low high\<close> for the number \<open>r\<close> that rand() gives.\<close>

definition Rand :: "nat \<Rightarrow> int \<Rightarrow> int \<Rightarrow> int" where
  "Rand r low high = (let size = high - low + 1 in low + int r mod size)"

definition partion1 :: "nat \<Rightarrow> int list \<Rightarrow> int \<Rightarrow> int \<Rightarrow> (int \<times> int list) option" where
  "partion1 r a left right = do {
     a \<leftarrow> swp a (Rand r left right) left;
     flag \<leftarrow> rd a left;
     (j, a) \<leftarrow> partion_loop flag right (left + 1) left a;
     a \<leftarrow> swp a j left;
     Some (j, a) }"

text \<open>The template's partition: the same steps with the arguments of the swaps exchanged.\<close>

definition template_partition :: "int list \<Rightarrow> int \<Rightarrow> int \<Rightarrow> (int \<times> int list) option" where
  "template_partition a left right = do {
     v \<leftarrow> rd a left;
     (j, a) \<leftarrow> partion_loop v right (left + 1) left a;
     a \<leftarrow> swp a left j;
     Some (j, a) }"

lemma partion_loop_border:
  "partion_loop flag right i j a = Some (k, b) \<Longrightarrow> j < i \<Longrightarrow> i \<le> right + 1 \<Longrightarrow> j \<le> k \<and> k \<le> right"
proof (induction flag right i j a arbitrary: k b rule: partion_loop.induct)
  case (1 flag right i j a)
  show ?case
  proof (cases "i \<le> right")
    case False
    with "1.prems" show ?thesis by (subst (asm) partion_loop.simps) auto
  next
    case True
    then obtain x where x: "rd a i = Some x" using "1.prems"(1) by (subst (asm) partion_loop.simps) (auto simp: run_simps)
    show ?thesis
    proof (cases "x < flag")
      case False
      with True x "1.prems"(1) have "partion_loop flag right (i + 1) j a = Some (k, b)" by (subst (asm) partion_loop.simps) simp
      from "1.IH"(2) [OF True x False this] "1.prems"(2) True show ?thesis by simp
    next
      case less: True
      obtain a' where a': "(if j + 1 \<noteq> i then swp a i (j + 1) else Some a) = Some a'"
        and "partion_loop flag right (i + 1) (j + 1) a' = Some (k, b)"
        using True x less "1.prems"(1)
        by (subst (asm) partion_loop.simps) (cases "if j + 1 \<noteq> i then swp a i (j + 1) else Some a"; simp add: Let_def)
      from "1.IH"(1) [OF True x less refl a' this(2)] "1.prems"(2) True show ?thesis by simp
    qed
  qed
qed

lemma partion1_border: "partion1 r a left right = Some (k, b) \<Longrightarrow> left < right \<Longrightarrow> left \<le> k \<and> k \<le> right"
  using partion_loop_border [of _ right "left + 1" left] by (fastforce simp: partion1_def run_simps)

lemma template_border: "template_partition a left right = Some (k, b) \<Longrightarrow> left \<le> right \<Longrightarrow> left \<le> k \<and> k \<le> right"
  using partion_loop_border [of _ right "left + 1" left] by (fastforce simp: template_partition_def run_simps)

text \<open>\<open>rnd\<close>: what rand() answers when the segment is partitioned.\<close>

function Fast_sort :: "(int \<Rightarrow> int \<Rightarrow> nat) \<Rightarrow> int list \<Rightarrow> int \<Rightarrow> int \<Rightarrow> int list option" where
  "Fast_sort rnd a left right =
     (if left < right then do {
        (index, a) \<leftarrow> partion1 (rnd left right) a left right;
        a \<leftarrow> Fast_sort rnd a left (index - 1);
        Fast_sort rnd a (index + 1) right }
      else Some a)"
  by auto
termination
  by (relation "measure (\<lambda>(rnd, a, left, right). nat (right + 1 - left))") (auto dest!: partion1_border)

function quickSort_range :: "int list \<Rightarrow> int \<Rightarrow> int \<Rightarrow> int list option" where
  "quickSort_range arr left right = do {
     (p, arr) \<leftarrow> template_partition arr left right;
     if left < right then do {
       arr \<leftarrow> quickSort_range arr left (p - 1);
       quickSort_range arr (p + 1) right }
     else Some arr }"
  by auto
termination
  by (relation "measure (\<lambda>(a, left, right). nat (right + 1 - left))") (auto dest!: template_border)

declare Fast_sort.simps [simp del] quickSort_range.simps [simp del]

definition quickSort :: "int list \<Rightarrow> int \<Rightarrow> int list option" where
  "quickSort arr n = quickSort_range arr 0 (n - 1)"

subsection \<open>What the partition does\<close>

lemma partion_loop_sorts:
  assumes "int (length pre) = left" "right = left + int (length (lo @ hi @ rest))" "\<forall>x \<in> set lo. x < flag" "\<forall>x \<in> set hi. flag \<le> x"
  shows "\<exists>lo' hi'. partion_loop flag right (left + 1 + int (length (lo @ hi))) (left + int (length lo)) (pre @ flag # lo @ hi @ rest @ post)
      = Some (left + int (length lo'), pre @ flag # lo' @ hi' @ post)
    \<and> mset (lo' @ hi') = mset (lo @ hi @ rest) \<and> (\<forall>x \<in> set lo'. x < flag) \<and> (\<forall>x \<in> set hi'. flag \<le> x)"
  using assms
proof (induction rest arbitrary: lo hi)
  case Nil
  then have "\<not> left + 1 + int (length (lo @ hi)) \<le> right" by simp
  with Nil show ?case by (intro exI [of _ lo] exI [of _ hi]) (simp add: partion_loop.simps)
next
  case (Cons x rest)
  let ?i = "left + 1 + int (length (lo @ hi))" and ?j = "left + int (length lo)"
  let ?a = "pre @ flag # lo @ hi @ (x # rest) @ post"
  have i: "?i \<le> right" using Cons.prems(2) by simp
  have x: "rd ?a ?i = Some x"
    using rd_at [of "pre @ flag # lo @ hi" ?i x "rest @ post"] Cons.prems(1) by simp
  show ?case
  proof (cases "x < flag")
    case False
    have "partion_loop flag right ?i ?j ?a = partion_loop flag right (?i + 1) ?j ?a"
      using i x False by (subst partion_loop.simps) simp
    with Cons.IH [of lo "hi @ [x]"] Cons.prems False show ?thesis by (simp add: algebra_simps not_less)
  next
    case True
    show ?thesis
    proof (cases hi)
      case Nil
      have "partion_loop flag right ?i ?j ?a = partion_loop flag right (?i + 1) (?j + 1) ?a"
        using i x True Nil by (subst partion_loop.simps) simp
      with Cons.IH [of "lo @ [x]" "[]"] Cons.prems True Nil show ?thesis by (simp add: algebra_simps)
    next
      case (Cons h hs)
      let ?b = "pre @ flag # (lo @ [x]) @ (hs @ [h]) @ rest @ post"
      have "swp ?a ?i (?j + 1) = Some ?b"
        using swp_at(2) [of "pre @ flag # lo" "?j + 1" h hs ?i x "rest @ post"] Cons.prems(1) Cons by simp
      then have "partion_loop flag right ?i ?j ?a = partion_loop flag right (?i + 1) (?j + 1) ?b"
        using i x True Cons by (subst partion_loop.simps) simp
      with Cons.IH [of "lo @ [x]" "hs @ [h]"] Cons.prems True Cons show ?thesis by (simp add: algebra_simps add_mset_commute)
    qed
  qed
qed

text \<open>The pivot ends between the smaller and the others.\<close>

definition splits :: "int list \<Rightarrow> int list \<Rightarrow> int list \<Rightarrow> int \<Rightarrow> int list \<Rightarrow> bool" where
  "splits seg lo hi v seg' \<longleftrightarrow> seg' = lo @ v # hi \<and> mset seg' = mset seg \<and> (\<forall>x \<in> set lo. x < v) \<and> (\<forall>x \<in> set hi. v \<le> x)"

lemma pivot_in_place:
  assumes "int (length pre) = left" "right = left + int (length rest)"
  shows "\<exists>lo hi j a. partion_loop v right (left + 1) left (pre @ v # rest @ post) = Some (j, a) \<and> j = left + int (length lo)
    \<and> swp a j left = Some (pre @ (lo @ v # hi) @ post) \<and> swp a left j = Some (pre @ (lo @ v # hi) @ post)
    \<and> splits (v # rest) lo hi v (lo @ v # hi)"
proof -
  obtain lo hi where l: "partion_loop v right (left + 1) left (pre @ v # rest @ post) = Some (left + int (length lo), pre @ v # lo @ hi @ post)"
    "mset (lo @ hi) = mset rest" "\<forall>x \<in> set lo. x < v" "\<forall>x \<in> set hi. v \<le> x"
    using partion_loop_sorts [OF assms(1), of right "[]" "[]" rest v post] assms(2) by auto
  show ?thesis
  proof (cases lo rule: rev_cases)
    case Nil
    with l assms(1) show ?thesis by (intro exI [of _ "[]"] exI [of _ hi]) (simp add: splits_def)
  next
    case (snoc ls z)
    let ?lo = "z # ls"
    have "swp (pre @ v # ls @ z # hi @ post) left (left + int (length lo)) = Some (pre @ z # ls @ v # hi @ post)"
      "swp (pre @ v # ls @ z # hi @ post) (left + int (length lo)) left = Some (pre @ z # ls @ v # hi @ post)"
      using swp_at [of pre left v ls "left + int (length lo)" z "hi @ post"] assms(1) snoc by simp_all
    moreover have "splits (v # rest) ?lo hi v (?lo @ v # hi)" using l(2-4) snoc by (auto simp: splits_def)
    ultimately show ?thesis using l(1) snoc by (intro exI [of _ ?lo] exI [of _ hi]) simp
  qed
qed

lemma template_partition_splits:
  assumes "int (length pre) = left" "right = left + int (length rest)"
  shows "\<exists>lo hi. template_partition (pre @ (v # rest) @ post) left right = Some (left + int (length lo), pre @ (lo @ v # hi) @ post)
    \<and> splits (v # rest) lo hi v (lo @ v # hi)"
  using pivot_in_place [OF assms, of v post] assms(1) by (force simp: template_partition_def)

lemma partion1_splits:
  assumes "int (length pre) = left" "int (length seg) = right - left + 1" "seg \<noteq> []"
  shows "\<exists>lo hi v. partion1 r (pre @ seg @ post) left right = Some (left + int (length lo), pre @ (lo @ v # hi) @ post)
    \<and> splits seg lo hi v (lo @ v # hi)"
proof -
  define k where "k = nat (int r mod (right - left + 1))"
  have size: "0 < right - left + 1" using assms(2,3) by (cases seg) auto
  have "int k < int (length seg)" using size assms(2) pos_mod_bound [OF size, of "int r"] by (simp add: k_def)
  then have k: "k < length seg" by simp
  have rand: "Rand r left right = left + int k" using size by (simp add: Rand_def k_def)
  obtain x rest where seg: "seg = x # rest" using assms(3) by (cases seg) auto
  have "\<exists>v rest'. swp (pre @ seg @ post) (left + int k) left = Some (pre @ v # rest' @ post) \<and> mset (v # rest') = mset seg"
  proof (cases k)
    case 0
    with assms(1) seg show ?thesis by (intro exI [of _ x] exI [of _ rest]) simp
  next
    case (Suc m)
    then have m: "m < length rest" using k seg by simp
    then have rest: "rest = take m rest @ rest ! m # drop (Suc m) rest" by (rule id_take_nth_drop)
    let ?rest' = "take m rest @ x # drop (Suc m) rest"
    have "swp (pre @ x # take m rest @ rest ! m # drop (Suc m) rest @ post) (left + int k) left
        = Some (pre @ rest ! m # take m rest @ x # drop (Suc m) rest @ post)"
      using swp_at(2) [of pre left x "take m rest" "left + int k" "rest ! m" "drop (Suc m) rest @ post"] assms(1) Suc m by simp
    moreover have "pre @ seg @ post = pre @ x # take m rest @ rest ! m # drop (Suc m) rest @ post"
      using rest seg by (metis append.assoc append_Cons)
    moreover have "mset (rest ! m # ?rest') = mset seg" using arg_cong [OF rest, of mset] seg by simp
    ultimately show ?thesis by (intro exI [of _ "rest ! m"] exI [of _ ?rest']) simp
  qed
  then obtain v rest' where s: "swp (pre @ seg @ post) (left + int k) left = Some (pre @ v # rest' @ post)" "mset (v # rest') = mset seg" by blast
  have "length (v # rest') = length seg" using s(2) by (metis size_mset)
  then have "right = left + int (length rest')" using assms(2) by simp
  from pivot_in_place [OF assms(1) this, of v post] s rand assms(1) show ?thesis
    by (force simp: partion1_def splits_def)
qed

lemma splits_sort: "splits seg lo hi v seg' \<Longrightarrow> sort seg = sort lo @ v # sort hi"
proof -
  assume s: "splits seg lo hi v seg'"
  have "sorted (sort lo @ v # sort hi)" using s by (auto simp: splits_def sorted_append less_imp_le) (meson less_imp_le order.trans)
  moreover have "mset (lo @ v # hi) = mset seg" using s unfolding splits_def by metis
  then have "mset (sort lo @ v # sort hi) = mset seg" by simp
  ultimately show ?thesis by (metis properties_for_sort)
qed

subsection \<open>Sorting\<close>

lemma Fast_sort_segment:
  "int (length pre) = left \<Longrightarrow> int (length seg) = right - left + 1 \<Longrightarrow> Fast_sort rnd (pre @ seg @ post) left right = Some (pre @ sort seg @ post)"
proof (induction "length seg" arbitrary: pre seg post left right rule: less_induct)
  case less
  show ?case
  proof (cases "left < right")
    case False
    with less.prems(2) have "length seg \<le> 1" by linarith
    then have "sort seg = seg" by (cases seg; cases "tl seg") auto
    with False show ?thesis by (simp add: Fast_sort.simps)
  next
    case True
    with less.prems(2) have "seg \<noteq> []" by auto
    from partion1_splits [OF less.prems this, of "rnd left right" post]
    obtain lo hi v where p: "partion1 (rnd left right) (pre @ seg @ post) left right = Some (left + int (length lo), pre @ (lo @ v # hi) @ post)"
      "splits seg lo hi v (lo @ v # hi)" by blast
    have "length (lo @ v # hi) = length seg" using p(2) by (metis size_mset splits_def)
    then have len: "int (length lo) + int (length hi) = right - left" "length lo < length seg" "length hi < length seg"
      using less.prems(2) by simp_all
    have "Fast_sort rnd (pre @ lo @ v # hi @ post) left (left + int (length lo) - 1) = Some (pre @ sort lo @ v # hi @ post)"
      using less.hyps [OF len(2) less.prems(1), of "left + int (length lo) - 1" "v # hi @ post"] by simp
    moreover have "Fast_sort rnd (pre @ sort lo @ v # hi @ post) (left + int (length lo) + 1) right = Some (pre @ sort lo @ v # sort hi @ post)"
      using less.hyps [OF len(3), of "pre @ sort lo @ [v]" "left + int (length lo) + 1" right post] less.prems(1) len(1) by simp
    ultimately show ?thesis using True p(1) splits_sort [OF p(2)] by (subst Fast_sort.simps) simp
  qed
qed

text \<open>
  The template sorts the empty segment [left, left - 1] by reading its first element: it only goes well
  inside the array, and no pivot may end at the right end of the array.
\<close>

lemma quickSort_range_segment:
  "quickSort_range (pre @ seg @ post) left right = Some b \<Longrightarrow> int (length pre) = left \<Longrightarrow> int (length seg) = right - left + 1 \<Longrightarrow>
   b = pre @ sort seg @ post"
proof (induction "length seg" arbitrary: pre seg post left right b rule: less_induct)
  case less
  show ?case
  proof (cases seg)
    case Nil
    with less.prems have r: "right = left - 1" by simp
    obtain a where a: "template_partition (pre @ post) left right = Some a" "b = snd a"
      using less.prems(1) r Nil by (subst (asm) quickSort_range.simps) (auto simp: run_simps)
    then obtain x ys where post: "post = x # ys"
      using less.prems(2) by (cases post) (auto simp: template_partition_def rd_def run_simps)
    have "partion_loop x right (left + 1) left (pre @ post) = Some (left, pre @ post)"
      using r by (simp add: partion_loop.simps)
    with a post less.prems(2) Nil show ?thesis by (auto simp: template_partition_def)
  next
    case (Cons x rest)
    then have "right = left + int (length rest)" using less.prems(3) by simp
    from template_partition_splits [OF less.prems(2) this, of x post]
    obtain lo hi where p: "template_partition (pre @ seg @ post) left right = Some (left + int (length lo), pre @ (lo @ x # hi) @ post)"
      "splits seg lo hi x (lo @ x # hi)" unfolding Cons by blast
    have "length (lo @ x # hi) = length seg" using p(2) by (metis size_mset splits_def)
    then have len: "int (length lo) + int (length hi) = right - left" "length lo < length seg" "length hi < length seg"
      using less.prems(3) by simp_all
    show ?thesis
    proof (cases "left < right")
      case False
      with len(1) have "length lo = 0 \<and> length hi = 0" by linarith
      then have "lo = []" "hi = []" by simp_all
      with False p(1) less.prems(1) splits_sort [OF p(2)] show ?thesis by (subst (asm) quickSort_range.simps) simp
    next
      case True
      with p(1) less.prems(1) obtain b1 where b1: "quickSort_range (pre @ lo @ x # hi @ post) left (left + int (length lo) - 1) = Some b1"
        "quickSort_range b1 (left + int (length lo) + 1) right = Some b"
        by (subst (asm) quickSort_range.simps) (auto simp: run_simps)
      have e1: "b1 = pre @ sort lo @ x # hi @ post"
        using less.hyps [OF len(2), of pre "x # hi @ post" left "left + int (length lo) - 1" b1] b1(1) less.prems(2) by simp
      have "b = (pre @ sort lo @ [x]) @ sort hi @ post"
        using less.hyps [OF len(3), of "pre @ sort lo @ [x]" post "left + int (length lo) + 1" right b] b1(2) e1 less.prems(2) len(1) by simp
      with splits_sort [OF p(2)] show ?thesis by simp
    qed
  qed
qed

text \<open>Nothing but the empty right segment goes wrong: with one more element behind it a segment is sorted.\<close>

lemma quickSort_range_total:
  "post \<noteq> [] \<Longrightarrow> int (length pre) = left \<Longrightarrow> int (length seg) = right - left + 1 \<Longrightarrow>
   quickSort_range (pre @ seg @ post) left right = Some (pre @ sort seg @ post)"
proof (induction "length seg" arbitrary: pre seg post left right rule: less_induct)
  case less
  show ?case
  proof (cases seg)
    case Nil
    with less.prems have r: "right = left - 1" by simp
    obtain x ys where post: "post = x # ys" using less.prems(1) by (cases post) auto
    with r less.prems(2) Nil show ?thesis
      by (subst quickSort_range.simps) (simp add: template_partition_def partion_loop.simps)
  next
    case (Cons x rest)
    then have "right = left + int (length rest)" using less.prems(3) by simp
    from template_partition_splits [OF less.prems(2) this, of x post]
    obtain lo hi where p: "template_partition (pre @ seg @ post) left right = Some (left + int (length lo), pre @ (lo @ x # hi) @ post)"
      "splits seg lo hi x (lo @ x # hi)" unfolding Cons by blast
    have "length (lo @ x # hi) = length seg" using p(2) by (metis size_mset splits_def)
    then have len: "int (length lo) + int (length hi) = right - left" "length lo < length seg" "length hi < length seg"
      using less.prems(3) by simp_all
    show ?thesis
    proof (cases "left < right")
      case False
      with len(1) have "length lo = 0 \<and> length hi = 0" by linarith
      then have "lo = []" "hi = []" by simp_all
      with False p(1) splits_sort [OF p(2)] show ?thesis by (subst quickSort_range.simps) simp
    next
      case True
      have "quickSort_range (pre @ lo @ x # hi @ post) left (left + int (length lo) - 1) = Some (pre @ sort lo @ x # hi @ post)"
        using less.hyps [OF len(2), of "x # hi @ post" pre left "left + int (length lo) - 1"] less.prems(2) by simp
      moreover have "quickSort_range (pre @ sort lo @ x # hi @ post) (left + int (length lo) + 1) right = Some (pre @ sort lo @ x # sort hi @ post)"
        using less.hyps [OF len(3), of post "pre @ sort lo @ [x]" "left + int (length lo) + 1" right] less.prems(1,2) len(1) by simp
      ultimately show ?thesis using True p(1) splits_sort [OF p(2)] by (subst quickSort_range.simps) simp
    qed
  qed
qed

text \<open>A right bound outside the array is read by the partition.\<close>

lemma swp_length: "swp a i j = Some b \<Longrightarrow> length b = length a"
  by (auto simp: swp_def wr_def run_simps split: if_splits)

lemma partion_loop_outside:
  "int (length a) \<le> right \<Longrightarrow> i \<le> int (length a) \<Longrightarrow> partion_loop flag right i j a = None"
proof (induction flag right i j a rule: partion_loop.induct)
  case (1 flag right i j a)
  have i: "i \<le> right" using "1.prems" by simp
  show ?case
  proof (cases "rd a i")
    case None
    with i show ?thesis by (subst partion_loop.simps) simp
  next
    case (Some x)
    then have bound: "i + 1 \<le> int (length a)" by (auto simp: rd_def split: if_splits)
    show ?thesis
    proof (cases "x < flag")
      case False
      with "1.IH"(2) [OF i Some False "1.prems"(1) bound] i Some show ?thesis by (subst partion_loop.simps) simp
    next
      case True
      show ?thesis
      proof (cases "if j + 1 \<noteq> i then swp a i (j + 1) else Some a")
        case None
        with i Some True show ?thesis by (subst partion_loop.simps) (simp add: Let_def del: if_split_asm)
      next
        case (Some b)
        then have "length b = length a" using swp_length by (auto split: if_splits)
        with "1.IH"(1) [OF i \<open>rd a i = Some x\<close> True refl Some] "1.prems"(1) bound
        have "partion_loop flag right (i + 1) (j + 1) b = None" by simp
        with i \<open>rd a i = Some x\<close> True Some show ?thesis by (subst partion_loop.simps) (simp add: Let_def)
      qed
    qed
  qed
qed

lemma Fast_sort_outside:
  assumes "left < right" "int (length a) \<le> right"
  shows "Fast_sort rnd a left right = None"
proof -
  have "partion1 (rnd left right) a left right = None"
  proof (cases "swp a (Rand (rnd left right) left right) left")
    case (Some b)
    then have "length b = length a" by (rule swp_length)
    moreover have "left < int (length a)" if "rd b left = Some flag" for flag
      using that calculation by (auto simp: rd_def split: if_splits)
    ultimately have "rd b left = Some flag \<Longrightarrow> partion_loop flag right (left + 1) left b = None" for flag
      using partion_loop_outside [of b right "left + 1"] assms by simp
    with Some show ?thesis by (cases "rd b left") (simp_all add: partion1_def)
  qed (simp add: partion1_def)
  with assms(1) show ?thesis by (simp add: Fast_sort.simps)
qed

text \<open>the standard quicksort sorts every array when it is given the index of its last element, whatever
  rand() answers, and reads outside the array when it is given an index behind it, as the test's call
  with the number of elements does.\<close>

theorem Fast_sort_sorts:
  "Fast_sort rnd a 0 (int (length a) - 1) = Some (sort a)
   \<and> (if 0 < length a then Fast_sort rnd a 0 (int (length a)) = None else True)"
  using Fast_sort_segment [of "[]" 0 a "int (length a) - 1" rnd "[]"] Fast_sort_outside [of 0 "int (length a)" a rnd] by auto

text \<open>the template quicksort sorts every array that has an element of the same allocation behind it and
  leaves that alone. At the end of the allocation it gives the sorted array or reads behind the end:
  it partitions a segment before it looks whether the segment is empty, and the test's own array does it.\<close>

theorem quickSort_sorts_or_overruns:
  "quickSort (a @ z # rest) (int (length a)) = Some (sort a @ z # rest)
   \<and> quickSort a (int (length a)) \<in> {None, Some (sort a)}
   \<and> quickSort [100, 101, 120, 30] 4 = None"
proof (intro conjI)
  show "quickSort (a @ z # rest) (int (length a)) = Some (sort a @ z # rest)"
    using quickSort_range_total [of "z # rest" "[]" 0 a "int (length a) - 1"] by (simp add: quickSort_def)
  show "quickSort a (int (length a)) \<in> {None, Some (sort a)}"
    using quickSort_range_segment [of "[]" a "[]" 0 "int (length a) - 1"] by (cases "quickSort a (int (length a))") (auto simp: quickSort_def)
  show "quickSort [100, 101, 120, 30] 4 = None"
    by (simp add: quickSort_def quickSort_range.simps template_partition_def partion_loop.simps rd_def wr_def swp_def Let_def)
qed

subsection \<open>Heap sort\<close>

function maxHeapDown_loop :: "int \<Rightarrow> int \<Rightarrow> int \<Rightarrow> int \<Rightarrow> int list \<Rightarrow> int list option" where
  "maxHeapDown_loop c l tmp e a =
     (if l \<le> e then do {
        l \<leftarrow> (if l < e then do { x \<leftarrow> rd a l; y \<leftarrow> rd a (l + 1); Some (if x < y then l + 1 else l) } else Some l);
        x \<leftarrow> rd a l;
        if x \<le> tmp then Some a
        else do {
          a \<leftarrow> wr a c x;
          a \<leftarrow> wr a l tmp;
          maxHeapDown_loop l (2 * l + 1) tmp e a } }
      else Some a)"
  by auto
termination
proof (relation "measure (\<lambda>(c, l, tmp, e, a). nat (e + 1 - l))")
  fix c l tmp e a l' x a' a''
  assume "l \<le> e" "(if l < e then do { x \<leftarrow> rd a l; y \<leftarrow> rd a (l + 1); Some (if x < y then l + 1 else l) } else Some l) = Some l'"
    "rd a l' = Some x"
  then have "l \<le> l'" "0 \<le> l'" by (auto simp: run_simps rd_def split: if_splits)
  with \<open>l \<le> e\<close> show "((l', 2 * l' + 1, tmp, e, a''), c, l, tmp, e, a) \<in> measure (\<lambda>(c, l, tmp, e, a). nat (e + 1 - l))" by simp
qed simp

declare maxHeapDown_loop.simps [simp del]

definition maxHeapDown :: "int list \<Rightarrow> int \<Rightarrow> int \<Rightarrow> int list option" where
  "maxHeapDown a start e = do {
     let c = start;
     let l = 2 * c + 1;
     tmp \<leftarrow> rd a c;
     maxHeapDown_loop c l tmp e a }"

text \<open>The two loops of \<open>heapSortAsc\<close>, \<open>k\<close> rounds from index \<open>k - 1\<close> (\<open>k\<close>) down.\<close>

fun build_heap :: "nat \<Rightarrow> int \<Rightarrow> int list \<Rightarrow> int list option" where
  "build_heap 0 n a = Some a"
| "build_heap (Suc k) n a = do { a \<leftarrow> maxHeapDown a (int k) (n - 1); build_heap k n a }"

fun take_maxima :: "nat \<Rightarrow> int list \<Rightarrow> int list option" where
  "take_maxima 0 a = Some a"
| "take_maxima (Suc k) a = do {
     a \<leftarrow> swp a 0 (int (Suc k));
     a \<leftarrow> maxHeapDown a 0 (int (Suc k) - 1);
     take_maxima k a }"

definition heapSortAsc :: "int list \<Rightarrow> int \<Rightarrow> int list option" where
  "heapSortAsc a n = do { a \<leftarrow> build_heap (nat (n div 2)) n a; take_maxima (nat (n - 1)) a }"

text \<open>The other version works on the length of the global array whatever length it is given.\<close>

function adjustHeap_loop :: "int \<Rightarrow> int \<Rightarrow> int \<Rightarrow> int \<Rightarrow> int list \<Rightarrow> (int \<times> int list) option" where
  "adjustHeap_loop curParent p child len arrs =
     (if child < len then do {
        child \<leftarrow> (if child + 1 < len then do { x \<leftarrow> rd arrs child; y \<leftarrow> rd arrs (child + 1); Some (if x < y then child + 1 else child) }
                  else Some child);
        x \<leftarrow> rd arrs child;
        if curParent < x then do {
          arrs \<leftarrow> wr arrs p x;
          adjustHeap_loop curParent child (2 * child + 1) len arrs }
        else Some (p, arrs) }
      else Some (p, arrs))"
  by auto
termination
proof (relation "measure (\<lambda>(cur, p, child, len, a). nat (len - child))")
  fix cur p child len a child' x a'
  assume "child < len" "(if child + 1 < len then do { x \<leftarrow> rd a child; y \<leftarrow> rd a (child + 1); Some (if x < y then child + 1 else child) }
      else Some child) = Some child'" "rd a child' = Some x"
  then have "child \<le> child'" "0 \<le> child'" by (auto simp: run_simps rd_def split: if_splits)
  with \<open>child < len\<close> show "((cur, child', 2 * child' + 1, len, a'), cur, p, child, len, a) \<in> measure (\<lambda>(cur, p, child, len, a). nat (len - child))"
    by simp
qed simp

declare adjustHeap_loop.simps [simp del]

definition adjustHeap :: "int list \<Rightarrow> int \<Rightarrow> int \<Rightarrow> int list option" where
  "adjustHeap arrs p len = do {
     curParent \<leftarrow> rd arrs p;
     (p, arrs) \<leftarrow> adjustHeap_loop curParent p (2 * p + 1) len arrs;
     wr arrs p curParent }"

fun heap_up :: "nat \<Rightarrow> int \<Rightarrow> int list \<Rightarrow> int list option" where
  "heap_up 0 arrLen a = Some a"
| "heap_up (Suc k) arrLen a = do { a \<leftarrow> adjustHeap a (int k) arrLen; heap_up k arrLen a }"

fun heap_out :: "nat \<Rightarrow> int list \<Rightarrow> int list option" where
  "heap_out 0 a = Some a"
| "heap_out (Suc k) a = do {
     a \<leftarrow> swp a 0 (int k);
     a \<leftarrow> adjustHeap a 0 (int k);
     heap_out k a }"

definition heapSort :: "int \<Rightarrow> int list \<Rightarrow> int \<Rightarrow> int list option" where
  "heapSort arrLen arrs len = do {
     let ilastlevel = arrLen div 2 - 1;
     x \<leftarrow> rd arrs ilastlevel;
     arrs \<leftarrow> heap_up (nat (arrLen div 2)) arrLen arrs;
     heap_out (nat arrLen) arrs }"

text \<open>Heaps, on the indices up to \<open>e\<close> whose parent is at least \<open>s\<close>.\<close>

definition el :: "int list \<Rightarrow> int \<Rightarrow> int" where
  "el a i = a ! nat i"

definition par :: "int \<Rightarrow> int" where
  "par i = (i - 1) div 2"

definition heap :: "int \<Rightarrow> int \<Rightarrow> int list \<Rightarrow> bool" where
  "heap s e a \<longleftrightarrow> (\<forall>i. 0 < i \<and> i \<le> e \<and> s \<le> par i \<longrightarrow> el a i \<le> el a (par i))"

text \<open>A heap but for the node \<open>c\<close>, whose children still fit below its parent.\<close>

definition heap_but :: "int \<Rightarrow> int \<Rightarrow> int \<Rightarrow> int list \<Rightarrow> bool" where
  "heap_but c s e a \<longleftrightarrow> (\<forall>i. 0 < i \<and> i \<le> e \<and> s \<le> par i \<and> par i \<noteq> c \<longrightarrow> el a i \<le> el a (par i))
     \<and> (\<forall>i. 0 < i \<and> i \<le> e \<and> par i = c \<and> 0 < c \<and> s \<le> par c \<longrightarrow> el a i \<le> el a (par c))"

lemma par_children: "0 \<le> c \<Longrightarrow> 0 < i \<Longrightarrow> par i = c \<longleftrightarrow> i = 2 * c + 1 \<or> i = 2 * c + 2"
  by (auto simp: par_def)

lemma par_less: "0 < i \<Longrightarrow> 0 \<le> par i \<and> par i < i"
  by (auto simp: par_def)

definition swapped :: "int \<Rightarrow> int \<Rightarrow> int list \<Rightarrow> int list" where
  "swapped i j a = a[nat i := a ! nat j, nat j := a ! nat i]"

lemma swapped_simps:
  assumes "0 \<le> i" "0 \<le> j" "i < int (length a)" "j < int (length a)"
  shows "mset (swapped i j a) = mset a" "length (swapped i j a) = length a"
    "0 \<le> k \<Longrightarrow> el (swapped i j a) k = (if k = j then el a i else if k = i then el a j else el a k)"
    "i \<le> e \<Longrightarrow> j \<le> e \<Longrightarrow> drop (nat (e + 1)) (swapped i j a) = drop (nat (e + 1)) a"
proof -
  show "mset (swapped i j a) = mset a" unfolding swapped_def
    by (rule mset_swap) (use assms in auto)
  show "0 \<le> k \<Longrightarrow> el (swapped i j a) k = (if k = j then el a i else if k = i then el a j else el a k)"
    using assms by (auto simp: swapped_def el_def nth_list_update)
  show "drop (nat (e + 1)) (swapped i j a) = drop (nat (e + 1)) a" if "i \<le> e" "j \<le> e"
    using assms that by (simp add: swapped_def)
qed (simp add: swapped_def)

lemma sift_swap:
  assumes h: "heap_but c s e a" and c: "0 \<le> s" "s \<le> c" and l: "l = 2 * c + 1 \<or> l = 2 * c + 2" "l \<le> e" "e < int (length a)"
    and big: "\<forall>i. 0 < i \<and> i \<le> e \<and> par i = c \<longrightarrow> el a i \<le> el a l" and up: "el a c < el a l"
  shows "heap_but l s e (swapped c l a)"
proof -
  have bounds: "0 \<le> c" "0 \<le> l" "c < int (length a)" "l < int (length a)" "0 < l" "c \<noteq> l" using c l by auto
  have pl: "par l = c" using par_children [of c l] bounds l(1) by simp
  note sw = swapped_simps(3) [OF bounds(1-4)]
  have h1: "0 < i \<Longrightarrow> i \<le> e \<Longrightarrow> s \<le> par i \<Longrightarrow> par i \<noteq> c \<Longrightarrow> el a i \<le> el a (par i)" for i
    using h unfolding heap_but_def by blast
  have h2: "0 < i \<Longrightarrow> i \<le> e \<Longrightarrow> par i = c \<Longrightarrow> 0 < c \<Longrightarrow> s \<le> par c \<Longrightarrow> el a i \<le> el a (par c)" for i
    using h unfolding heap_but_def by blast
  show ?thesis
    unfolding heap_but_def
  proof (intro conjI allI impI)
    fix i assume i: "0 < i \<and> i \<le> e \<and> s \<le> par i \<and> par i \<noteq> l"
    have p: "0 \<le> par i" "par i < i" using par_less i by auto
    show "el (swapped c l a) i \<le> el (swapped c l a) (par i)"
    proof (cases "par i = c")
      case True
      with i p big up bounds sw show ?thesis by (cases "i = l") auto
    next
      case False
      then have "i \<noteq> l" using pl by auto
      show ?thesis
      proof (cases "i = c")
        case True
        with i h2 [of l] pl l(2) bounds False p sw show ?thesis by auto
      next
        case nc: False
        with \<open>i \<noteq> l\<close> i False p sw h1 [of i] show ?thesis by auto
      qed
    qed
  next
    fix i assume i: "0 < i \<and> i \<le> e \<and> par i = l \<and> 0 < l \<and> s \<le> par l"
    then have "i \<noteq> l" "i \<noteq> c" using par_less [of i] bounds pl par_less [of l] by auto
    moreover have "el a i \<le> el a l" using i h1 [of i] bounds c l(1) by auto
    ultimately show "el (swapped c l a) i \<le> el (swapped c l a) (par l)" using i pl sw bounds by auto
  qed
qed

lemma sift_done:
  assumes "heap_but c s e a" "\<forall>i. 0 < i \<and> i \<le> e \<and> par i = c \<longrightarrow> el a i \<le> el a c"
  shows "heap s e a"
  using assms unfolding heap_but_def heap_def by (metis)

lemma maxHeapDown_loop_sifts:
  assumes "heap_but c s e a" "0 \<le> s" "s \<le> c" "c \<le> e" "e < int (length a)" "l = 2 * c + 1" "tmp = el a c"
  shows "\<exists>b. maxHeapDown_loop c l tmp e a = Some b \<and> heap s e b \<and> mset b = mset a \<and> length b = length a
    \<and> drop (nat (e + 1)) b = drop (nat (e + 1)) a"
  using assms
proof (induction c l tmp e a rule: maxHeapDown_loop.induct)
  case (1 c l tmp e a)
  note P = "1.prems"
  have c0: "0 \<le> c" using P by simp
  have rd: "0 \<le> i \<Longrightarrow> i \<le> e \<Longrightarrow> rd a i = Some (el a i)" for i using P(5) by (simp add: rd_def el_def)
  show ?case
  proof (cases "l \<le> e")
    case False
    have "\<not> (0 < i \<and> i \<le> e \<and> par i = c)" for i using par_children [OF c0, of i] P(6) False by linarith
    then have "\<forall>i. 0 < i \<and> i \<le> e \<and> par i = c \<longrightarrow> el a i \<le> el a c" by blast
    from sift_done [OF P(1) this] False show ?thesis by (simp add: maxHeapDown_loop.simps)
  next
    case le: True
    define l' where "l' = (if l < e \<and> el a l < el a (l + 1) then l + 1 else l)"
    have pick: "(if l < e then do { x \<leftarrow> rd a l; y \<leftarrow> rd a (l + 1); Some (if x < y then l + 1 else l) } else Some l) = Some l'"
      using le P(6) c0 rd [of l] rd [of "l + 1"] by (simp add: l'_def)
    have l': "l' = 2 * c + 1 \<or> l' = 2 * c + 2" "l' \<le> e" "0 \<le> l'" using le P(6) c0 by (auto simp: l'_def)
    have big: "\<forall>i. 0 < i \<and> i \<le> e \<and> par i = c \<longrightarrow> el a i \<le> el a l'"
    proof (intro allI impI)
      fix i assume i: "0 < i \<and> i \<le> e \<and> par i = c"
      then have "i = l \<or> i = l + 1" using par_children [OF c0, of i] P(6) by linarith
      then show "el a i \<le> el a l'" using i by (elim disjE) (simp_all add: l'_def)
    qed
    note x = rd [OF l'(3,2)]
    show ?thesis
    proof (cases "el a l' \<le> tmp")
      case True
      then have "\<forall>i. 0 < i \<and> i \<le> e \<and> par i = c \<longrightarrow> el a i \<le> el a c" using big P(7) by fastforce
      from sift_done [OF P(1) this] True le pick x show ?thesis by (subst maxHeapDown_loop.simps) simp
    next
      case False
      let ?b = "swapped c l' a"
      have bounds: "0 \<le> c" "0 \<le> l'" "c < int (length a)" "l' < int (length a)" using P(4,5) c0 l' by auto
      have w1: "wr a c (el a l') = Some (a[nat c := el a l'])" using bounds by (simp add: wr_def)
      have w2: "wr (a[nat c := el a l']) l' tmp = Some ?b" using bounds P(7) by (simp add: wr_def swapped_def el_def)
      have hb: "heap_but l' s e ?b" by (rule sift_swap [OF P(1-3) l'(1,2) P(5) big]) (use False P(7) in simp)
      have "maxHeapDown_loop c l tmp e a = maxHeapDown_loop l' (2 * l' + 1) tmp e ?b"
        using le pick x False w1 w2 by (subst maxHeapDown_loop.simps) simp
      moreover have "tmp = el ?b l'" using swapped_simps(3) [OF bounds, of l'] bounds(2) P(7) by simp
      moreover have "s \<le> l'" "e < int (length ?b)" using l'(1) P(2,3,5) c0 swapped_simps(2) [OF bounds] by auto
      moreover note "1.IH" [OF le pick x False w1 w2 hb P(2) _ l'(2) _ refl]
      ultimately obtain b where "maxHeapDown_loop c l tmp e a = Some b" "heap s e b" "mset b = mset ?b" "length b = length ?b"
        "drop (nat (e + 1)) b = drop (nat (e + 1)) ?b" by auto
      then show ?thesis using swapped_simps(1,2,4) [OF bounds] P(4) l'(2) by simp
    qed
  qed
qed

lemma maxHeapDown_heap:
  assumes "heap (s + 1) e a" "0 \<le> s" "s \<le> e" "e < int (length a)"
  shows "\<exists>b. maxHeapDown a s e = Some b \<and> heap s e b \<and> mset b = mset a \<and> length b = length a
    \<and> drop (nat (e + 1)) b = drop (nat (e + 1)) a"
proof -
  have "heap_but s s e a"
    unfolding heap_but_def
  proof (intro conjI allI impI)
    fix i assume "0 < i \<and> i \<le> e \<and> s \<le> par i \<and> par i \<noteq> s"
    with assms(1) show "el a i \<le> el a (par i)" by (auto simp: heap_def)
  next
    fix i assume "0 < i \<and> i \<le> e \<and> par i = s \<and> 0 < s \<and> s \<le> par s"
    with par_less [of s] show "el a i \<le> el a (par s)" by auto
  qed
  from maxHeapDown_loop_sifts [OF this assms(2) _ assms(3,4) refl refl] assms(2-4) show ?thesis
    by (simp add: maxHeapDown_def rd_def el_def)
qed

lemma build_heap_heap:
  "heap (int k) (n - 1) a \<Longrightarrow> int k \<le> n - 1 \<Longrightarrow> n \<le> int (length a) \<Longrightarrow>
   \<exists>b. build_heap k n a = Some b \<and> heap 0 (n - 1) b \<and> mset b = mset a \<and> length b = length a"
proof (induction k arbitrary: a)
  case (Suc k)
  then obtain b where b: "maxHeapDown a (int k) (n - 1) = Some b" "heap (int k) (n - 1) b" "mset b = mset a" "length b = length a"
    using maxHeapDown_heap [of "int k" "n - 1" a] by (auto simp: add.commute)
  with Suc.IH [of b] Suc.prems(2,3) show ?case by auto
qed simp

lemma heap_max: "heap 0 e a \<Longrightarrow> 0 \<le> i \<Longrightarrow> i \<le> e \<Longrightarrow> el a i \<le> el a 0"
proof (induction "nat i" arbitrary: i rule: less_induct)
  case less
  show ?case
  proof (cases "i = 0")
    case False
    then have "0 < i" using less.prems by simp
    with less.prems par_less [of i] have "el a i \<le> el a (par i)" by (auto simp: heap_def)
    also have "\<dots> \<le> el a 0" using less.hyps [of "par i"] less.prems par_less [of i] \<open>0 < i\<close> by auto
    finally show ?thesis .
  qed simp
qed

text \<open>Behind index \<open>k\<close> the greatest elements are in order.\<close>

definition tail_sorted :: "nat \<Rightarrow> int list \<Rightarrow> bool" where
  "tail_sorted k a \<longleftrightarrow> sorted (drop (Suc k) a) \<and> (\<forall>x \<in> set (take (Suc k) a). \<forall>y \<in> set (drop (Suc k) a). x \<le> y)"

lemma take_maxima_sorts:
  "heap 0 (int k) a \<Longrightarrow> k < length a \<Longrightarrow> tail_sorted k a \<Longrightarrow> \<exists>b. take_maxima k a = Some b \<and> sorted b \<and> mset b = mset a"
proof (induction k arbitrary: a)
  case 0
  then obtain x xs where "a = x # xs" by (cases a) auto
  with 0 show ?case by (simp add: tail_sorted_def)
next
  case (Suc k)
  let ?e = "int (Suc k)"
  have bounds: "0 \<le> (0 :: int)" "0 \<le> ?e" "0 < int (length a)" "?e < int (length a)" using Suc.prems(2) by auto
  let ?s = "swapped 0 ?e a"
  have sw: "swp a 0 ?e = Some ?s"
    using bounds by (auto simp: swp_def rd_def wr_def swapped_def)
  note ss = swapped_simps [OF bounds]
  have "heap 1 (?e - 1) ?s"
    unfolding heap_def
  proof (intro allI impI)
    fix i assume i: "0 < i \<and> i \<le> ?e - 1 \<and> 1 \<le> par i"
    then have "0 < i" by simp
    note p = par_less [OF this]
    have "el ?s i = el a i" "el ?s (par i) = el a (par i)" using ss(3) [of i] ss(3) [of "par i"] i p by simp_all
    moreover have "el a i \<le> el a (par i)" using Suc.prems(1) i p unfolding heap_def by simp
    ultimately show "el ?s i \<le> el ?s (par i)" by simp
  qed
  then obtain b where b: "maxHeapDown ?s 0 (?e - 1) = Some b" "heap 0 (?e - 1) b" "mset b = mset ?s" "length b = length ?s"
    "drop (Suc k) b = drop (Suc k) ?s"
    using maxHeapDown_heap [of 0 "?e - 1" ?s] bounds ss(2) by (auto simp: nat_add_distrib)
  have k: "Suc k < length a" using Suc.prems(2) .
  have tail: "drop (Suc k) b = a ! 0 # drop (Suc (Suc k)) a"
  proof -
    have "drop (Suc k) ?s = ?s ! Suc k # drop (Suc (Suc k)) ?s" using k ss(2) by (simp add: Cons_nth_drop_Suc)
    moreover have "?s ! Suc k = a ! 0" using ss(3) [of ?e] by (simp add: el_def del: of_nat_Suc)
    moreover have "drop (Suc (Suc k)) ?s = drop (Suc (Suc k)) a" using ss(4) [of ?e] by (simp add: nat_add_distrib)
    ultimately show ?thesis using b(5) by simp
  qed
  have front: "mset (take (Suc k) b) + {# a ! 0 #} = mset (take (Suc (Suc k)) a)"
  proof -
    have "mset (take (Suc k) b) + mset (drop (Suc k) b) = mset (take (Suc (Suc k)) a) + mset (drop (Suc (Suc k)) a)"
      using b(3) ss(1) by (simp flip: mset_append)
    then show ?thesis unfolding tail by simp
  qed
  have "set (take (Suc (Suc k)) a) = insert (a ! 0) (set (take (Suc k) b))"
    using arg_cong [OF front, of set_mset] by (simp del: take_Suc)
  then have sub: "set (take (Suc k) b) \<subseteq> set (take (Suc (Suc k)) a)" "a ! 0 \<in> set (take (Suc (Suc k)) a)" by auto
  have max: "x \<le> a ! 0" if x: "x \<in> set (take (Suc (Suc k)) a)" for x
  proof -
    obtain i where "i < Suc (Suc k)" "x = a ! i" using x by (auto simp: in_set_conv_nth)
    with heap_max [OF Suc.prems(1), of "int i"] show ?thesis by (simp add: el_def)
  qed
  have "tail_sorted k b"
    using Suc.prems(3) sub max unfolding tail_sorted_def tail by auto
  moreover have "heap 0 (int k) b" "k < length b" using b(2,4) ss(2) k by simp_all
  ultimately obtain c where "take_maxima k b = Some c" "sorted c" "mset c = mset b" using Suc.IH [of b] by blast
  with sw b(1,3) ss(1) show ?case by simp
qed

lemma heapSortAsc_sorts:
  assumes "n = int (length a)"
  shows "heapSortAsc a n = Some (sort a)"
proof (cases "n \<le> 1")
  case True
  then have "length a \<le> 1" using assms by simp
  then have "sorted a" by (cases a) simp_all
  then have "sort a = a" by (rule sorted_sort_id)
  moreover have "n = 0 \<or> n = 1" using True assms by linarith
  ultimately show ?thesis by (auto simp: heapSortAsc_def)
next
  case False
  have "heap (int (nat (n div 2))) (n - 1) a" "int (nat (n div 2)) \<le> n - 1" using False by (auto simp: heap_def par_def)
  then obtain b where b: "build_heap (nat (n div 2)) n a = Some b" "heap 0 (n - 1) b" "mset b = mset a" "length b = length a"
    using build_heap_heap [of "nat (n div 2)" n a] assms by auto
  obtain k where k: "length a = Suc k" using False assms by (cases "length a") auto
  have "tail_sorted k b" using b(4) k by (simp add: tail_sorted_def)
  with take_maxima_sorts [of k b] b k assms obtain c where "take_maxima k b = Some c" "sorted c" "mset c = mset a" by auto
  with b(1) k assms show ?thesis by (simp add: heapSortAsc_def properties_for_sort)
qed

text \<open>
  \<open>adjustHeap\<close> lets the sifted element sink as a hole and writes it once at the end; \<open>maxHeapDown\<close> swaps
  it down. Both leave the same array.
\<close>

lemma adjustHeap_loop_hole:
  assumes "0 \<le> p" "p < int (length a)" "len \<le> int (length a)" "child = 2 * p + 1"
  shows "do { (p, a) \<leftarrow> adjustHeap_loop cur p child len a; wr a p cur } = maxHeapDown_loop p child cur (len - 1) (a[nat p := cur])"
  using assms
proof (induction cur p child len a rule: adjustHeap_loop.induct)
  case (1 cur p child len a)
  note P = "1.prems"
  show ?case
  proof (cases "child < len")
    case False
    with P show ?thesis by (simp add: adjustHeap_loop.simps maxHeapDown_loop.simps wr_def)
  next
    case lt: True
    define c where "c = (if child + 1 < len \<and> el a child < el a (child + 1) then child + 1 else child)"
    have rd: "child \<le> i \<Longrightarrow> i < len \<Longrightarrow> rd a i = Some (el a i)" for i using P by (simp add: rd_def el_def)
    have rd': "child \<le> i \<Longrightarrow> i < len \<Longrightarrow> rd (a[nat p := cur]) i = Some (el a i)" for i
      using P by (simp add: rd_def el_def nat_eq_iff)
    have pick: "(if child + 1 < len then do { x \<leftarrow> rd a child; y \<leftarrow> rd a (child + 1); Some (if x < y then child + 1 else child) }
        else Some child) = Some c"
      using lt rd [of child] rd [of "child + 1"] by (simp add: c_def)
    have pick': "(if child < len - 1 then do { x \<leftarrow> rd (a[nat p := cur]) child; y \<leftarrow> rd (a[nat p := cur]) (child + 1);
        Some (if x < y then child + 1 else child) } else Some child) = Some c"
      using lt rd' [of child] rd' [of "child + 1"] by (simp add: c_def)
    have c: "child \<le> c" "c < len" using lt by (auto simp: c_def)
    show ?thesis
    proof (cases "cur < el a c")
      case False
      with lt pick pick' rd [OF c] rd' [OF c] P show ?thesis
        by (subst adjustHeap_loop.simps, subst maxHeapDown_loop.simps) (simp add: wr_def)
    next
      case True
      let ?a = "a[nat p := el a c]"
      have w: "wr a p (el a c) = Some ?a" "wr (a[nat p := cur]) p (el a c) = Some ?a" using P(1,2) by (simp_all add: wr_def)
      have w': "wr ?a c cur = Some (?a[nat c := cur])" using c P by (simp add: wr_def)
      have "adjustHeap_loop cur p child len a = adjustHeap_loop cur c (2 * c + 1) len ?a"
        using lt pick rd [OF c] True w(1) by (subst adjustHeap_loop.simps) simp
      moreover have "maxHeapDown_loop p child cur (len - 1) (a[nat p := cur]) = maxHeapDown_loop c (2 * c + 1) cur (len - 1) (?a[nat c := cur])"
        using lt pick' rd' [OF c] True w(2) w' by (subst maxHeapDown_loop.simps) simp
      moreover have "0 \<le> c" "c < int (length ?a)" "len \<le> int (length ?a)" using c P by auto
      ultimately show ?thesis using "1.IH" [OF lt pick rd [OF c] True w(1)] by simp
    qed
  qed
qed

lemma adjustHeap_maxHeapDown: "0 \<le> p \<Longrightarrow> len \<le> int (length a) \<Longrightarrow> adjustHeap a p len = maxHeapDown a p (len - 1)"
  using adjustHeap_loop_hole [of p a len "2 * p + 1" "a ! nat p"]
  by (auto simp: adjustHeap_def maxHeapDown_def rd_def Let_def)

lemma maxHeapDown_loop_length: "maxHeapDown_loop c l tmp e a = Some b \<Longrightarrow> length b = length a"
proof (induction c l tmp e a rule: maxHeapDown_loop.induct)
  case (1 c l tmp e a)
  show ?case
  proof (cases "l \<le> e")
    case False
    with "1.prems" show ?thesis by (simp add: maxHeapDown_loop.simps)
  next
    case le: True
    let ?pick = "if l < e then do { x \<leftarrow> rd a l; y \<leftarrow> rd a (l + 1); Some (if x < y then l + 1 else l) } else Some l"
    obtain l' where l': "?pick = Some l'"
      using "1.prems" le by (subst (asm) maxHeapDown_loop.simps) (cases ?pick; simp)
    obtain x where x: "rd a l' = Some x"
      using "1.prems" le l' by (subst (asm) maxHeapDown_loop.simps) (cases "rd a l'"; simp)
    note eq = "1.prems" [unfolded maxHeapDown_loop.simps [of c l tmp e a] l' if_P [OF le] Option.bind.bind_lunit x]
    show ?thesis
    proof (cases "x \<le> tmp")
      case True
      with eq show ?thesis by simp
    next
      case False
      with eq obtain a1 a2 where a: "wr a c x = Some a1" "wr a1 l' tmp = Some a2" "maxHeapDown_loop l' (2 * l' + 1) tmp e a2 = Some b"
        by (auto simp: run_simps)
      from "1.IH" [OF le l' x False a] a(1,2) show ?thesis by (auto simp: wr_def split: if_splits)
    qed
  qed
qed

lemma maxHeapDown_length: "maxHeapDown a c e = Some b \<Longrightarrow> length b = length a"
  by (auto simp: maxHeapDown_def run_simps dest: maxHeapDown_loop_length)

lemma heap_up_build: "n = int (length a) \<Longrightarrow> heap_up k n a = build_heap k n a"
proof (induction k arbitrary: a)
  case (Suc k)
  show ?case
  proof (cases "maxHeapDown a (int k) (n - 1)")
    case (Some b)
    with adjustHeap_maxHeapDown [of "int k" n a] Suc.prems Suc.IH [of b] maxHeapDown_length [OF Some] show ?thesis by simp
  qed (use adjustHeap_maxHeapDown [of "int k" n a] Suc.prems in simp)
qed simp

lemma heap_out_maxima: "k < length a \<Longrightarrow> heap_out (Suc k) a = take_maxima k a"
proof (induction k arbitrary: a)
  case 0
  then obtain x xs where "a = x # xs" by (cases a) auto
  then show ?case using adjustHeap_maxHeapDown [of 0 0 a]
    by (simp add: swp_def rd_def wr_def maxHeapDown_def maxHeapDown_loop.simps)
next
  case (Suc k)
  show ?case
  proof (cases "swp a 0 (int (Suc k))")
    case (Some b)
    have len: "length b = length a" using Some by (rule swp_length)
    have *: "adjustHeap b 0 (int (Suc k)) = maxHeapDown b 0 (int (Suc k) - 1)"
      using adjustHeap_maxHeapDown [of 0 "int (Suc k)" b] Suc.prems len by simp
    show ?thesis
    proof (cases "maxHeapDown b 0 (int (Suc k) - 1)")
      case (Some c)
      with * Suc.IH [of c] Suc.prems len maxHeapDown_length [OF Some] \<open>swp a 0 (int (Suc k)) = Some b\<close> show ?thesis
        by (subst heap_out.simps, subst take_maxima.simps) (simp del: heap_out.simps take_maxima.simps of_nat_Suc)
    qed (use * Some in \<open>simp del: of_nat_Suc add: heap_out.simps(2) [of "Suc k"] take_maxima.simps(2) [of k]\<close>)
  qed (simp del: of_nat_Suc add: heap_out.simps(2) [of "Suc k"] take_maxima.simps(2) [of k])
qed

lemma build_heap_length: "build_heap k n a = Some b \<Longrightarrow> length b = length a"
  by (induction k arbitrary: a) (auto simp: run_simps dest: maxHeapDown_length)

lemma heapSort_heapSortAsc:
  assumes "2 \<le> length a"
  shows "heapSort (int (length a)) a len = heapSortAsc a (int (length a))"
proof -
  let ?n = "int (length a)"
  have "heap_up (nat (?n div 2)) ?n a = build_heap (nat (?n div 2)) ?n a" by (rule heap_up_build) simp
  moreover have "\<exists>x. rd a (?n div 2 - 1) = Some x" using assms by (auto simp: rd_def)
  moreover have "heap_out (length a) b = take_maxima (length a - 1) b" if "build_heap (nat (?n div 2)) ?n a = Some b" for b
    using heap_out_maxima [of "length a - 1" b] build_heap_length [OF that] assms by (cases "length a") simp_all
  moreover have "nat (?n - 1) = length a - 1" by simp
  ultimately show ?thesis
    by (cases "build_heap (nat (?n div 2)) ?n a") (auto simp: heapSort_def heapSortAsc_def Let_def simp del: nat_minus_as_int)
qed

text \<open>C28: both heap sorts sort every array of at least two elements; the first reads in front of the array
  when it has fewer, and does not look at the length it is given.\<close>

theorem heap_sorts_sort:
  "heapSortAsc a (int (length a)) = Some (sort a)
   \<and> heapSort (int (length a)) a len = (if 2 \<le> length a then Some (sort a) else None)"
proof (intro conjI)
  show "heapSortAsc a (int (length a)) = Some (sort a)" by (rule heapSortAsc_sorts) simp
  then show "heapSort (int (length a)) a len = (if 2 \<le> length a then Some (sort a) else None)"
    using heapSort_heapSortAsc [of a len] by (auto simp: heapSort_def rd_def Let_def)
qed

subsection \<open>The k least numbers\<close>

text \<open>A multiset ordered by \<open>greater\<close>: its first element is a greatest one.\<close>

fun least_loop :: "int \<Rightarrow> int list \<Rightarrow> int multiset \<Rightarrow> int multiset" where
  "least_loop k [] s = s"
| "least_loop k (x # xs) s =
     (if int (size s) < k then least_loop k xs (add_mset x s)
      else (let greatest = Max_mset s in
        if x < greatest then least_loop k xs (add_mset x (s - {# greatest #})) else least_loop k xs s))"

definition getLeastNumbers :: "int list \<Rightarrow> int \<Rightarrow> int multiset" where
  "getLeastNumbers data k = (if k < 1 \<or> int (length data) < k then {#} else least_loop k data {#})"

definition my :: "int list \<Rightarrow> int \<Rightarrow> int multiset" where
  "my in_source k = (if k < 1 \<or> int (length in_source) < k then {#} else least_loop k in_source {#})"

lemma take_insort:
  "sorted l \<Longrightarrow> k < length l \<Longrightarrow>
   mset (take (Suc k) (insort x l)) = (if x < l ! k then add_mset x (mset (take k l)) else mset (take (Suc k) l))"
proof (induction l arbitrary: k)
  case (Cons y l)
  show ?case
  proof (cases k)
    case (Suc m)
    then have m: "m < length l" using Cons.prems(2) by simp
    show ?thesis
    proof (cases "x \<le> y")
      case True
      then have "x \<le> l ! m" using Cons.prems(1) m by (auto intro: order_trans)
      with True Suc m Cons.prems(1) show ?thesis by (auto simp: take_Suc_conv_app_nth)
    next
      case False
      with Cons.IH [of m] Cons.prems m Suc show ?thesis by (auto simp: add_mset_commute)
    qed
  qed auto
qed simp

lemma greatest_of_take: "sorted l \<Longrightarrow> k < length l \<Longrightarrow> Max (set (take (Suc k) l)) = l ! k"
proof (rule Max_eqI)
  assume l: "sorted l" "k < length l"
  show "l ! k \<in> set (take (Suc k) l)" using l(2) by (simp add: take_Suc_conv_app_nth)
  show "y \<le> l ! k" if "y \<in> set (take (Suc k) l)" for y
    using that l by (auto simp: in_set_conv_nth sorted_iff_nth_mono)
qed simp

lemma least_loop_keeps:
  "0 < k \<Longrightarrow> least_loop (int k) ys (mset (take k (sort xs))) = mset (take k (sort (ys @ xs)))"
proof (induction ys arbitrary: xs)
  case (Cons y ys)
  have s: "sort (y # xs) = insort y (sort xs)" "sort (ys @ y # xs) = sort (y # ys @ xs)"
    by simp (rule properties_for_sort, simp_all add: sorted_insort)
  have IH: "least_loop (int k) ys (mset (take k (insort y (sort xs)))) = mset (take k (sort (y # ys @ xs)))"
    using Cons.IH [OF Cons.prems, of "y # xs"] s by simp
  show ?case
  proof (cases "length xs < k")
    case True
    then have "mset (take k (insort y (sort xs))) = add_mset y (mset (take k (sort xs)))" by simp
    with True IH show ?thesis by simp
  next
    case False
    obtain m where m: "k = Suc m" using Cons.prems by (cases k) auto
    with False have ml: "m < length (sort xs)" by simp
    have g: "Max_mset (mset (take k (sort xs))) = sort xs ! m" using greatest_of_take [OF sorted_sort ml] m by simp
    have "mset (take k (sort xs)) - {# sort xs ! m #} = mset (take m (sort xs))"
      using ml by (simp add: m take_Suc_conv_app_nth)
    with take_insort [OF sorted_sort ml, of y] have
      "(if y < sort xs ! m then add_mset y (mset (take k (sort xs)) - {# sort xs ! m #}) else mset (take k (sort xs)))
        = mset (take k (insort y (sort xs)))" by (simp add: m)
    with IH g False show ?thesis by (auto simp: Let_def)
  qed
qed simp

text \<open>The two functions for the \<open>k\<close> least numbers give the \<open>k\<close> first elements of the sorted input, with
  their multiplicities, and nothing when \<open>k\<close> is not between one and the number of elements.\<close>

theorem least_numbers_are_least:
  "getLeastNumbers data k = (if 1 \<le> k \<and> k \<le> int (length data) then mset (take (nat k) (sort data)) else {#})
   \<and> my data k = getLeastNumbers data k"
  using least_loop_keeps [of "nat k" data "[]"] by (auto simp: getLeastNumbers_def my_def)

subsection \<open>The bit map\<close>

text \<open>
  The vector of ints holds what the constructor leaves there: nothing, as the line that makes room is
  commented out. An index outside the vector is None. \<open>index\<close> is the int of the size_t quotient.
\<close>

type_synonym bits = "32 word list"

definition BitMap_new :: "64 word \<Rightarrow> bits" where
  "BitMap_new range_size = []"

definition bit_index :: "64 word \<Rightarrow> int" where
  "bit_index x = sint (ucast (x div 32) :: 32 word)"

definition BitMap_Set :: "bits \<Rightarrow> 64 word \<Rightarrow> bits option" where
  "BitMap_Set bs x = do {
     let temp = unat (x mod 32);
     w \<leftarrow> rd bs (bit_index x);
     wr bs (bit_index x) (w OR push_bit temp 1) }"

definition BitMap_Reset :: "bits \<Rightarrow> 64 word \<Rightarrow> bits option" where
  "BitMap_Reset bs x = do {
     let temp = unat (x mod 32);
     w \<leftarrow> rd bs (bit_index x);
     wr bs (bit_index x) (w AND NOT (push_bit temp 1)) }"

definition BitMap_Test :: "bits \<Rightarrow> 64 word \<Rightarrow> bool option" where
  "BitMap_Test bs x = do {
     let temp = unat (x mod 32);
     w \<leftarrow> rd bs (bit_index x);
     Some (w AND push_bit temp 1 \<noteq> 0) }"

text \<open>With room for the numbers below \<open>32 * length bs\<close> the vector is the set of them.\<close>

lemma bit_index_eq: "unat x < 32 * n \<Longrightarrow> n \<le> 2 ^ 31 \<Longrightarrow> bit_index x = int (unat x div 32) \<and> unat x div 32 < n"
proof -
  assume x: "unat x < 32 * n" "n \<le> 2 ^ 31"
  then have q: "unat x div 32 < n" by (simp add: less_mult_imp_div_less mult.commute)
  have u: "uint (x div 32) = int (unat x div 32)" by (simp add: uint_div_distrib zdiv_int)
  then have "signed_take_bit 31 (uint (x div 32)) = int (unat x div 32)"
    using q x(2) by (subst signed_take_bit_int_eq_self) simp_all
  with q show ?thesis by (simp add: bit_index_def signed_ucast_eq)
qed

definition bits_at :: "bits \<Rightarrow> nat \<Rightarrow> bool" where
  "bits_at bs i = bit (bs ! (i div 32)) (i mod 32)"

lemma rd_index: "unat x < 32 * length bs \<Longrightarrow> length bs \<le> 2 ^ 31 \<Longrightarrow> rd bs (bit_index x) = Some (bs ! (unat x div 32))"
  using bit_index_eq [of x "length bs"] by (simp add: rd_def)

lemma wr_index: "unat x < 32 * length bs \<Longrightarrow> length bs \<le> 2 ^ 31 \<Longrightarrow> wr bs (bit_index x) w = Some (bs[unat x div 32 := w])"
  using bit_index_eq [of x "length bs"] by (simp add: wr_def)

lemma unat_mod_32: "unat (x mod 32 :: 64 word) = unat x mod 32"
  by (simp add: unat_mod_distrib)

lemma Test_at: "unat x < 32 * length bs \<Longrightarrow> length bs \<le> 2 ^ 31 \<Longrightarrow> BitMap_Test bs x = Some (bits_at bs (unat x))"
  by (simp add: BitMap_Test_def rd_index unat_mod_32 bits_at_def bit_iff_and_push_bit_not_eq_0)

lemma index_pair: "(i :: nat) = j \<longleftrightarrow> i div 32 = j div 32 \<and> i mod 32 = j mod 32"
  by (metis div_mult_mod_eq)

lemma Set_at:
  assumes "unat x < 32 * length bs" "length bs \<le> 2 ^ 31"
  shows "\<exists>bs'. BitMap_Set bs x = Some bs' \<and> length bs' = length bs
    \<and> (\<forall>j < 32 * length bs. bits_at bs' j \<longleftrightarrow> j = unat x \<or> bits_at bs j)"
  using rd_index [OF assms] wr_index [OF assms] conjunct2 [OF bit_index_eq [OF assms]]
  by (auto simp: BitMap_Set_def unat_mod_32 bits_at_def nth_list_update bit_simps index_pair [of _ "unat x"])

lemma Reset_at:
  assumes "unat x < 32 * length bs" "length bs \<le> 2 ^ 31"
  shows "\<exists>bs'. BitMap_Reset bs x = Some bs' \<and> length bs' = length bs
    \<and> (\<forall>j < 32 * length bs. bits_at bs' j \<longleftrightarrow> j \<noteq> unat x \<and> bits_at bs j)"
  using rd_index [OF assms] wr_index [OF assms] conjunct2 [OF bit_index_eq [OF assms]]
  by (auto simp: BitMap_Reset_def unat_mod_32 bits_at_def nth_list_update bit_simps index_pair [of _ "unat x"])

text \<open>A bit map over a vector with room answers as a set of numbers: Set adds its number, Reset takes it
  out, every other number stays. As it is constructed it has no room, and every call goes outside the vector.\<close>

theorem BitMap_as_a_set:
  assumes "unat x < 32 * length bs" "unat y < 32 * length bs" "length bs \<le> 2 ^ 31"
  shows "do { bs \<leftarrow> BitMap_Set bs x; BitMap_Test bs y } = (if y = x then Some True else BitMap_Test bs y)
    \<and> do { bs \<leftarrow> BitMap_Reset bs x; BitMap_Test bs y } = (if y = x then Some False else BitMap_Test bs y)
    \<and> BitMap_Set (BitMap_new n) x = None \<and> BitMap_Reset (BitMap_new n) x = None \<and> BitMap_Test (BitMap_new n) x = None"
proof -
  obtain b1 b2 where b: "BitMap_Set bs x = Some b1" "length b1 = length bs" "bits_at b1 (unat y) \<longleftrightarrow> y = x \<or> bits_at bs (unat y)"
    "BitMap_Reset bs x = Some b2" "length b2 = length bs" "bits_at b2 (unat y) \<longleftrightarrow> y \<noteq> x \<and> bits_at bs (unat y)"
    using Set_at [OF assms(1,3)] Reset_at [OF assms(1,3)] assms(2) by (auto simp: word_unat_eq_iff)
  then show ?thesis
    using assms Test_at [of y b1] Test_at [of y b2] Test_at [of y bs]
    by (simp add: BitMap_new_def BitMap_Set_def [of "[]"] BitMap_Reset_def [of "[]"] BitMap_Test_def [of "[]"] rd_def)
qed

theorem BitMap_as_a_set_witness:
  "do { bs \<leftarrow> BitMap_Set [0, 0, 0, 0, 0] 136; BitMap_Test bs 136 } = Some True"
  using BitMap_as_a_set [of 136 "[0, 0, 0, 0, 0]" 136] by simp

end
