(* ===== verification/Calendar_Date.thy ===== *)
theory Calendar_Date
  imports Prelude
begin

text \<open>
  muduo/base/Date.h and Date.cc: dates of the Gregorian calendar as Julian day numbers. The
  arithmetic is that of C's int, with division towards zero; for the years from -4799 to 1400000 no intermediate result
  leaves 32 bits (\<open>julian_fits\<close>), so the model computes with unbounded ints. The specification is the calendar: the months' lengths,
  the leap years and \<open>next_day\<close>.
\<close>

definition getJulianDayNumber :: "int \<Rightarrow> int \<Rightarrow> int \<Rightarrow> int" where
  "getJulianDayNumber year month day =
     (let a = (14 - month) sdiv 12;
          y = year + 4800 - a;
          m = month + 12 * a - 3
      in day + (153 * m + 2) sdiv 5 + y * 365 + y sdiv 4 - y sdiv 100 + y sdiv 400 - 32045)"

record YearMonthDay =
  ymd_year :: int
  ymd_month :: int
  ymd_day :: int

definition getYearMonthDay :: "int \<Rightarrow> YearMonthDay" where
  "getYearMonthDay julianDayNumber =
     (let a = julianDayNumber + 32044;
          b = (4 * a + 3) sdiv 146097;
          c = a - (b * 146097) sdiv 4;
          d = (4 * c + 3) sdiv 1461;
          e = c - (1461 * d) sdiv 4;
          m = (5 * e + 2) sdiv 153
      in \<lparr>ymd_year = b * 100 + d - 4800 + m sdiv 10, ymd_month = m + 3 - 12 * (m sdiv 10),
          ymd_day = e - (153 * m + 2) sdiv 5 + 1\<rparr>)"

definition kJulianDayOf1970_01_01 :: int where
  "kJulianDayOf1970_01_01 = getJulianDayNumber 1970 1 1"

definition kDaysPerWeek :: int where "kDaysPerWeek = 7"

record Date =
  julianDayNumber :: int

definition new_Date :: Date where
  "new_Date = \<lparr>julianDayNumber = 0\<rparr>"

definition Date_of :: "int \<Rightarrow> int \<Rightarrow> int \<Rightarrow> Date" where
  "Date_of y m d = \<lparr>julianDayNumber = getJulianDayNumber y m d\<rparr>"

definition Date_number :: "int \<Rightarrow> Date" where
  "Date_number julianDayNum = \<lparr>julianDayNumber = julianDayNum\<rparr>"

definition Date_valid :: "Date \<Rightarrow> bool" where
  "Date_valid dt \<longleftrightarrow> julianDayNumber dt > 0"

definition yearMonthDay :: "Date \<Rightarrow> YearMonthDay" where
  "yearMonthDay dt = getYearMonthDay (julianDayNumber dt)"

definition weekDay :: "Date \<Rightarrow> int" where
  "weekDay dt = (julianDayNumber dt + 1) smod kDaysPerWeek"

text \<open>\<open>%4d\<close> and \<open>%02d\<close>.\<close>

definition pad :: "nat \<Rightarrow> string \<Rightarrow> string" where
  "pad w s = replicate (w - length s) (CHR '' '') @ s"

definition fmt02 :: "int \<Rightarrow> string" where
  "fmt02 n = (if n < 0 then CHR ''-'' # pad0 1 (dec_nat (nat (- n))) else pad0 2 (dec_nat (nat n)))"

definition toIsoString :: "Date \<Rightarrow> string" where
  "toIsoString dt = (let ymd = yearMonthDay dt in take 31
     (pad 4 (dec_int (ymd_year ymd)) @ ''-'' @ fmt02 (ymd_month ymd) @ ''-'' @ fmt02 (ymd_day ymd)))"

subsection \<open>The calendar\<close>

definition leap :: "int \<Rightarrow> bool" where
  "leap y \<longleftrightarrow> 4 dvd y \<and> (\<not> 100 dvd y \<or> 400 dvd y)"

definition days_in_month :: "int \<Rightarrow> int \<Rightarrow> int" where
  "days_in_month y m = (if m = 2 then (if leap y then 29 else 28) else if m \<in> {4, 6, 9, 11} then 30 else 31)"

definition valid_date :: "int \<Rightarrow> int \<Rightarrow> int \<Rightarrow> bool" where
  "valid_date y m d \<longleftrightarrow> 1 \<le> m \<and> m \<le> 12 \<and> 1 \<le> d \<and> d \<le> days_in_month y m"

definition next_day :: "int \<times> int \<times> int \<Rightarrow> int \<times> int \<times> int" where
  "next_day = (\<lambda>(y, m, d). if d < days_in_month y m then (y, m, d + 1)
     else if m < 12 then (y, m + 1, 1) else (y + 1, 1, 1))"

subsection \<open>Division of what is not negative\<close>

lemma sdiv_nonneg: "0 \<le> (a :: int) \<Longrightarrow> 0 < b \<Longrightarrow> a sdiv b = a div b"
  by (simp add: signed_divide_int_def sgn_if)

lemma smod_nonneg: "0 \<le> (a :: int) \<Longrightarrow> 0 < b \<Longrightarrow> a smod b = a mod b"
  by (cases "a = 0") (simp_all add: signed_modulo_int_def)

lemma div_is: "0 < (b :: int) \<Longrightarrow> b * q \<le> a \<Longrightarrow> a < b * q + b \<Longrightarrow> a div b = q"
  by (rule int_div_pos_eq [of a b q "a - b * q"]) auto

text \<open>The years and months counted from March: year \<open>y\<close> is the one whose February ends it.\<close>

definition march_year :: "int \<Rightarrow> int \<Rightarrow> int" where
  "march_year y m = (if m \<le> 2 then y + 4799 else y + 4800)"

definition march_month :: "int \<Rightarrow> int" where
  "march_month m = (if m \<le> 2 then m + 9 else m - 3)"

definition months_before :: "int \<Rightarrow> int" where
  "months_before m = (153 * m + 2) div 5"

definition leap_days :: "int \<Rightarrow> int" where
  "leap_days y = y div 4 - y div 100 + y div 400"

definition years_before :: "int \<Rightarrow> int" where
  "years_before y = 365 * y + leap_days y"

lemma getJulianDayNumber_eq:
  assumes "valid_date y m d" "- 4799 \<le> y"
  shows "getJulianDayNumber y m d = d + months_before (march_month m) + years_before (march_year y m) - 32045"
proof -
  have m: "1 \<le> m" "m \<le> 12" using assms(1) by (auto simp: valid_date_def)
  have a: "(14 - m) sdiv 12 = (if m \<le> 2 then 1 else 0)"
    using m by (simp add: sdiv_nonneg div_is)
  have ym: "y + 4800 - (if m \<le> 2 then 1 else 0) = march_year y m" "m + 12 * (if m \<le> 2 then 1 else 0) - 3 = march_month m"
    by (simp_all add: march_year_def march_month_def)
  have nonneg: "0 \<le> march_year y m" "0 \<le> 153 * march_month m + 2"
    using m assms(2) by (simp_all add: march_year_def march_month_def)
  have S: "(153 * march_month m + 2) sdiv 5 = months_before (march_month m)"
    "march_year y m sdiv 4 = march_year y m div 4" "march_year y m sdiv 100 = march_year y m div 100"
    "march_year y m sdiv 400 = march_year y m div 400"
    unfolding months_before_def by (rule sdiv_nonneg; use nonneg in simp)+
  show ?thesis
    unfolding getJulianDayNumber_def Let_def a ym S years_before_def leap_days_def by (simp only: algebra_simps)
qed

text \<open>A day of the march year.\<close>

lemma twelve_months: "valid_date y m d \<Longrightarrow> m \<in> {1, 2, 3, 4, 5, 6, 7, 8, 9, 10, 11, 12}"
  unfolding valid_date_def by (clarsimp, arith)

lemma leap_shift: "leap (y + 4800) = leap y" "leap (4800 + y) = leap y"
proof -
  have "(4 :: int) dvd y + 4800 \<longleftrightarrow> 4 dvd y" "(100 :: int) dvd y + 4800 \<longleftrightarrow> 100 dvd y" "(400 :: int) dvd y + 4800 \<longleftrightarrow> 400 dvd y"
    by (rule dvd_add_left_iff, simp)+
  then show "leap (y + 4800) = leap y" "leap (4800 + y) = leap y" by (simp_all add: leap_def add.commute)
qed

lemma month_table:
  assumes "valid_date y m d"
  shows "0 \<le> march_month m" "march_month m \<le> 11" "0 \<le> months_before (march_month m)"
    "m = 2 \<and> months_before (march_month m) = 337 \<or> m \<noteq> 2 \<and> days_in_month y m + months_before (march_month m) \<le> 337"
    "153 * march_month m \<le> 5 * months_before (march_month m) + 2"
    "m \<noteq> 2 \<longrightarrow> 5 * (days_in_month y m + months_before (march_month m)) < 153 * march_month m + 156"
  using twelve_months [OF assms]
  by (elim insertE emptyE; simp add: days_in_month_def months_before_def march_month_def)+

lemma day_of_year:
  assumes "valid_date y m d"
  defines "k \<equiv> d - 1 + months_before (march_month m)"
  shows "0 \<le> k" "k \<le> 364 \<or> k = 365 \<and> leap (march_year y m + 1)" "(5 * k + 2) div 153 = march_month m"
proof -
  have d: "1 \<le> d" "d \<le> days_in_month y m" using assms(1) by (simp_all add: valid_date_def)
  note t = month_table [OF assms(1)]
  show "0 \<le> k" using t(3) d(1) by (simp add: k_def)
  have m2: "m = 2 \<Longrightarrow> march_month m = 11 \<and> months_before (march_month m) = 337 \<and> march_year y m + 1 = y + 4800"
    by (simp add: march_month_def months_before_def march_year_def)
  show "k \<le> 364 \<or> k = 365 \<and> leap (march_year y m + 1)"
    using t(4) d m2 by (cases "m = 2") (auto simp: k_def days_in_month_def leap_shift split: if_splits)
  show "(5 * k + 2) div 153 = march_month m"
    using t(5,6) d m2 by (intro div_is; cases "m = 2") (auto simp: k_def days_in_month_def split: if_splits)
qed

text \<open>Its place in the century, and in the four years of a leap cycle.\<close>

lemma century_of_day:
  assumes y: "0 \<le> y" and k: "0 \<le> k" "k \<le> 364 \<or> k = 365 \<and> leap (y + 1)"
  defines "a \<equiv> years_before y + k"
  defines "b \<equiv> (4 * a + 3) div 146097"
  defines "c \<equiv> a - (b * 146097) div 4"
  defines "d \<equiv> (4 * c + 3) div 1461"
  shows "0 \<le> a \<and> b * 100 + d = y \<and> 0 \<le> b \<and> 0 \<le> c \<and> 0 \<le> d \<and> c - (1461 * d) div 4 = k"
proof -
  define q where "q = y div 100"
  define r where "r = y mod 100"
  have yq: "y = 100 * q + r" "0 \<le> r" "r < 100" "0 \<le> q" using y by (simp_all add: q_def r_def)
  define s where "s = r div 4"
  define t where "t = q div 4"
  have s: "4 * s \<le> r" "r < 4 * s + 4" "0 \<le> s" and t: "4 * t \<le> q" "q < 4 * t + 4" "0 \<le> t"
    using yq by (simp_all add: s_def t_def; linarith)+
  have parts: "y div 4 = 25 * q + s" "y div 100 = q" "y div 400 = t"
    using yq s t by (auto intro!: div_is)
  have leap: "leap (y + 1) \<Longrightarrow> r = 4 * s + 3 \<and> (r = 99 \<longrightarrow> q = 4 * t + 3)"
  proof -
    assume l: "leap (y + 1)"
    then obtain u where u: "y + 1 = 4 * u" by (auto simp: leap_def)
    then have "u - 25 * q - s = 1" using yq(1) s by linarith
    then have "r = 4 * s + 3" using u yq(1) by linarith
    moreover have "q = 4 * t + 3" if "r = 99"
    proof -
      have "y + 1 = 100 * (q + 1)" using that yq(1) by simp
      then have "100 dvd y + 1" by (metis dvd_triv_left)
      with l have "400 dvd y + 1" by (simp add: leap_def)
      then obtain v where v: "y + 1 = 400 * v" by auto
      then have "v = t + 1" using that yq(1) t by linarith
      then show ?thesis using v that yq(1) by linarith
    qed
    ultimately show ?thesis by simp
  qed
  have a: "a = 36524 * q + t + 365 * r + s + k" using parts yq(1) by (simp add: a_def years_before_def leap_days_def)
  have k': "k \<le> 364 \<or> k = 365 \<and> r = 4 * s + 3 \<and> (r = 99 \<longrightarrow> q = 4 * t + 3)" using k(2) leap by auto
  have s24: "s \<le> 24" "r = 4 * s + 3 \<Longrightarrow> r = 99 \<or> s \<le> 23" using s yq(3) by linarith+
  have b: "b = q" unfolding b_def a
  proof (rule div_is)
    show "146097 * q \<le> 4 * (36524 * q + t + 365 * r + s + k) + 3" using t(2) yq(2) s(3) k(1) by auto
    show "4 * (36524 * q + t + 365 * r + s + k) + 3 < 146097 * q + 146097"
      using k'
    proof
      assume "k \<le> 364"
      then show ?thesis using t(1) yq(3) s24(1) by auto
    next
      assume "k = 365 \<and> r = 4 * s + 3 \<and> (r = 99 \<longrightarrow> q = 4 * t + 3)"
      then show ?thesis using t(1) s24 by (cases "r = 99") auto
    qed
  qed simp
  have "(q * 146097) div 4 = 36524 * q + t" using t by (intro div_is) auto
  then have c: "c = 365 * r + s + k" unfolding c_def b a by simp
  have d: "d = r" unfolding d_def c using k(1) k' s by (intro div_is) auto
  have "(1461 * r) div 4 = 365 * r + s" using s by (intro div_is) auto
  then show ?thesis using b c d a yq s t k(1) by simp
qed

lemma valid_march_year: "valid_date y m d \<Longrightarrow> - 4799 \<le> y \<Longrightarrow> 0 \<le> march_year y m"
  by (auto simp: march_year_def)

lemma getYearMonthDay_inverts:
  assumes "valid_date y m d" "- 4799 \<le> y"
  shows "getYearMonthDay (getJulianDayNumber y m d) = \<lparr>ymd_year = y, ymd_month = m, ymd_day = d\<rparr>"
proof -
  define k where "k = d - 1 + months_before (march_month m)"
  let ?y = "march_year y m"
  have y: "0 \<le> ?y" using assms by (auto simp: march_year_def)
  note doy = day_of_year [OF assms(1), folded k_def]
  define a where "a = years_before ?y + k"
  define b where "b = (4 * a + 3) div 146097"
  define c where "c = a - (b * 146097) div 4"
  define e where "e = (4 * c + 3) div 1461"
  have C: "0 \<le> a" "b * 100 + e = ?y" "0 \<le> b" "0 \<le> c" "0 \<le> e" "c - (1461 * e) div 4 = k"
    using century_of_day [OF y doy(1,2), folded a_def, folded b_def, folded c_def, folded e_def] by simp_all
  have n: "getJulianDayNumber y m d + 32044 = a"
    using getJulianDayNumber_eq [OF assms] by (simp add: a_def k_def)
  have S: "(4 * a + 3) sdiv 146097 = b" "(b * 146097) sdiv 4 = (b * 146097) div 4" "(4 * c + 3) sdiv 1461 = e"
    "(1461 * e) sdiv 4 = (1461 * e) div 4" "(5 * k + 2) sdiv 153 = march_month m"
    "(153 * march_month m + 2) sdiv 5 = months_before (march_month m)" "march_month m sdiv 10 = march_month m div 10"
    unfolding b_def e_def months_before_def doy(3) [symmetric, folded k_def]
    by (rule sdiv_nonneg; use C doy(1) month_table(1) [OF assms(1)] in \<open>simp add: doy(3)\<close>)+
  have "getYearMonthDay (getJulianDayNumber y m d) =
      \<lparr>ymd_year = b * 100 + e - 4800 + march_month m div 10, ymd_month = march_month m + 3 - 12 * (march_month m div 10),
       ymd_day = k - months_before (march_month m) + 1\<rparr>"
    unfolding getYearMonthDay_def Let_def n S(1,2) c_def [symmetric] S(3,4) C(6) S(5,6,7) by simp
  moreover have "march_month m div 10 = (if m \<le> 2 then 1 else 0)"
    using assms(1) by (auto simp: march_month_def valid_date_def intro!: div_is)
  ultimately show ?thesis
    using C(2) by (auto simp: k_def march_month_def march_year_def)
qed

lemma leap_days_grow:
  assumes "0 \<le> y"
  shows "leap_days (y + 1) = leap_days y + (if leap (y + 1) then 1 else 0)"
proof -
  have g: "(y + 1) div n = y div n + (if n dvd y + 1 then 1 else 0)" if "0 < n" for n :: int
  proof -
    define q where "q = y div n"
    define r where "r = y mod n"
    have y: "y = n * q + r" "0 \<le> r" "r < n" using that by (simp_all add: q_def r_def)
    show ?thesis
    proof (cases "r + 1 = n")
      case True
      then have "y + 1 = n * (q + 1)" using y(1) by (simp add: algebra_simps)
      then show ?thesis using that by (simp add: q_def)
    next
      case False
      then have "(y + 1) div n = q" "(y + 1) mod n = r + 1" using y by (auto simp: add.assoc intro!: div_is)
      then show ?thesis using y(2) by (auto simp: q_def dvd_eq_mod_eq_0)
    qed
  qed
  have d: "100 dvd y + 1 \<Longrightarrow> 4 dvd y + 1" "400 dvd y + 1 \<Longrightarrow> 100 dvd y + 1"
    using dvd_trans [of 4 100 "y + 1"] dvd_trans [of 100 400 "y + 1"] by simp_all
  show ?thesis
    using d by (cases "4 dvd y + 1"; cases "100 dvd y + 1"; cases "400 dvd y + 1") (simp_all add: g leap_def leap_days_def)
qed

lemma years_before_step: "0 \<le> y \<Longrightarrow> years_before (y + 1) = years_before y + 365 + (if leap (y + 1) then 1 else 0)"
  using leap_days_grow [of y] by (simp add: years_before_def)

lemma next_day_valid:
  assumes "valid_date y m d" "next_day (y, m, d) = (y', m', d')"
  shows "valid_date y' m' d' \<and> y \<le> y'"
  using assms by (auto simp: next_day_def valid_date_def days_in_month_def split: if_splits)

lemma next_day_number:
  assumes v: "valid_date y m d" and y: "- 4799 \<le> y" and n: "next_day (y, m, d) = (y', m', d')"
  shows "getJulianDayNumber y' m' d' = getJulianDayNumber y m d + 1"
proof -
  have v': "valid_date y' m' d'" "- 4799 \<le> y'" using next_day_valid [OF v n] y by simp_all
  note eq = getJulianDayNumber_eq [OF v y] getJulianDayNumber_eq [OF v']
  show ?thesis
  proof (cases "d < days_in_month y m")
    case True
    with n eq show ?thesis by (simp add: next_day_def)
  next
    case False
    then have d: "d = days_in_month y m" using v by (simp add: valid_date_def)
    have step: "march_year y 3 = march_year y 2 + 1" "0 \<le> march_year y 2" using y by (simp_all add: march_year_def)
    have leap: "leap (march_year y 2 + 1) = leap y" by (simp add: march_year_def leap_shift)
    have "months_before (march_month m') + years_before (march_year y' m')
        = d + months_before (march_month m) + years_before (march_year y m)"
    proof (cases "m = 2")
      case True
      then have "y' = y" "m' = 3" using n False by (simp_all add: next_day_def)
      then show ?thesis unfolding d True
        using years_before_step [OF step(2)] leap step(1)
        by (simp add: days_in_month_def months_before_def march_month_def)
    next
      case m2: False
      have "months_before (march_month m') = d + months_before (march_month m) \<and> march_year y' m' = march_year y m"
        using twelve_months [OF v] n False m2 unfolding d
        by (elim insertE emptyE) (auto simp: next_day_def days_in_month_def months_before_def march_month_def march_year_def)
      then show ?thesis by simp
    qed
    moreover have "d' = 1" using n False by (auto simp: next_day_def split: if_splits)
    ultimately show ?thesis using eq by simp
  qed
qed

lemma julian_fits:
  assumes "valid_date y m d" "- 4799 \<le> y" "y \<le> 1400000"
  defines "a \<equiv> getJulianDayNumber y m d + 32044"
  shows "0 \<le> a \<and> 4 * a + 3 < 2 ^ 31 \<and> (y + 4800) * 365 < 2 ^ 31"
proof -
  let ?y = "march_year y m" and ?k = "d - 1 + months_before (march_month m)"
  have y: "0 \<le> ?y" "?y \<le> 1404800" using assms(2,3) by (auto simp: march_year_def)
  have k: "0 \<le> ?k" "?k \<le> 365" using day_of_year(1,2) [OF assms(1)] by auto
  have q: "0 \<le> leap_days ?y \<and> leap_days ?y \<le> ?y"
  proof -
    obtain u v w where uvw: "u = ?y div 400" "v = ?y div 100" "w = ?y div 4" by blast
    with y(1) have "0 \<le> u" "u \<le> v" "v \<le> w" "w \<le> ?y"
      using zdiv_mono2 [of ?y 100 400] zdiv_mono2 [of ?y 4 100] zdiv_mono2 [of ?y 1 4] by (simp_all add: pos_imp_zdiv_nonneg_iff)
    moreover have "leap_days ?y = w - v + u" by (simp only: leap_days_def uvw)
    ultimately show ?thesis by linarith
  qed
  have "a = ?k + years_before ?y" using getJulianDayNumber_eq [OF assms(1,2)] by (simp add: a_def)
  then show ?thesis using y k q assms(3) unfolding years_before_def by simp
qed

text \<open>From any day the calendar reaches every later number.\<close>

lemma date_of_number:
  assumes "getJulianDayNumber (- 4799) 1 1 \<le> j"
  shows "\<exists>y m d. valid_date y m d \<and> - 4799 \<le> y \<and> getJulianDayNumber y m d = j"
  using assms
proof (induction j rule: int_ge_induct)
  case base
  show ?case by (intro exI [of _ "- 4799"] exI [of _ 1]) (simp add: valid_date_def days_in_month_def)
next
  case (step j)
  then obtain y m d where "valid_date y m d" "- 4799 \<le> y" "getJulianDayNumber y m d = j" by blast
  with next_day_valid [OF this(1)] next_day_number [OF this(1,2)] show ?case
    by (cases "next_day (y, m, d)") (metis order_trans)
qed

lemma first_number: "getJulianDayNumber (- 4799) 1 1 = - 31738"
  by (simp add: getJulianDayNumber_def sdiv_nonneg Let_def)

lemma getJulianDayNumber_inverts:
  assumes "- 31738 \<le> j"
  shows "\<exists>y m d. getYearMonthDay j = \<lparr>ymd_year = y, ymd_month = m, ymd_day = d\<rparr> \<and> valid_date y m d
    \<and> - 4799 \<le> y \<and> getJulianDayNumber y m d = j"
  using date_of_number [of j] assms first_number getYearMonthDay_inverts by metis

text \<open>C29: the Julian day number is the calendar's: it grows by one from each day to the next over month ends and
  leap days, is 2440588 on the Thursday 1 January 1970, and so counts the days.\<close>

theorem julian_number_counts_days:
  assumes "valid_date y m d" "- 4799 \<le> y"
  shows "(case next_day (y, m, d) of (y', m', d') \<Rightarrow> valid_date y' m' d' \<and> julianDayNumber (Date_of y' m' d') = julianDayNumber (Date_of y m d) + 1)
    \<and> kJulianDayOf1970_01_01 = 2440588 \<and> weekDay (Date_of 1970 1 1) = 4"
  using next_day_valid [OF assms(1)] next_day_number [OF assms]
  by (cases "next_day (y, m, d)")
    (auto simp: Date_of_def kJulianDayOf1970_01_01_def getJulianDayNumber_def Let_def sdiv_nonneg smod_nonneg weekDay_def kDaysPerWeek_def)

theorem julian_number_counts_days_witness:
  "julianDayNumber (Date_of 2000 2 29) = julianDayNumber (Date_of 2000 2 28) + 1"
  using julian_number_counts_days [of 2000 2 28] by (simp add: valid_date_def days_in_month_def next_day_def leap_def)

text \<open>a date and its Julian day number determine each other: the year, month and day of the number of a valid
  date are that date, and every number from 1 January -4799 on is the number of the valid date it reads as.\<close>

theorem date_roundtrip:
  "(valid_date y m d \<longrightarrow> - 4799 \<le> y \<longrightarrow> yearMonthDay (Date_of y m d) = \<lparr>ymd_year = y, ymd_month = m, ymd_day = d\<rparr>)
   \<and> (- 31738 \<le> j \<longrightarrow> (let ymd = yearMonthDay (Date_number j) in
        valid_date (ymd_year ymd) (ymd_month ymd) (ymd_day ymd)
        \<and> Date_of (ymd_year ymd) (ymd_month ymd) (ymd_day ymd) = Date_number j))"
  using getYearMonthDay_inverts [of y m d] getJulianDayNumber_inverts [of j]
  by (auto simp: yearMonthDay_def Date_of_def Date_number_def)

theorem date_roundtrip_witness:
  "yearMonthDay (Date_of 1900 2 28) = \<lparr>ymd_year = 1900, ymd_month = 2, ymd_day = 28\<rparr>
   \<and> (let ymd = yearMonthDay (Date_number 2440588) in
        Date_of (ymd_year ymd) (ymd_month ymd) (ymd_day ymd) = Date_number 2440588)"
  using date_roundtrip [of 1900 2 28 2440588] by (simp add: valid_date_def days_in_month_def leap_def Let_def)

end
