(* ===== verification/Time_Zone.thy ===== *)
theory Time_Zone
  imports Calendar_Date Endian
begin

text \<open>
  muduo/base/TimeZone.h and TimeZone.cc: broken-down time in UTC and in time zones, and the reader of zone
  files. time_t is 64 bits wide and never near its limits here, an int; the casts to int keep 32 bits.
  gmtime_r and timegm of the C library compute the same calendar, so the class's own toUtcTime and
  fromUtcTime, which its comments name as their replacements, stand for them. None is undefined behaviour
  or a failing assertion. A thrown logic_error is None in the readers of one item, and caught by the caller.
\<close>

subsection \<open>Universal time\<close>

record tm =
  tm_sec :: int
  tm_min :: int
  tm_hour :: int
  tm_mday :: int
  tm_mon :: int
  tm_year :: int
  tm_wday :: int
  tm_yday :: int
  tm_isdst :: bool
  tm_gmtoff :: int
  tm_zone :: string

definition tm_zeroed :: tm where
  "tm_zeroed = \<lparr>tm_sec = 0, tm_min = 0, tm_hour = 0, tm_mday = 0, tm_mon = 0, tm_year = 0, tm_wday = 0, tm_yday = 0,
     tm_isdst = False, tm_gmtoff = 0, tm_zone = []\<rparr>"

definition kSecondsPerDay :: int where "kSecondsPerDay = 24 * 60 * 60"

definition fillHMS :: "int \<Rightarrow> tm \<Rightarrow> tm" where
  "fillHMS seconds utc =
     (let minutes = seconds div 60
      in utc\<lparr>tm_sec := seconds mod 60, tm_min := minutes mod 60, tm_hour := minutes div 60\<rparr>)"

definition to_int :: "int \<Rightarrow> int" where
  "to_int t = signed_take_bit 31 t"

definition toUtcTime :: "int \<Rightarrow> bool \<Rightarrow> tm" where
  "toUtcTime secondsSinceEpoch yday =
     (let utc = tm_zeroed\<lparr>tm_zone := ''GMT''\<rparr>;
          seconds = to_int (secondsSinceEpoch smod kSecondsPerDay);
          days = to_int (secondsSinceEpoch sdiv kSecondsPerDay);
          (seconds, days) = (if seconds < 0 then (seconds + kSecondsPerDay, days - 1) else (seconds, days));
          utc = fillHMS seconds utc;
          date = Date_number (days + kJulianDayOf1970_01_01);
          ymd = yearMonthDay date;
          utc = utc\<lparr>tm_year := ymd_year ymd - 1900, tm_mon := ymd_month ymd - 1, tm_mday := ymd_day ymd,
                    tm_wday := weekDay date\<rparr>
      in if yday then utc\<lparr>tm_yday := julianDayNumber date - julianDayNumber (Date_of (ymd_year ymd) 1 1)\<rparr> else utc)"

definition fromUtcTime_of :: "int \<Rightarrow> int \<Rightarrow> int \<Rightarrow> int \<Rightarrow> int \<Rightarrow> int \<Rightarrow> int" where
  "fromUtcTime_of year month day hour minute seconds =
     (let date = Date_of year month day;
          secondsInDay = hour * 3600 + minute * 60 + seconds;
          days = julianDayNumber date - kJulianDayOf1970_01_01
      in days * kSecondsPerDay + secondsInDay)"

definition fromUtcTime :: "tm \<Rightarrow> int" where
  "fromUtcTime utc = fromUtcTime_of (tm_year utc + 1900) (tm_mon utc + 1) (tm_mday utc) (tm_hour utc) (tm_min utc) (tm_sec utc)"

definition gmtime_r :: "int \<Rightarrow> tm" where
  "gmtime_r t = toUtcTime t True"

definition timegm :: "tm \<Rightarrow> int" where
  "timegm t = fromUtcTime t"

text \<open>The times the casts and the calendar bear: from the Julian day 0, in the year -4713, to the year 1370000.\<close>

definition time_ok :: "int \<Rightarrow> bool" where
  "time_ok t \<longleftrightarrow> - 2440588 * kSecondsPerDay \<le> t \<and> t < 500000000 * kSecondsPerDay"

lemma split_days:
  assumes "time_ok t"
  defines "s \<equiv> to_int (t smod kSecondsPerDay)" and "d \<equiv> to_int (t sdiv kSecondsPerDay)"
  shows "(if s < 0 then (s + kSecondsPerDay, d - 1) else (s, d)) = (t mod kSecondsPerDay, t div kSecondsPerDay)"
proof -
  have k: "kSecondsPerDay = 86400" by (simp add: kSecondsPerDay_def)
  have fit: "to_int x = x" if "- (2 ^ 31) \<le> x" "x < 2 ^ 31" for x
    using that by (simp add: to_int_def signed_take_bit_int_eq_self)
  show ?thesis
  proof (cases "0 \<le> t")
    case True
    then have "t sdiv 86400 = t div 86400" "t smod 86400 = t mod 86400" by (simp_all add: sdiv_nonneg smod_nonneg)
    moreover have "t div 86400 < 2 ^ 31" "0 \<le> t div 86400" using assms(1) True by (simp_all add: time_ok_def k)
    ultimately show ?thesis by (simp add: s_def d_def k fit)
  next
    case False
    define q where "q = - t div 86400"
    define r where "r = - t mod 86400"
    have t: "t = - (86400 * q + r)" "0 \<le> r" "r < 86400" "0 \<le> q" using False by (simp_all add: q_def r_def pos_imp_zdiv_nonneg_iff)
    have "t sdiv 86400 = - q" "t smod 86400 = - r" using False
      by (simp_all add: signed_divide_int_def signed_modulo_int_def q_def r_def)
    moreover have "q \<le> 2440588" using assms(1) t by (simp add: time_ok_def k)
    ultimately have sd: "s = - r" "d = - q" using t by (simp_all add: s_def d_def k fit)
    show ?thesis
    proof (cases "r = 0")
      case True
      with t(1) sd show ?thesis by (simp add: k)
    next
      case False
      then have "t div 86400 = - q - 1" using t by (intro div_is) auto
      moreover from this have "t mod 86400 = 86400 - r" using t(1) by (simp add: minus_div_mult_eq_mod [symmetric])
      ultimately show ?thesis using sd False t(2) by (simp add: k)
    qed
  qed
qed

definition utc_fields_ok :: "tm \<Rightarrow> bool" where
  "utc_fields_ok u \<longleftrightarrow> 0 \<le> tm_sec u \<and> tm_sec u < 60 \<and> 0 \<le> tm_min u \<and> tm_min u < 60 \<and> 0 \<le> tm_hour u \<and> tm_hour u < 24
     \<and> valid_date (tm_year u + 1900) (tm_mon u + 1) (tm_mday u) \<and> 0 \<le> tm_wday u \<and> tm_wday u < 7"

lemma hms:
  assumes "0 \<le> s" "s < (86400 :: int)"
  shows "s div 60 div 60 * 3600 + s div 60 mod 60 * 60 + s mod 60 = s \<and> s div 60 div 60 < 24 \<and> 0 \<le> s div 60 div 60"
proof -
  have "60 * (s div 60) + s mod 60 = s" "60 * (s div 60 div 60) + s div 60 mod 60 = s div 60" by (rule mult_div_mod_eq)+
  moreover have "0 \<le> s div 60" using assms(1) by (simp add: pos_imp_zdiv_nonneg_iff)
  then have "0 \<le> s div 60 div 60" by (simp add: pos_imp_zdiv_nonneg_iff)
  moreover have "0 \<le> s mod 60" "0 \<le> s div 60 mod 60" by simp_all
  ultimately show ?thesis using assms(2) by linarith
qed

lemma day_bound: "time_ok t \<Longrightarrow> - 2440588 \<le> t div kSecondsPerDay"
proof -
  assume "time_ok t"
  then have "- 2440588 * kSecondsPerDay \<le> t" by (simp add: time_ok_def)
  then have "(- 2440588 * kSecondsPerDay) div kSecondsPerDay \<le> t div kSecondsPerDay"
    by (rule zdiv_mono1) (simp add: kSecondsPerDay_def)
  then show ?thesis by (simp add: kSecondsPerDay_def)
qed

lemma toUtcTime_fields:
  assumes "time_ok t"
  shows "tm_sec (toUtcTime t yday) = t mod kSecondsPerDay mod 60" "tm_min (toUtcTime t yday) = t mod kSecondsPerDay div 60 mod 60"
    "tm_hour (toUtcTime t yday) = t mod kSecondsPerDay div 60 div 60"
    "\<exists>y m d. valid_date y m d \<and> getJulianDayNumber y m d = t div kSecondsPerDay + kJulianDayOf1970_01_01 \<and> - 4799 \<le> y
       \<and> tm_year (toUtcTime t yday) = y - 1900 \<and> tm_mon (toUtcTime t yday) = m - 1 \<and> tm_mday (toUtcTime t yday) = d"
    "tm_wday (toUtcTime t yday) = weekDay (Date_number (t div kSecondsPerDay + kJulianDayOf1970_01_01))"
    "tm_yday (toUtcTime t True) = t div kSecondsPerDay + kJulianDayOf1970_01_01 - getJulianDayNumber (tm_year (toUtcTime t True) + 1900) 1 1"
proof -
  note sp = split_days [OF assms]
  have k: "kSecondsPerDay = 86400" by (simp add: kSecondsPerDay_def)
  have e: "kJulianDayOf1970_01_01 = 2440588" by (simp add: kJulianDayOf1970_01_01_def getJulianDayNumber_def sdiv_nonneg Let_def)
  have "- 31738 \<le> t div kSecondsPerDay + kJulianDayOf1970_01_01" using day_bound [OF assms] by (simp add: e)
  from getJulianDayNumber_inverts [OF this] obtain y m d where
    "getYearMonthDay (t div kSecondsPerDay + kJulianDayOf1970_01_01) = \<lparr>ymd_year = y, ymd_month = m, ymd_day = d\<rparr>"
    "valid_date y m d" "- 4799 \<le> y" "getJulianDayNumber y m d = t div kSecondsPerDay + kJulianDayOf1970_01_01" by blast
  then show "\<exists>y m d. valid_date y m d \<and> getJulianDayNumber y m d = t div kSecondsPerDay + kJulianDayOf1970_01_01 \<and> - 4799 \<le> y
       \<and> tm_year (toUtcTime t yday) = y - 1900 \<and> tm_mon (toUtcTime t yday) = m - 1 \<and> tm_mday (toUtcTime t yday) = d"
    unfolding toUtcTime_def Let_def sp prod.case
    by (intro exI [of _ y] exI [of _ m] exI [of _ d]) (simp add: yearMonthDay_def Date_number_def)
qed (simp_all add: toUtcTime_def Let_def split_days [OF assms] fillHMS_def tm_zeroed_def Date_of_def Date_number_def)

lemma weekDay_range: "0 \<le> julianDayNumber dt + 1 \<Longrightarrow> 0 \<le> weekDay dt \<and> weekDay dt < 7"
  by (simp add: weekDay_def kDaysPerWeek_def smod_nonneg)

lemma utc_roundtrip_fields:
  assumes "time_ok t"
  shows "fromUtcTime (toUtcTime t yday) = t \<and> utc_fields_ok (toUtcTime t yday)"
proof -
  obtain y m d where ymd: "valid_date y m d" "getJulianDayNumber y m d = t div kSecondsPerDay + kJulianDayOf1970_01_01"
    "tm_year (toUtcTime t yday) = y - 1900" "tm_mon (toUtcTime t yday) = m - 1" "tm_mday (toUtcTime t yday) = d"
    using toUtcTime_fields(4) [OF assms] by blast
  have k: "kSecondsPerDay = 86400" by (simp add: kSecondsPerDay_def)
  have e: "kJulianDayOf1970_01_01 = 2440588" by (simp add: kJulianDayOf1970_01_01_def getJulianDayNumber_def sdiv_nonneg Let_def)
  have wd: "0 \<le> weekDay (Date_number (t div kSecondsPerDay + kJulianDayOf1970_01_01))
      \<and> weekDay (Date_number (t div kSecondsPerDay + kJulianDayOf1970_01_01)) < 7"
    by (rule weekDay_range) (use day_bound [OF assms] in \<open>simp add: Date_number_def e\<close>)
  have s: "0 \<le> t mod 86400" "t mod 86400 < 86400" by simp_all
  note h = hms [OF s]
  have "fromUtcTime (toUtcTime t yday) = t"
    using ymd(2) h by (simp add: fromUtcTime_def fromUtcTime_of_def Let_def ymd(3-5) Date_of_def toUtcTime_fields(1-3) [OF assms] k)
  moreover have "utc_fields_ok (toUtcTime t yday)"
    using ymd(1) wd h by (simp add: utc_fields_ok_def ymd(3-5) toUtcTime_fields(1-3,5) [OF assms] k)
  ultimately show ?thesis ..
qed

text \<open>C30: breaking a time down to year, month, day, hour, minute and second of UTC and putting it together again gives
  the time back, and the fields are those of a valid date, an hour below 24, a minute and a second below 60
  and a weekday from 0 to 6, before the epoch too.\<close>

theorem utc_roundtrip:
  assumes "time_ok t"
  shows "fromUtcTime (toUtcTime t yday) = t \<and> utc_fields_ok (toUtcTime t yday)"
  using assms by (rule utc_roundtrip_fields)

theorem utc_roundtrip_witness: "fromUtcTime (toUtcTime (- 1) True) = - 1 \<and> utc_fields_ok (toUtcTime (- 1) True)"
  using utc_roundtrip [of "- 1" True] by (simp add: time_ok_def kSecondsPerDay_def)

subsection \<open>Zones\<close>

record Transition =
  gmttime :: int
  localtime :: int
  localtimeIdx :: nat

record Localtime =
  gmtOffset :: int
  isDst :: bool
  arrbIdx :: nat

record zone_data =
  transitions :: "Transition list"
  localtimes :: "Localtime list"
  zone_abbrev :: string

definition no_data :: zone_data where
  "no_data = \<lparr>transitions = [], localtimes = [], zone_abbrev = []\<rparr>"

text \<open>\<open>Comp\<close>: which of the two times is compared.\<close>

definition key :: "bool \<Rightarrow> Transition \<Rightarrow> int" where
  "key compareGmt x = (if compareGmt then gmttime x else localtime x)"

definition comp_less :: "bool \<Rightarrow> Transition \<Rightarrow> Transition \<Rightarrow> bool" where
  "comp_less compareGmt lhs rhs \<longleftrightarrow> key compareGmt lhs < key compareGmt rhs"

definition comp_equal :: "bool \<Rightarrow> Transition \<Rightarrow> Transition \<Rightarrow> bool" where
  "comp_equal compareGmt lhs rhs \<longleftrightarrow> key compareGmt lhs = key compareGmt rhs"

text \<open>\<open>lower_bound\<close> on the vector: the index of the first transition that is not less, what it gives on a sorted one.\<close>

definition lower_bound :: "bool \<Rightarrow> Transition list \<Rightarrow> Transition \<Rightarrow> nat" where
  "lower_bound compareGmt ts sentry = length (takeWhile (\<lambda>x. comp_less compareGmt x sentry) ts)"

definition local_at :: "zone_data \<Rightarrow> nat \<Rightarrow> Localtime option" where
  "local_at data i = (if i < length (localtimes data) then Some (localtimes data ! i) else None)"

definition findLocaltime :: "zone_data \<Rightarrow> Transition \<Rightarrow> bool \<Rightarrow> Localtime option" where
  "findLocaltime data sentry compareGmt =
     (let ts = transitions data in
      if ts = [] \<or> comp_less compareGmt sentry (hd ts) then local_at data 0
      else let transI = lower_bound compareGmt ts sentry in
        if transI \<noteq> length ts then
          (if \<not> comp_equal compareGmt sentry (ts ! transI)
           then do { require (transI \<noteq> 0); local_at data (localtimeIdx (ts ! (transI - 1))) }
           else local_at data (localtimeIdx (ts ! transI)))
        else local_at data (localtimeIdx (last ts)))"

text \<open>A TimeZone is its \<open>data_\<close>, None a null pointer.\<close>

type_synonym time_zone = "zone_data option"

definition TimeZone_fixed :: "int \<Rightarrow> string \<Rightarrow> time_zone" where
  "TimeZone_fixed eastOfUtc name =
     Some (no_data\<lparr>localtimes := [\<lparr>gmtOffset = eastOfUtc, isDst = False, arrbIdx = 0\<rparr>], zone_abbrev := name\<rparr>)"

definition zone_valid :: "time_zone \<Rightarrow> bool" where
  "zone_valid z \<longleftrightarrow> z \<noteq> None"

definition toLocalTime :: "time_zone \<Rightarrow> int \<Rightarrow> tm option" where
  "toLocalTime z seconds = do {
     data \<leftarrow> z;
     let sentry = \<lparr>gmttime = seconds, localtime = 0, localtimeIdx = 0\<rparr>;
     local \<leftarrow> findLocaltime data sentry True;
     let localSeconds = seconds + gmtOffset local;
     let localTime = gmtime_r localSeconds;
     require (arrbIdx local \<le> length (zone_abbrev data));
     Some (localTime\<lparr>tm_isdst := isDst local, tm_gmtoff := gmtOffset local,
       tm_zone := takeWhile (\<lambda>c. c \<noteq> CHR 0x00) (drop (arrbIdx local) (zone_abbrev data))\<rparr>) }"

definition fromLocalTime :: "time_zone \<Rightarrow> tm \<Rightarrow> int option" where
  "fromLocalTime z localTm = do {
     data \<leftarrow> z;
     let seconds = timegm localTm;
     let sentry = \<lparr>gmttime = 0, localtime = seconds, localtimeIdx = 0\<rparr>;
     local \<leftarrow> findLocaltime data sentry False;
     seconds \<leftarrow> (if tm_isdst localTm then do {
         tryTm \<leftarrow> toLocalTime z (seconds - gmtOffset local);
         Some (if \<not> tm_isdst tryTm \<and> tm_hour tryTm = tm_hour localTm \<and> tm_min tryTm = tm_min localTm
               then seconds - 3600 else seconds) }
       else Some seconds);
     Some (seconds - gmtOffset local) }"

text \<open>Which transition is in force: the last one not after the time.\<close>

definition in_force :: "zone_data \<Rightarrow> bool \<Rightarrow> int \<Rightarrow> nat" where
  "in_force data compareGmt t =
     (let past = filter (\<lambda>x. key compareGmt x \<le> t) (transitions data)
      in if past = [] then 0 else localtimeIdx (last past))"

lemma sorted_key_cut:
  "sorted_wrt (\<lambda>x y. key g x < key g y) ts \<Longrightarrow>
   filter (\<lambda>x. key g x \<le> t) ts = takeWhile (\<lambda>x. key g x < t) ts @ takeWhile (\<lambda>x. key g x = t) (dropWhile (\<lambda>x. key g x < t) ts)"
proof (induction ts)
  case (Cons x ts)
  have rest: "t \<le> key g x \<Longrightarrow> filter (\<lambda>x. key g x \<le> t) ts = []" "t \<le> key g x \<Longrightarrow> takeWhile (\<lambda>x. key g x = t) ts = []"
    using Cons.prems by (auto simp: filter_empty_conv takeWhile_eq_Nil_iff dest!: hd_in_set)
  with Cons show ?case by (cases "key g x < t") auto
qed simp

lemma takeWhile_index:
  "length (takeWhile P ts) < length ts \<Longrightarrow> dropWhile P ts = ts ! length (takeWhile P ts) # drop (Suc (length (takeWhile P ts))) ts"
  by (simp add: dropWhile_eq_drop Cons_nth_drop_Suc)

lemma findLocaltime_in_force:
  assumes "sorted_wrt (\<lambda>x y. key g x < key g y) (transitions data)" "key g sentry = t"
  shows "findLocaltime data sentry g = local_at data (in_force data g t)"
proof -
  let ?ts = "transitions data"
  let ?n = "length (takeWhile (\<lambda>x. key g x < t) ?ts)"
  note cut = sorted_key_cut [OF assms(1), of t]
  have lb: "lower_bound g ?ts sentry = ?n" by (simp add: lower_bound_def comp_less_def assms(2))
  show ?thesis
  proof (cases "?ts = [] \<or> t < key g (hd ?ts)")
    case True
    then have "filter (\<lambda>x. key g x \<le> t) ?ts = []"
      using assms(1) by (cases ?ts) (auto simp: filter_empty_conv)
    with True show ?thesis by (auto simp: findLocaltime_def Let_def comp_less_def assms(2) in_force_def Let_def)
  next
    case F: False
    show ?thesis
    proof (cases "?n = length ?ts")
      case True
      then have "takeWhile (\<lambda>x. key g x < t) ?ts = ?ts" using takeWhile_dropWhile_id [of "\<lambda>x. key g x < t" ?ts] by (metis append_eq_conv_conj append_Nil2 take_all_iff order_refl)
      then have "filter (\<lambda>x. key g x \<le> t) ?ts = ?ts" using cut by (metis append_Nil2 dropWhile_eq_self_iff takeWhile.simps(1) takeWhile_dropWhile_id append_self_conv)
      with True F lb show ?thesis
        by (cases ?ts) (auto simp: findLocaltime_def Let_def comp_less_def assms(2) in_force_def Let_def)
    next
      case False
      then have n: "?n < length ?ts" by (metis length_takeWhile_le le_neq_implies_less)
      note d = takeWhile_index [OF n]
      show ?thesis
      proof (cases "key g (?ts ! ?n) = t")
        case True
        have "takeWhile (\<lambda>x. key g x = t) (dropWhile (\<lambda>x. key g x < t) ?ts) = [?ts ! ?n]"
        proof -
          have "dropWhile (\<lambda>x. key g x < t) ?ts = drop ?n ?ts" by (rule dropWhile_eq_drop)
          then have "sorted_wrt (\<lambda>x y. key g x < key g y) (?ts ! ?n # drop (Suc ?n) ?ts)"
            using assms(1) d by (metis sorted_wrt_drop)
          then show ?thesis unfolding d using True by (cases "drop (Suc ?n) ?ts") auto
        qed
        with True F lb n cut show ?thesis
          by (auto simp: findLocaltime_def Let_def comp_less_def comp_equal_def assms(2) in_force_def Let_def)
      next
        case ne: False
        then have e: "filter (\<lambda>x. key g x \<le> t) ?ts = takeWhile (\<lambda>x. key g x < t) ?ts" using cut d by simp
        have "?n \<noteq> 0" using F ne n nth_length_takeWhile [OF n]
          by (cases ?ts) (auto split: if_splits)
        then have "last (takeWhile (\<lambda>x. key g x < t) ?ts) = ?ts ! (?n - 1)"
          by (simp add: last_conv_nth takeWhile_nth)
        with ne F lb n e \<open>?n \<noteq> 0\<close> show ?thesis
          by (auto simp: findLocaltime_def Let_def comp_less_def comp_equal_def assms(2) in_force_def Let_def)
      qed
    qed
  qed
qed

text \<open>In a zone whose transitions are in order the local time is that of the last transition not after the given
  time, and that of the first local time before them all.\<close>

theorem local_time_in_force:
  assumes "sorted_wrt (\<lambda>x y. gmttime x < gmttime y) (transitions data)"
  shows "findLocaltime data \<lparr>gmttime = t, localtime = 0, localtimeIdx = 0\<rparr> True = local_at data (in_force data True t)"
  using findLocaltime_in_force [of True data "\<lparr>gmttime = t, localtime = 0, localtimeIdx = 0\<rparr>" t] assms by (simp add: key_def)

lemma fixed_zone_local: "findLocaltime (the (TimeZone_fixed east name)) sentry g = Some \<lparr>gmtOffset = east, isDst = False, arrbIdx = 0\<rparr>"
  by (simp add: findLocaltime_def TimeZone_fixed_def no_data_def local_at_def)

text \<open>In a zone of fixed offset, breaking a time down to local time and putting it together again gives the time
  back, and the local clock is the UTC clock moved by the offset.\<close>

theorem fixed_zone_roundtrip:
  assumes "time_ok (t + east)"
  shows "do { lt \<leftarrow> toLocalTime (TimeZone_fixed east name) t; fromLocalTime (TimeZone_fixed east name) lt } = Some t
    \<and> (case toLocalTime (TimeZone_fixed east name) t of None \<Rightarrow> False | Some lt \<Rightarrow> timegm lt = t + east \<and> \<not> tm_isdst lt)"
proof -
  have rt: "fromUtcTime (toUtcTime (t + east) True) = t + east" using utc_roundtrip_fields [OF assms, of True] by simp
  let ?data = "the (TimeZone_fixed east name)"
  let ?lt = "(gmtime_r (t + east))\<lparr>tm_isdst := False, tm_gmtoff := east,
       tm_zone := takeWhile (\<lambda>c. c \<noteq> CHR 0x00) (zone_abbrev ?data)\<rparr>"
  have z: "TimeZone_fixed east name = Some ?data" by (simp add: TimeZone_fixed_def)
  have l: "toLocalTime (TimeZone_fixed east name) t = Some ?lt"
    using fixed_zone_local [of east name] by (subst z) (simp add: toLocalTime_def Let_def)
  have g: "timegm ?lt = t + east" using rt by (simp add: timegm_def gmtime_r_def fromUtcTime_def)
  have "fromLocalTime (TimeZone_fixed east name) ?lt = Some t"
    using fixed_zone_local [of east name] g by (subst z) (simp add: fromLocalTime_def Let_def)
  with l g show ?thesis by simp
qed

theorem fixed_zone_roundtrip_witness:
  "do { lt \<leftarrow> toLocalTime (TimeZone_fixed 28800 ''CST'') 0; fromLocalTime (TimeZone_fixed 28800 ''CST'') lt } = Some 0"
  using fixed_zone_roundtrip [of 0 28800 "''CST''"] by (simp add: time_ok_def kSecondsPerDay_def)

subsection \<open>Zone files\<close>

text \<open>The readers of \<open>File\<close>: what is read, and the rest of the file.\<close>

definition readBytes :: "nat \<Rightarrow> byte list \<Rightarrow> (byte list \<times> byte list) option" where
  "readBytes n f = (if length f < n then None else Some (take n f, drop n f))"

definition tz_readInt32 :: "byte list \<Rightarrow> (int \<times> byte list) option" where
  "tz_readInt32 f = (if length f < 4 then None else Some (sint (networkToHost32 (load (take 4 f))), drop 4 f))"

definition readUInt8 :: "byte list \<Rightarrow> (nat \<times> byte list) option" where
  "readUInt8 f = (case f of [] \<Rightarrow> None | b # f \<Rightarrow> Some (unat b, f))"

fun read_int32s :: "nat \<Rightarrow> byte list \<Rightarrow> (int list \<times> byte list) option" where
  "read_int32s 0 f = Some ([], f)"
| "read_int32s (Suc n) f = do { (x, f) \<leftarrow> tz_readInt32 f; (xs, f) \<leftarrow> read_int32s n f; Some (x # xs, f) }"

fun read_uint8s :: "nat \<Rightarrow> byte list \<Rightarrow> (nat list \<times> byte list) option" where
  "read_uint8s 0 f = Some ([], f)"
| "read_uint8s (Suc n) f = do { (x, f) \<leftarrow> readUInt8 f; (xs, f) \<leftarrow> read_uint8s n f; Some (x # xs, f) }"

definition read_localtime :: "byte list \<Rightarrow> (Localtime \<times> byte list) option" where
  "read_localtime f = do {
     (gmtoff, f) \<leftarrow> tz_readInt32 f;
     (isdst, f) \<leftarrow> readUInt8 f;
     (abbrind, f) \<leftarrow> readUInt8 f;
     Some (\<lparr>gmtOffset = gmtoff, isDst = isdst \<noteq> 0, arrbIdx = abbrind\<rparr>, f) }"

text \<open>The local times read before an exception stay in \<open>data\<close>.\<close>

fun read_localtimes :: "nat \<Rightarrow> byte list \<Rightarrow> zone_data \<Rightarrow> zone_data \<times> byte list option" where
  "read_localtimes 0 f data = (data, Some f)"
| "read_localtimes (Suc n) f data = (case read_localtime f of
     None \<Rightarrow> (data, None)
   | Some (l, f) \<Rightarrow> read_localtimes n f (data\<lparr>localtimes := localtimes data @ [l]\<rparr>))"

text \<open>The header and the transitions: the number of local times, of name bytes, the times and their indices. A negative
  count makes \<open>reserve\<close> throw, which is a logic_error too.\<close>

definition read_head :: "byte list \<Rightarrow> (int \<times> int \<times> int list \<times> nat list \<times> byte list) option" where
  "read_head f = do {
     (head, f) \<leftarrow> readBytes 4 f;
     require (head = map byte_of_char ''TZif'');
     (version, f) \<leftarrow> readBytes 1 f;
     (reserved, f) \<leftarrow> readBytes 15 f;
     (isgmtcnt, f) \<leftarrow> tz_readInt32 f;
     (isstdcnt, f) \<leftarrow> tz_readInt32 f;
     (leapcnt, f) \<leftarrow> tz_readInt32 f;
     (timecnt, f) \<leftarrow> tz_readInt32 f;
     (typecnt, f) \<leftarrow> tz_readInt32 f;
     (charcnt, f) \<leftarrow> tz_readInt32 f;
     require (0 \<le> timecnt);
     (gmts, f) \<leftarrow> read_int32s (nat timecnt) f;
     (idxs, f) \<leftarrow> read_uint8s (nat timecnt) f;
     Some (typecnt, charcnt, gmts, idxs, f) }"

fun add_transitions :: "(int \<times> nat) list \<Rightarrow> zone_data \<Rightarrow> zone_data option" where
  "add_transitions [] data = Some data"
| "add_transitions ((t, localIdx) # ts) data = do {
     l \<leftarrow> local_at data localIdx;
     add_transitions ts (data\<lparr>transitions := transitions data @
       [\<lparr>gmttime = t, localtime = t + gmtOffset l, localtimeIdx = localIdx\<rparr>]\<rparr>) }"

definition readTimeZoneFile :: "byte list option \<Rightarrow> zone_data \<Rightarrow> (bool \<times> zone_data) option" where
  "readTimeZoneFile file data = (case file of
     None \<Rightarrow> Some (True, data)
   | Some f \<Rightarrow> (case read_head f of
       None \<Rightarrow> Some (True, data)
     | Some (typecnt, charcnt, gmts, idxs, f) \<Rightarrow> (case read_localtimes (nat typecnt) f data of
         (data, None) \<Rightarrow> Some (True, data)
       | (data, Some f) \<Rightarrow> do {
           data \<leftarrow> add_transitions (zip gmts idxs) data;
           require (0 \<le> charcnt);
           (case readBytes (nat charcnt) f of
              None \<Rightarrow> Some (True, data)
            | Some (names, f) \<Rightarrow> Some (True, data\<lparr>zone_abbrev := map char_of_byte names\<rparr>)) })))"

definition TimeZone_file :: "byte list option \<Rightarrow> time_zone option" where
  "TimeZone_file zonefile = do {
     (ok, data) \<leftarrow> readTimeZoneFile zonefile no_data;
     Some (if ok then Some data else None) }"

text \<open>How a zone file is written: the specification of the reader.\<close>

definition be32 :: "int \<Rightarrow> byte list" where
  "be32 x = big_endian 4 (word_of_int x :: u32)"

definition local_bytes :: "Localtime \<Rightarrow> byte list" where
  "local_bytes l = be32 (gmtOffset l) @ [if isDst l then 1 else 0, of_nat (arrbIdx l)]"

definition zone_file :: "byte list \<Rightarrow> (int \<times> nat) list \<Rightarrow> Localtime list \<Rightarrow> string \<Rightarrow> byte list \<Rightarrow> byte list" where
  "zone_file version ts ls names others =
     map byte_of_char ''TZif'' @ version @ be32 0 @ be32 0 @ be32 0
     @ be32 (int (length ts)) @ be32 (int (length ls)) @ be32 (int (length names))
     @ concat (map (\<lambda>(t, i). be32 t) ts) @ map (\<lambda>(t, i). of_nat i) ts @ concat (map local_bytes ls)
     @ map byte_of_char names @ others"

definition int32 :: "int \<Rightarrow> bool" where
  "int32 x \<longleftrightarrow> - (2 ^ 31) \<le> x \<and> x < 2 ^ 31"

definition zone_ok :: "(int \<times> nat) list \<Rightarrow> Localtime list \<Rightarrow> string \<Rightarrow> bool" where
  "zone_ok ts ls names \<longleftrightarrow> list_all (\<lambda>(t, i). int32 t \<and> i < length ls) ts
     \<and> list_all (\<lambda>l. int32 (gmtOffset l) \<and> arrbIdx l < 256) ls
     \<and> length ts < 2 ^ 31 \<and> length ls \<le> 256 \<and> length names < 2 ^ 31"

definition zone_of :: "(int \<times> nat) list \<Rightarrow> Localtime list \<Rightarrow> string \<Rightarrow> zone_data" where
  "zone_of ts ls names = \<lparr>transitions = map (\<lambda>(t, i). \<lparr>gmttime = t, localtime = t + gmtOffset (ls ! i), localtimeIdx = i\<rparr>) ts,
     localtimes = ls, zone_abbrev = names\<rparr>"

lemma length_be32 [simp]: "length (be32 x) = 4"
  by (simp add: be32_def)

lemma tz_readInt32_be32 [simp]: "int32 x \<Longrightarrow> tz_readInt32 (be32 x @ f) = Some (x, f)"
  by (simp add: tz_readInt32_def be32_def int32_def signed_of_int signed_take_bit_int_eq_self)

lemma readBytes_at: "length a = n \<Longrightarrow> readBytes n (a @ f) = Some (a, f)"
  by (simp add: readBytes_def)

lemma read_int32s_bytes: "list_all (\<lambda>(t, i). int32 t \<and> i < n) ts \<Longrightarrow>
   read_int32s (length ts) (concat (map (\<lambda>(t, i). be32 t) ts) @ f) = Some (map fst ts, f)"
  by (induction ts) auto

lemma unat_byte: "n < 256 \<Longrightarrow> unat (of_nat n :: byte) = n"
  by (simp add: unsigned_of_nat take_bit_nat_eq_self)

lemma read_uint8s_bytes: "list_all (\<lambda>(t, i). int32 t \<and> i < n) ts \<Longrightarrow> n \<le> 256 \<Longrightarrow>
   read_uint8s (length ts) (map (\<lambda>(t, i). of_nat i) ts @ f) = Some (map snd ts, f)"
  by (induction ts) (auto simp: readUInt8_def unat_byte)

lemma read_localtime_bytes: "int32 (gmtOffset l) \<Longrightarrow> arrbIdx l < 256 \<Longrightarrow> read_localtime (local_bytes l @ f) = Some (l, f)"
  by (simp add: read_localtime_def local_bytes_def readUInt8_def unat_byte)

lemma read_localtimes_bytes: "list_all (\<lambda>l. int32 (gmtOffset l) \<and> arrbIdx l < 256) ls \<Longrightarrow>
   read_localtimes (length ls) (concat (map local_bytes ls) @ f) data = (data\<lparr>localtimes := localtimes data @ ls\<rparr>, Some f)"
  by (induction ls arbitrary: data) (auto simp: read_localtime_bytes)

lemma add_transitions_all: "list_all (\<lambda>(t, i). int32 t \<and> i < length (localtimes data)) ts \<Longrightarrow>
   add_transitions ts data = Some (data\<lparr>transitions := transitions data
     @ map (\<lambda>(t, i). \<lparr>gmttime = t, localtime = t + gmtOffset (localtimes data ! i), localtimeIdx = i\<rparr>) ts\<rparr>)"
  by (induction ts arbitrary: data) (auto simp: local_at_def)

lemma zip_fst_snd: "zip (map fst ts) (map snd ts) = ts"
  by (induction ts) auto

text \<open>C31: reading a zone file gives the zone it was written from: the local times, the transitions with
  their local times, and the names.\<close>

theorem zone_file_roundtrip:
  assumes "zone_ok ts ls names" "length version = 16"
  shows "TimeZone_file (Some (zone_file version ts ls names others)) = Some (Some (zone_of ts ls names))"
proof -
  have ok: "list_all (\<lambda>(t, i). int32 t \<and> i < length ls) ts" "list_all (\<lambda>l. int32 (gmtOffset l) \<and> arrbIdx l < 256) ls"
    "int32 (int (length ts))" "int32 (int (length ls))" "int32 (int (length names))" "int32 0" "length ls \<le> 256"
    using assms(1) by (auto simp: zone_ok_def int32_def)
  obtain v r where v: "version = [v] @ r" "length r = 15" using assms(2) by (cases version) auto
  have head: "read_head (zone_file version ts ls names others)
      = Some (int (length ls), int (length names), map fst ts, map snd ts, concat (map local_bytes ls) @ map byte_of_char names @ others)"
    using ok(3-6) v read_int32s_bytes [OF ok(1)] read_uint8s_bytes [OF ok(1,7)]
    by (simp add: read_head_def zone_file_def readBytes_at [of "map byte_of_char ''TZif''", simplified] readBytes_at [of "[v]", simplified]
        readBytes_at [of r])
  have types: "read_localtimes (length ls) (concat (map local_bytes ls) @ map byte_of_char names @ others) no_data
      = (no_data\<lparr>localtimes := ls\<rparr>, Some (map byte_of_char names @ others))"
    using read_localtimes_bytes [OF ok(2)] by (simp add: no_data_def)
  have trs: "add_transitions ts (no_data\<lparr>localtimes := ls\<rparr>) = Some (zone_of ts ls [])"
    using add_transitions_all [of "no_data\<lparr>localtimes := ls\<rparr>" ts] ok(1) by (simp add: no_data_def zone_of_def)
  have "map char_of_byte (map byte_of_char names) = names" by (simp add: comp_def)
  then show ?thesis
    by (simp add: TimeZone_file_def readTimeZoneFile_def head types zip_fst_snd trs readBytes_def zone_of_def)
qed

theorem zone_file_roundtrip_witness:
  "TimeZone_file (Some (zone_file (replicate 16 0) [(0, 0)] [\<lparr>gmtOffset = 28800, isDst = False, arrbIdx = 0\<rparr>] ''CST'' []))
   = Some (Some (zone_of [(0, 0)] [\<lparr>gmtOffset = 28800, isDst = False, arrbIdx = 0\<rparr>] ''CST''))"
  using zone_file_roundtrip [of "[(0, 0)]" "[\<lparr>gmtOffset = 28800, isDst = False, arrbIdx = 0\<rparr>]" "''CST''" "replicate 16 0" "[]"]
  by (simp add: zone_ok_def int32_def)

text \<open>A zone made from a file that cannot be opened, or is no zone file, says it is valid, and the first
  conversion to or from local time reads the first of its local times, which is not there.\<close>

theorem unreadable_zone_is_valid:
  "TimeZone_file None = Some (Some no_data) \<and> zone_valid (Some no_data)
   \<and> toLocalTime (Some no_data) t = None \<and> fromLocalTime (Some no_data) lt = None
   \<and> (if take 4 f = map byte_of_char ''TZif'' then True else TimeZone_file (Some f) = Some (Some no_data))"
proof -
  have "findLocaltime no_data s g = None" for s g by (simp add: findLocaltime_def no_data_def local_at_def)
  moreover have "read_head f = None" if "take 4 f \<noteq> map byte_of_char ''TZif''"
    using that by (simp add: read_head_def readBytes_def)
  ultimately show ?thesis
    by (simp add: TimeZone_file_def readTimeZoneFile_def zone_valid_def toLocalTime_def fromLocalTime_def Let_def)
qed

end
