(* ===== verification/Tcp_Client.thy ===== *)
theory Tcp_Client
  imports Close_Once Connector_Model Loop_Pool
begin

text \<open>
  muduo/net/TcpClient.h and TcpClient.cpp, with the connector that makes its connections (theory
  Connector_Model) and the connections themselves (theory Tcp_Connection), all in one loop. A connection is
  its number in \<open>cl_conns\<close>. Queued calls of connectDestroyed are \<open>cl_destroying\<close>, and \<open>cl_destroyed\<close> logs those
  that have run. After the destructor \<open>cl_alive\<close> is false; \<open>connection\<close> then names the connection whose close
  callback was replaced, and \<open>connector_kept\<close> says whether the timer of the destructor keeps the connector.
\<close>

record tcp_client =
  cl_name :: string
  connector_of :: connector
  cl_retry :: bool
  cl_connect :: bool
  cl_nextConnId :: nat
  connection :: "nat option"
  cl_alive :: bool
  connector_kept :: bool
  cl_conns :: "tcp_connection list"
  cl_names :: "string list"
  cl_destroying :: "nat list"
  cl_destroyed :: "nat list"

definition new_TcpClient :: "string \<Rightarrow> tcp_client" where
  "new_TcpClient name = \<lparr>cl_name = name, connector_of = new_Connector, cl_retry = False, cl_connect = True,
     cl_nextConnId = 1, connection = None, cl_alive = True, connector_kept = True, cl_conns = [], cl_names = [],
     cl_destroying = [], cl_destroyed = []\<rparr>"

definition enableRetry :: "tcp_client \<Rightarrow> tcp_client" where
  "enableRetry v = v\<lparr>cl_retry := True\<rparr>"

definition set_client_conn :: "nat \<Rightarrow> tcp_connection \<Rightarrow> tcp_client \<Rightarrow> tcp_client" where
  "set_client_conn i c v = v\<lparr>cl_conns := (cl_conns v)[i := c]\<rparr>"

definition client_connect :: "bool \<Rightarrow> connect_answer \<Rightarrow> tcp_client \<Rightarrow> tcp_client option" where
  "client_connect inLoop ans v = do {
     let v = v\<lparr>cl_connect := True\<rparr>;
     k \<leftarrow> connector_start inLoop ans (connector_of v);
     Some (v\<lparr>connector_of := k\<rparr>) }"

definition client_disconnect :: "bool \<Rightarrow> tcp_client \<Rightarrow> tcp_client option" where
  "client_disconnect inLoop v =
     (let v = v\<lparr>cl_connect := False\<rparr> in
      case connection v of
        None \<Rightarrow> Some v
      | Some i \<Rightarrow> do { c \<leftarrow> shutdown inLoop (cl_conns v ! i); Some (set_client_conn i c v) })"

definition client_stop :: "tcp_client \<Rightarrow> tcp_client" where
  "client_stop v = v\<lparr>cl_connect := False, connector_of := connector_stop (connector_of v)\<rparr>"

text \<open>The name is cut to the 32 bytes of the stack buffer; \<open>peer\<close> is the peer's toIpPort.\<close>

definition client_conn_name :: "string \<Rightarrow> nat \<Rightarrow> tcp_client \<Rightarrow> string" where
  "client_conn_name peer n v = cl_name v @ snprintf_to 32 ('':'' @ peer @ ''#'' @ dec_nat n)"

definition client_newConnection :: "string \<Rightarrow> bool \<Rightarrow> int \<Rightarrow> tcp_client \<Rightarrow> tcp_client option" where
  "client_newConnection peer wc sockfd v = do {
     require (cl_alive v);
     let connName = client_conn_name peer (cl_nextConnId v) v;
     let v = v\<lparr>cl_nextConnId := cl_nextConnId v + 1\<rparr>;
     let conn = new_TcpConnection sockfd wc False kHighWaterMark;
     let v = v\<lparr>connection := Some (length (cl_conns v))\<rparr>;
     c \<leftarrow> connectEstablished conn;
     Some (v\<lparr>cl_conns := cl_conns v @ [c], cl_names := cl_names v @ [connName]\<rparr>) }"

definition client_removeConnection :: "nat \<Rightarrow> connect_answer \<Rightarrow> tcp_client \<Rightarrow> tcp_client option" where
  "client_removeConnection i ans v = do {
     require (connection v = Some i);
     let v = v\<lparr>connection := None, cl_destroying := cl_destroying v @ [i]\<rparr>;
     if cl_retry v \<and> cl_connect v
     then do { k \<leftarrow> restart_connector ans (connector_of v); Some (v\<lparr>connector_of := k\<rparr>) }
     else Some v }"

text \<open>The close callback the destructor leaves, \<open>detail::removeConnection\<close>.\<close>

definition detail_removeConnection :: "nat \<Rightarrow> tcp_client \<Rightarrow> tcp_client" where
  "detail_removeConnection i v = v\<lparr>connection := None, cl_destroying := cl_destroying v @ [i]\<rparr>"

text \<open>
  With a connection the connector goes with the client: a functor of its own still queued would run on
  freed memory. Without one it is stopped and kept for a while.
\<close>

definition delete_TcpClient :: "bool \<Rightarrow> tcp_client \<Rightarrow> tcp_client option" where
  "delete_TcpClient unique v =
     (case connection v of
        Some i \<Rightarrow> do {
          let v = (if unique then set_client_conn i (forceClose (cl_conns v ! i)) v else v);
          require (pending (connector_of v) = []);
          delete_Connector (connector_of v);
          Some (v\<lparr>cl_alive := False, connector_kept := False\<rparr>) }
      | None \<Rightarrow> Some (v\<lparr>cl_alive := False, connector_of := connector_stop (connector_of v)\<rparr>))"

definition client_destroy_conn :: "nat \<Rightarrow> tcp_client \<Rightarrow> tcp_client option" where
  "client_destroy_conn i v = do {
     c \<leftarrow> connectDestroyed (cl_conns v ! i);
     Some ((set_client_conn i c v)\<lparr>cl_destroyed := cl_destroyed v @ [i]\<rparr>) }"

subsection \<open>What can happen\<close>

datatype client_event =
    L_connect bool connect_answer
  | L_disconnect bool
  | L_stop
  | L_enableRetry
  | L_connector connector_step string bool
  | L_conn nat conn_event connect_answer
  | L_destroy nat
  | L_delete bool

text \<open>A step of the connector ends with \<open>newConnection\<close> when it has handed over a socket.\<close>

fun client_do :: "client_event \<Rightarrow> tcp_client \<Rightarrow> tcp_client option" where
  "client_do (L_connect inLoop ans) v = client_connect inLoop ans v"
| "client_do (L_disconnect inLoop) v = client_disconnect inLoop v"
| "client_do L_stop v = Some (client_stop v)"
| "client_do L_enableRetry v = Some (enableRetry v)"
| "client_do (L_connector s peer wc) v = do {
     k \<leftarrow> connector_do s (connector_of v);
     let given = connector.handed (connector_of v);
     let v = v\<lparr>connector_of := k\<rparr>;
     if length given < length (connector.handed k) then client_newConnection peer wc (last (connector.handed k)) v else Some v }"
| "client_do (L_conn i e ans) v = do {
     c \<leftarrow> conn_do e (cl_conns v ! i);
     let closed = (close_count (cl_conns v ! i) < close_count c);
     let v = set_client_conn i c v;
     if closed then (if cl_alive v then client_removeConnection i ans v else Some (detail_removeConnection i v))
     else Some v }"
| "client_do (L_destroy i) v = client_destroy_conn i (v\<lparr>cl_destroying := remove1 i (cl_destroying v)\<rparr>)"
| "client_do (L_delete unique) v = delete_TcpClient unique v"

text \<open>
  The client is used as theory Connector_Model asks: connect when the connector is at rest. What the
  loop does: the functors of the connector, its timers, the events of its socket; and for a connection what theory
  Tcp_Connection allows (no close between the test and the change of the state in a call of another
  thread; a \<open>disconnect\<close> there that something comes between is the steps of a \<open>shutdown\<close> of its connection).
  The reset of the connector's channel was queued before anything a new connection
  queues and runs before the next poll, so no functor or event of a connection comes before it.
\<close>

fun loop_step :: "connector_step \<Rightarrow> bool" where
  "loop_step (K_functor ans) \<longleftrightarrow> True"
| "loop_step (K_timer i ans) \<longleftrightarrow> True"
| "loop_step (K_event evs err self) \<longleftrightarrow> True"
| "loop_step s \<longleftrightarrow> False"

fun from_loop :: "conn_event \<Rightarrow> bool" where
  "from_loop (E_run ans) \<longleftrightarrow> True"
| "from_loop (E_channel r t rans wans) \<longleftrightarrow> True"
| "from_loop e \<longleftrightarrow> False"

fun client_may :: "client_event \<Rightarrow> tcp_client \<Rightarrow> bool" where
  "client_may (L_connect inLoop ans) v \<longleftrightarrow> cl_alive v \<and> connector_may (K_start inLoop ans) (connector_of v)"
| "client_may (L_disconnect inLoop) v \<longleftrightarrow> cl_alive v"
| "client_may L_stop v \<longleftrightarrow> cl_alive v"
| "client_may L_enableRetry v \<longleftrightarrow> cl_alive v"
| "client_may (L_connector s peer wc) v \<longleftrightarrow> connector_kept v \<and> loop_step s \<and> connector_may s (connector_of v)"
| "client_may (L_conn i e ans) v \<longleftrightarrow> i < length (cl_conns v) \<and> quiet_event e \<and> may e (cl_conns v ! i)
     \<and> calm e (cl_conns v ! i) \<and> 0 \<le> fst ans
     \<and> (from_loop e \<longrightarrow> F_resetChannel \<notin> set (pending (connector_of v)))"
| "client_may (L_destroy i) v \<longleftrightarrow> i \<in> set (cl_destroying v)"
| "client_may (L_delete unique) v \<longleftrightarrow> cl_alive v \<and> (connection v \<noteq> None \<longrightarrow> pending (connector_of v) = [])"

inductive client_reach :: "string \<Rightarrow> tcp_client \<Rightarrow> bool" for name where
  init: "client_reach name (new_TcpClient name)"
| step: "client_reach name v \<Longrightarrow> client_may e v \<Longrightarrow> client_do e v = Some v' \<Longrightarrow> client_reach name v'"

subsection \<open>What the connector hands over\<close>

lemma startInLoop_handed:
  assumes "startInLoop ans c = Some c'"
  shows "connector.handed c' = connector.handed c \<and> connect_wanted c' = connect_wanted c \<and> (cstate c' = C_Connected \<longrightarrow> cstate c = C_Connected)"
proof -
  obtain fd e where ans: "ans = (fd, e)" by fastforce
  show ?thesis
    using assms unfolding ans startInLoop_def
    by (auto simp: run_simps connecting_def connector_setState_def close_fd_def retry_def Let_def split: if_splits)
qed

lemma removeAndResetChannel_frame:
  "removeAndResetChannel c = Some (fd, d) \<Longrightarrow>
   connector.handed d = connector.handed c \<and> connect_wanted d = connect_wanted c \<and> cstate d = cstate c"
  by (auto simp: removeAndResetChannel_def queue_functor_def run_simps Let_def)

lemma handleError_handed:
  "connector_handleError c = Some c' \<Longrightarrow> connector.handed c' = connector.handed c \<and> connect_wanted c' = connect_wanted c"
  by (auto simp: connector_handleError_def retry_def close_fd_def connector_setState_def run_simps Let_def
      dest!: removeAndResetChannel_frame split: if_splits)

lemma handleWrite_handed:
  "connector_handleWrite err self c = Some c' \<Longrightarrow> connect_wanted c' = connect_wanted c
   \<and> (connector.handed c' = connector.handed c
      \<or> (\<exists>fd. connector.handed c' = connector.handed c @ [fd] \<and> cstate c' = C_Connected \<and> connect_wanted c))"
  by (auto simp: connector_handleWrite_def retry_def close_fd_def connector_setState_def run_simps Let_def
      dest!: removeAndResetChannel_frame split: if_splits)

lemma upd_chan_handed [simp]:
  "connector.handed (upd_chan f c) = connector.handed c" "connect_wanted (upd_chan f c) = connect_wanted c"
  by (simp_all add: upd_chan_def)

lemma connector_event_handed:
  assumes "connector_event evs err self c = Some c'"
  shows "connect_wanted c' = connect_wanted c
   \<and> (connector.handed c' = connector.handed c
      \<or> (\<exists>fd. connector.handed c' = connector.handed c @ [fd] \<and> cstate c' = C_Connected \<and> connect_wanted c))"
proof -
  obtain ch where ch: "conn_chan c = Some ch" using assms by (auto simp: connector_event_def run_simps)
  define d where "d = upd_chan (eventHandling_update (\<lambda>_. True)) (upd_chan (set_revents evs) c)"
  have "handleEventWithGuard (\<lambda>c. the (conn_chan c)) upd_chan (connector_callbacks err self) 0 (upd_chan (set_revents evs) c) = Some c'"
    using assms ch by (auto simp: connector_event_def handleEvent_def split: if_splits)
  moreover have "handleEventWithGuard (\<lambda>c. the (conn_chan c)) upd_chan (connector_callbacks err self) 0 (upd_chan (set_revents evs) c)
      = do { e \<leftarrow> (if has (revents (the (conn_chan d))) (POLLERR OR POLLNVAL) then connector_handleError d else Some d);
             f \<leftarrow> (if has (revents (the (conn_chan e))) POLLOUT then connector_handleWrite err self e else Some e);
             Some (upd_chan (eventHandling_update (\<lambda>_. False)) f) }"
    by (simp add: handleEventWithGuard_def connector_callbacks_def d_def Let_def cong: if_cong)
  ultimately have "do { e \<leftarrow> (if has (revents (the (conn_chan d))) (POLLERR OR POLLNVAL) then connector_handleError d else Some d);
             f \<leftarrow> (if has (revents (the (conn_chan e))) POLLOUT then connector_handleWrite err self e else Some e);
             Some (upd_chan (eventHandling_update (\<lambda>_. False)) f) } = Some c'" by (simp only:)
  then obtain e f where e: "(if has (revents (the (conn_chan d))) (POLLERR OR POLLNVAL) then connector_handleError d else Some d) = Some e"
    and f: "(if has (revents (the (conn_chan e))) POLLOUT then connector_handleWrite err self e else Some e) = Some f"
    and c': "c' = upd_chan (eventHandling_update (\<lambda>_. False)) f"
    by (auto simp only: bind_Some_iff option.inject)
  have "connector.handed e = connector.handed c \<and> connect_wanted e = connect_wanted c"
    using e handleError_handed [of d e] by (auto simp: d_def split: if_splits)
  with f handleWrite_handed [of err self e f] show ?thesis unfolding c' by (auto split: if_splits)
qed

lemma stopInLoop_handed:
  assumes "stopInLoop c = Some c'"
  shows "connector.handed c' = connector.handed c \<and> connect_wanted c' = connect_wanted c"
proof (cases "cstate c = C_Connecting")
  case True
  with assms obtain fd d where "removeAndResetChannel (connector_setState C_Disconnected c) = Some (fd, d)" "c' = retry fd d"
    by (auto simp: stopInLoop_def bind_Some_iff)
  with removeAndResetChannel_frame [OF this(1)] show ?thesis
    by (simp add: retry_def close_fd_def connector_setState_def Let_def)
qed (use assms in \<open>simp add: stopInLoop_def\<close>)

lemma loop_step_handed:
  assumes "loop_step s" "connector_do s c = Some c'"
  shows "connect_wanted c' = connect_wanted c
   \<and> (connector.handed c' = connector.handed c
      \<or> (\<exists>fd. connector.handed c' = connector.handed c @ [fd] \<and> cstate c' = C_Connected \<and> connect_wanted c))"
proof (cases s)
  case (K_functor ans)
  then obtain f fs where f: "pending c = f # fs" "run_connector_functor ans f (c\<lparr>pending := fs\<rparr>) = Some c'"
    using assms(2) by (cases "pending c") auto
  show ?thesis
  proof (cases f)
    case F_startInLoop
    with f(2) startInLoop_handed [of ans "c\<lparr>pending := fs\<rparr>" c'] show ?thesis by simp
  next
    case F_stopInLoop
    with f(2) stopInLoop_handed [of "c\<lparr>pending := fs\<rparr>" c'] show ?thesis by simp
  next
    case F_resetChannel
    with f(2) show ?thesis by (auto simp: resetChannel_def run_simps split: option.splits)
  qed
next
  case (K_timer i ans)
  define d where "d = c\<lparr>retry_timers := take i (retry_timers c) @ drop (Suc i) (retry_timers c)\<rparr>"
  have "startInLoop ans d = Some c'" using K_timer assms(2) by (simp add: d_def split: if_splits)
  from startInLoop_handed [OF this] show ?thesis by (simp add: d_def)
next
  case (K_event evs err self)
  with assms(2) connector_event_handed show ?thesis by simp
qed (use assms(1) in simp_all)

text \<open>While a connection is up the connector stays as it is.\<close>

lemma loop_step_connected:
  assumes "loop_step s" "connector_do s c = Some c'" "connector_inv False c" "connector_may s c" "cstate c = C_Connected"
  shows "cstate c' = C_Connected \<and> connector.handed c' = connector.handed c"
proof (cases s)
  case (K_functor ans)
  then obtain f fs where f: "pending c = f # fs" "run_connector_functor ans f (c\<lparr>pending := fs\<rparr>) = Some c'"
    using assms(2) by (cases "pending c") auto
  show ?thesis
  proof (cases f)
    case F_startInLoop
    with f assms(3,5) show ?thesis by (simp add: connector_inv_def)
  next
    case F_stopInLoop
    with f(2) assms(5) show ?thesis by (auto simp: stopInLoop_def)
  next
    case F_resetChannel
    with f(2) assms(5) show ?thesis by (auto simp: resetChannel_def run_simps split: option.splits)
  qed
next
  case (K_timer i ans)
  with assms(3-5) show ?thesis by (simp add: connector_inv_def)
next
  case (K_event evs err self)
  with assms(3-5) show ?thesis by (auto simp: connector_inv_def split: option.splits)
qed (use assms(1) in simp_all)

subsection \<open>The life of a connection\<close>


text \<open>
  Connection \<open>i\<close> is the client's exactly while it is up, and is then destroyed once; until then its
  channel is in the map of the poller.
\<close>

definition client_stage :: "tcp_client \<Rightarrow> nat \<Rightarrow> bool" where
  "client_stage v i \<longleftrightarrow>
     (let c = cl_conns v ! i; D = i \<in> set (cl_destroying v); G = i \<in> set (cl_destroyed v)
      in live c \<and> connection v = Some i \<and> \<not> D \<and> \<not> G \<and> addedToLoop (conn_channel c)
       \<or> dead c \<and> connection v \<noteq> Some i \<and> (D \<and> \<not> G \<and> addedToLoop (conn_channel c) \<or> \<not> D \<and> G))"

definition conns_ok :: "tcp_client \<Rightarrow> bool" where
  "conns_ok v \<longleftrightarrow>
     length (cl_names v) = length (cl_conns v) \<and> cl_nextConnId v = length (cl_conns v) + 1
     \<and> distinct (cl_destroying v) \<and> distinct (cl_destroyed v)
     \<and> set (cl_destroying v) \<union> set (cl_destroyed v) \<subseteq> {..<length (cl_conns v)}
     \<and> (\<forall>i. connection v = Some i \<longrightarrow> i < length (cl_conns v))
     \<and> (\<forall>i < length (cl_conns v). conn_inv (cl_conns v ! i) \<and> no_start (cl_conns v ! i) \<and> client_stage v i)"

definition link_ok :: "tcp_client \<Rightarrow> bool" where
  "link_ok v \<longleftrightarrow> connector_reach (connector_of v) \<and> length (connector.handed (connector_of v)) = length (cl_conns v)
     \<and> (connection v \<noteq> None \<longrightarrow> cstate (connector_of v) = C_Connected)
     \<and> (cl_alive v \<longrightarrow> connector_kept v)
     \<and> (\<not> cl_alive v \<and> connector_kept v \<longrightarrow> connection v = None \<and> \<not> connect_wanted (connector_of v))"

definition client_inv :: "tcp_client \<Rightarrow> bool" where
  "client_inv v \<longleftrightarrow> conns_ok v \<and> link_ok v"

lemma conns_okD:
  assumes "conns_ok v" "i < length (cl_conns v)"
  shows "conn_inv (cl_conns v ! i)" "no_start (cl_conns v ! i)" "client_stage v i"
  using assms by (auto simp: conns_ok_def)

lemma conns_ok_same:
  assumes "conns_ok v" "cl_conns v' = cl_conns v" "cl_names v' = cl_names v" "cl_nextConnId v' = cl_nextConnId v"
    "connection v' = connection v" "cl_destroying v' = cl_destroying v" "cl_destroyed v' = cl_destroyed v"
  shows "conns_ok v'"
  using assms by (simp add: conns_ok_def client_stage_def)

lemma conns_ok_moves:
  assumes ok: "conns_ok v" and i: "i < length (cl_conns v)" "cl_conns v' = (cl_conns v)[i := c]"
    and frame: "cl_names v' = cl_names v" "cl_nextConnId v' = cl_nextConnId v"
    and cn: "connection v' = connection v \<or> connection v = Some i \<and> connection v' = None"
    and ds: "distinct (cl_destroying v')" "distinct (cl_destroyed v')"
    and q: "set (cl_destroying v') - {i} = set (cl_destroying v) - {i}" "set (cl_destroyed v') - {i} = set (cl_destroyed v) - {i}"
    and c: "conn_inv c" "no_start c" "client_stage v' i"
  shows "conns_ok v'"
proof -
  have stage: "client_stage v' j" if j: "j < length (cl_conns v)" "j \<noteq> i" for j
  proof -
    have "j \<in> set (cl_destroying v') \<longleftrightarrow> j \<in> set (cl_destroying v)" "j \<in> set (cl_destroyed v') \<longleftrightarrow> j \<in> set (cl_destroyed v)"
      using q j(2) by blast+
    moreover have "connection v' = Some j \<longleftrightarrow> connection v = Some j" using cn j(2) by auto
    ultimately show ?thesis using conns_okD(3) [OF ok j(1)] j(2) i(2) by (simp add: client_stage_def)
  qed
  have "set (cl_destroying v') \<union> set (cl_destroyed v') \<subseteq> insert i (set (cl_destroying v) \<union> set (cl_destroyed v))" using q by blast
  also have "\<dots> \<subseteq> {..<length (cl_conns v)}" using ok i(1) by (auto simp: conns_ok_def)
  finally have sub: "set (cl_destroying v') \<union> set (cl_destroyed v') \<subseteq> {..<length (cl_conns v)}" .
  have "conn_inv (cl_conns v' ! j) \<and> no_start (cl_conns v' ! j) \<and> client_stage v' j" if "j < length (cl_conns v)" for j
    using that c stage conns_okD(1,2) [OF ok that] i by (cases "j = i") simp_all
  then show ?thesis using ok sub ds frame i cn unfolding conns_ok_def by auto
qed

text \<open>An event of a connection that is up or down, as its owner sees it.\<close>

lemma owned_event:
  assumes "conn_inv c" "no_start c" "live c \<or> dead c" "quiet_event e" "may e c" "calm e c"
  obtains c' where "conn_do e c = Some c'" "conn_inv c'" "no_start c'"
    "addedToLoop (conn_channel c) \<longrightarrow> addedToLoop (conn_channel c')"
    "close_count c' = close_count c \<and> (live c \<and> live c' \<or> dead c \<and> dead c') \<or> close_count c < close_count c' \<and> live c \<and> dead c'"
proof -
  obtain c' where run: "conn_do e c = Some c'"
    using conn_do_ok [OF assms(1,5,6)] assms(4) by (auto simp: quiet_event_def)
  note cl = closes_conn_do [OF run assms(4,3,2,6)]
  show ?thesis
    using that [OF run] conn_do_inv [OF assms(1,5,6) run] cl assms(2,3) by (auto simp: close_rel_def)
qed

lemma stage_live: "client_stage v i \<Longrightarrow> live (cl_conns v ! i) \<or> dead (cl_conns v ! i)"
  by (auto simp: client_stage_def Let_def)

lemma link_connector:
  assumes "link_ok v" "connector_reach k" "connector.handed k = connector.handed (connector_of v)"
    "connection v \<noteq> None \<longrightarrow> cstate k = C_Connected" "\<not> cl_alive v \<longrightarrow> connect_wanted k = connect_wanted (connector_of v)"
  shows "link_ok (v\<lparr>connector_of := k\<rparr>)"
  using assms by (auto simp: link_ok_def)

lemma client_connect_inv:
  assumes inv: "client_inv v" and may: "cl_alive v" "connector_may (K_start inLoop ans) (connector_of v)"
  shows "\<exists>v'. client_connect inLoop ans v = Some v' \<and> client_inv v'"
proof -
  let ?k = "connector_of v"
  have reach: "connector_reach ?k" using inv by (simp add: client_inv_def link_ok_def)
  obtain k where k: "connector_do (K_start inLoop ans) ?k = Some k"
    using connector_do_ok [OF connector_reach_inv [OF reach] may(2)] by blast
  have h: "connector.handed k = connector.handed ?k"
    using k startInLoop_handed [of ans "?k\<lparr>connect_wanted := True\<rparr>" k]
    by (auto simp: connector_start_def queue_functor_def Let_def split: if_splits)
  have "cstate ?k = C_Disconnected" using may(2) by (simp add: at_rest_def)
  then have "connection v = None" using inv by (auto simp: client_inv_def link_ok_def)
  then have "link_ok (v\<lparr>connector_of := k\<rparr>)"
    using inv may(1) connector_reach.step [OF reach may(2) k] h by (intro link_connector) (auto simp: client_inv_def)
  then have "link_ok (v\<lparr>cl_connect := True, connector_of := k\<rparr>)" by (simp add: link_ok_def)
  moreover have "conns_ok (v\<lparr>cl_connect := True, connector_of := k\<rparr>)"
    by (rule conns_ok_same [of v]) (use inv in \<open>simp_all add: client_inv_def\<close>)
  ultimately show ?thesis using k by (simp add: client_connect_def client_inv_def)
qed

lemma connector_stop_ok:
  assumes "connector_reach k"
  shows "connector_reach (connector_stop k)" "connector.handed (connector_stop k) = connector.handed k"
    "cstate (connector_stop k) = cstate k" "\<not> connect_wanted (connector_stop k)"
  using connector_reach.step [OF assms, of K_stop] by (simp_all add: connector_stop_def queue_functor_def)

lemma client_stop_inv: "client_inv v \<Longrightarrow> cl_alive v \<Longrightarrow> client_inv (client_stop v)"
  using connector_stop_ok [of "connector_of v"] conns_ok_same [of v "client_stop v"]
  by (simp add: client_inv_def link_ok_def client_stop_def)

text \<open>A live connection whose state moves while it stays up, or a dead one that stays down.\<close>

lemma set_conn_inv:
  assumes inv: "client_inv v" and i: "i < length (cl_conns v)" and c: "conn_inv c" "no_start c"
    "live (cl_conns v ! i) \<and> live c \<or> dead (cl_conns v ! i) \<and> dead c"
    "addedToLoop (conn_channel (cl_conns v ! i)) \<longrightarrow> addedToLoop (conn_channel c)"
  shows "client_inv (set_client_conn i c v)"
proof -
  have "client_stage (set_client_conn i c v) i"
    using conns_okD(3) [of v i] inv i c(3,4) live_not_dead
    by (auto simp: client_inv_def client_stage_def set_client_conn_def Let_def)
  then have "conns_ok (set_client_conn i c v)"
    by - (rule conns_ok_moves [of v i _ c]; use inv c i in \<open>simp add: client_inv_def set_client_conn_def conns_ok_def\<close>)
  moreover have "link_ok (set_client_conn i c v)" using inv by (simp add: client_inv_def link_ok_def set_client_conn_def)
  ultimately show ?thesis by (simp add: client_inv_def)
qed

lemma client_disconnect_inv:
  assumes "client_inv v"
  shows "\<exists>v'. client_disconnect inLoop v = Some v' \<and> client_inv v'"
proof -
  let ?v = "v\<lparr>cl_connect := False\<rparr>"
  have inv: "client_inv ?v"
    using assms conns_ok_same [of v ?v] by (simp add: client_inv_def link_ok_def)
  show ?thesis
  proof (cases "connection v")
    case None
    with inv show ?thesis by (simp add: client_disconnect_def)
  next
    case (Some i)
    then have i: "i < length (cl_conns v)" using assms by (simp add: client_inv_def conns_ok_def)
    have ok: "conns_ok v" using assms by (simp add: client_inv_def)
    note D = conns_okD [OF ok i]
    obtain c where c: "conn_do (E_shutdown inLoop) (cl_conns v ! i) = Some c" "conn_inv c" "no_start c"
      "addedToLoop (conn_channel (cl_conns v ! i)) \<longrightarrow> addedToLoop (conn_channel c)"
      "close_count c = close_count (cl_conns v ! i) \<and> (live (cl_conns v ! i) \<and> live c \<or> dead (cl_conns v ! i) \<and> dead c)
       \<or> close_count (cl_conns v ! i) < close_count c \<and> live (cl_conns v ! i) \<and> dead c"
      by (rule owned_event [OF D(1,2) stage_live [OF D(3)], of "E_shutdown inLoop"]) (simp_all add: quiet_event_def)
    have "close_count c = close_count (cl_conns v ! i)"
      using c(1) by (auto simp: shutdown_def runInLoop_def shutdownInLoop_def setState_def queueFunctor_def close_count_def split: if_splits)
    with set_conn_inv [OF inv, of i c] i c show ?thesis by (auto simp: client_disconnect_def Some)
  qed
qed

text \<open>The close of the client's connection.\<close>

lemma detail_removeConnection_ok:
  assumes ok: "conns_ok v" and i: "i < length (cl_conns v)" and c: "conn_inv c" "no_start c" "live (cl_conns v ! i)" "dead c"
      "addedToLoop (conn_channel (cl_conns v ! i)) \<longrightarrow> addedToLoop (conn_channel c)"
  shows "conns_ok (detail_removeConnection i (set_client_conn i c v))" "connection v = Some i"
proof -
  show cn: "connection v = Some i"
    using conns_okD(3) [OF ok i] c(3) live_not_dead by (auto simp: client_stage_def Let_def)
  have DG: "i \<notin> set (cl_destroying v)" "i \<notin> set (cl_destroyed v)" "addedToLoop (conn_channel (cl_conns v ! i))"
    using conns_okD(3) [OF ok i] c(3) live_not_dead by (auto simp: client_stage_def Let_def)
  let ?v = "detail_removeConnection i (set_client_conn i c v)"
  have "client_stage ?v i"
    using DG c(4,5) i by (simp add: client_stage_def detail_removeConnection_def set_client_conn_def)
  then show "conns_ok ?v"
    by - (rule conns_ok_moves [OF ok i, where c = c];
      use ok c DG cn in \<open>auto simp: detail_removeConnection_def set_client_conn_def conns_ok_def\<close>)
qed

lemma client_remove_inv:
  assumes inv: "client_inv v" and i: "i < length (cl_conns v)" and c: "conn_inv c" "no_start c" "live (cl_conns v ! i)" "dead c"
      "addedToLoop (conn_channel (cl_conns v ! i)) \<longrightarrow> addedToLoop (conn_channel c)"
    and alive: "cl_alive v" and ans: "0 \<le> fst ans" and reset: "F_resetChannel \<notin> set (pending (connector_of v))"
  shows "\<exists>v'. client_removeConnection i ans (set_client_conn i c v) = Some v' \<and> client_inv v'"
proof -
  let ?v = "detail_removeConnection i (set_client_conn i c v)" and ?k = "connector_of v"
  have ok: "conns_ok v" and link: "link_ok v" using inv by (simp_all add: client_inv_def)
  note rm = detail_removeConnection_ok [OF ok i c]
  have v: "connector_of ?v = ?k" "connection ?v = None" "cl_alive ?v" "connector_kept ?v = connector_kept v"
    "length (cl_conns ?v) = length (cl_conns v)"
    using alive by (simp_all add: detail_removeConnection_def set_client_conn_def)
  have link': "link_ok ?v" using link v alive by (simp add: link_ok_def)
  have run: "client_removeConnection i ans (set_client_conn i c v)
      = (if cl_retry v \<and> cl_connect v then do { k \<leftarrow> restart_connector ans ?k; Some (?v\<lparr>connector_of := k\<rparr>) } else Some ?v)"
    using rm(2) by (simp add: client_removeConnection_def detail_removeConnection_def set_client_conn_def Let_def)
  have reach: "connector_reach ?k" and st: "cstate ?k = C_Connected" using link rm(2) by (simp_all add: link_ok_def)
  have "conn_chan ?k = None"
    using connector_reach_inv [OF reach] st reset by (auto simp: connector_inv_def count_list_0_iff split: if_splits)
  then have may: "connector_may (K_restart ans) ?k" using st ans by simp
  obtain k where k: "connector_do (K_restart ans) ?k = Some k"
    using connector_do_ok [OF connector_reach_inv [OF reach] may] by blast
  have "connector.handed k = connector.handed ?k"
    using k startInLoop_handed [of ans _ k] by (auto simp: restart_connector_def connector_setState_def Let_def)
  then have "link_ok (?v\<lparr>connector_of := k\<rparr>)"
    using link_connector [OF link' connector_reach.step [OF reach may k]] v by simp
  moreover have "conns_ok (?v\<lparr>connector_of := k\<rparr>)" by (rule conns_ok_same [OF rm(1)]) simp_all
  ultimately show ?thesis using run k link' rm(1) by (simp add: client_inv_def)
qed

lemma from_loop_only:
  assumes "conn_do e c = Some c'" "\<not> from_loop e" "quiet_event e" "live c \<or> dead c" "no_start c"
  shows "close_count c' = close_count c"
proof -
  have sent: "notices d' = notices d" if "sendInLoop s ans d = Some d'" for s ans d d'
    using that
    by (auto simp: sendInLoop_def append_remaining_def write_directly_def queueFunctor_def require_def Let_def bind_Some_iff
        split: if_splits prod.splits write_answer.splits)
  have calls: "notices (call_tests k d) = notices d" "notices (call_sets k d) = notices d"
      "notices (call_hands_over k d) = notices d" for k d
    by (cases k; simp add: call_tests_def call_sets_def call_hands_over_def setState_def queueFunctor_def)+
  show ?thesis
    using assms(1-3) calls
    by (cases e) (auto simp: close_count_def send_def shutdown_def shutdownInLoop_def stopRead_def stopReadInLoop_def
        forceClose_def forceCloseWithDelay_def runInLoop_def setState_def queueFunctor_def quiet_event_def
        dest!: sent split: if_splits)
qed

lemma client_conn_inv:
  assumes inv: "client_inv v" and may: "client_may (L_conn i e ans) v"
  shows "\<exists>v'. client_do (L_conn i e ans) v = Some v' \<and> client_inv v'"
proof -
  have ok: "conns_ok v" using inv by (simp add: client_inv_def)
  have e: "i < length (cl_conns v)" "quiet_event e" "may e (cl_conns v ! i)" "calm e (cl_conns v ! i)" "0 \<le> fst ans"
    "from_loop e \<longrightarrow> F_resetChannel \<notin> set (pending (connector_of v))" using may by simp_all
  let ?c = "cl_conns v ! i"
  note D = conns_okD [OF ok e(1)]
  obtain c where c: "conn_do e ?c = Some c" "conn_inv c" "no_start c"
    "addedToLoop (conn_channel ?c) \<longrightarrow> addedToLoop (conn_channel c)"
    "close_count c = close_count ?c \<and> (live ?c \<and> live c \<or> dead ?c \<and> dead c) \<or> close_count ?c < close_count c \<and> live ?c \<and> dead c"
    by (rule owned_event [OF D(1,2) stage_live [OF D(3)] e(2,3,4)])
  show ?thesis
  proof (cases "close_count ?c < close_count c")
    case False
    with c(5) have st: "live ?c \<and> live c \<or> dead ?c \<and> dead c" by auto
    have "client_do (L_conn i e ans) v = Some (set_client_conn i c v)" using c(1) False by (simp add: Let_def)
    with set_conn_inv [OF inv e(1) c(2,3) st c(4)] show ?thesis by simp
  next
    case True
    then have st: "live ?c" "dead c" using c(5) by auto
    have "from_loop e" using from_loop_only [OF c(1) _ e(2) stage_live [OF D(3)] D(2)] True by auto
    then have reset: "F_resetChannel \<notin> set (pending (connector_of v))" using e(6) by simp
    have al: "cl_alive (set_client_conn i c v) = cl_alive v" by (simp add: set_client_conn_def)
    show ?thesis
    proof (cases "cl_alive v")
      case alive: True
      with client_remove_inv [OF inv e(1) c(2,3) st c(4) alive e(5) reset] c(1) True al show ?thesis by (simp add: Let_def)
    next
      case False
      note rm = detail_removeConnection_ok [OF ok e(1) c(2,3) st c(4)]
      have "\<not> connector_kept v" using inv False rm(2) by (auto simp: client_inv_def link_ok_def)
      then have "link_ok (detail_removeConnection i (set_client_conn i c v))"
        using inv False by (simp add: client_inv_def link_ok_def detail_removeConnection_def set_client_conn_def)
      with rm(1) c(1) True False al show ?thesis by (simp add: Let_def client_inv_def)
    qed
  qed
qed

lemma client_destroy_inv:
  assumes inv: "client_inv v" and i: "i \<in> set (cl_destroying v)"
  shows "\<exists>v'. client_do (L_destroy i) v = Some v' \<and> client_inv v'"
proof -
  have ok: "conns_ok v" using inv by (simp add: client_inv_def)
  then have l: "i < length (cl_conns v)" using i by (auto simp: conns_ok_def)
  note D = conns_okD [OF ok l]
  have st: "dead (cl_conns v ! i)" "connection v \<noteq> Some i" "i \<notin> set (cl_destroyed v)"
      "addedToLoop (conn_channel (cl_conns v ! i))"
    using D(3) i by (auto simp: client_stage_def Let_def)
  define c where "c = (cl_conns v ! i)\<lparr>conn_channel := (conn_channel (cl_conns v ! i))\<lparr>addedToLoop := False\<rparr>\<rparr>"
  have run: "connectDestroyed (cl_conns v ! i) = Some c"
    using st(1,4) by (simp add: connectDestroyed_def channel_remove_def dead_def c_def Let_def)
  have c: "conn_inv c" "no_start c" "dead c"
    using connectDestroyed_inv [OF D(1) run] D(2) st(1) by (simp_all add: c_def no_start_def dead_def)
  let ?v = "(set_client_conn i c (v\<lparr>cl_destroying := remove1 i (cl_destroying v)\<rparr>))\<lparr>cl_destroyed := cl_destroyed v @ [i]\<rparr>"
  have "client_stage ?v i"
    using c(3) st l ok by (simp add: client_stage_def set_client_conn_def conns_ok_def)
  then have "conns_ok ?v"
    by - (rule conns_ok_moves [OF ok l, where c = c]; use ok c st in \<open>auto simp: set_client_conn_def conns_ok_def\<close>)
  moreover have "link_ok ?v" using inv by (simp add: client_inv_def link_ok_def set_client_conn_def)
  ultimately show ?thesis using run by (simp add: client_destroy_conn_def client_inv_def)
qed

text \<open>A connection the connector hands over.\<close>

lemma established_connection:
  obtains c where "connectEstablished (new_TcpConnection fd wc False kHighWaterMark) = Some c" "conn_inv c" "no_start c" "live c"
    "addedToLoop (conn_channel c)"
proof -
  define n where "n = new_TcpConnection fd wc False kHighWaterMark"
  have n: "conn_inv n" "no_start n" "conn_state n = kConnecting"
    using new_TcpConnection_inv(1) by (simp_all add: n_def no_start_def new_TcpConnection_def)
  obtain c where c: "connectEstablished n = Some c" "conn_inv c" using connectEstablished_inv [OF n(1,3)] by blast
  moreover have "live c" "queued c = queued n" "addedToLoop (conn_channel c)"
    using c(1) by (auto simp: connectEstablished_def live_def setState_def connectionCallback_def notify_def Let_def
        require_def split: if_splits)
  ultimately show ?thesis using that n(2) by (simp add: n_def no_start_def)
qed

lemma new_connection_ok:
  assumes ok: "conns_ok v" and none: "connection v = None" and c: "conn_inv c" "no_start c" "live c" "addedToLoop (conn_channel c)"
  shows "conns_ok (v\<lparr>cl_nextConnId := cl_nextConnId v + 1, connection := Some (length (cl_conns v)),
     cl_conns := cl_conns v @ [c], cl_names := cl_names v @ [nm]\<rparr>)" (is "conns_ok ?v")
proof -
  let ?n = "length (cl_conns v)"
  have sub: "set (cl_destroying v) \<union> set (cl_destroyed v) \<subseteq> {..<?n}" using ok by (simp add: conns_ok_def)
  have each: "conn_inv (cl_conns ?v ! i) \<and> no_start (cl_conns ?v ! i) \<and> client_stage ?v i" if "i \<le> ?n" for i
  proof (cases "i = ?n")
    case True
    with sub c show ?thesis by (auto simp: client_stage_def)
  next
    case False
    with that have l: "i < ?n" by simp
    with conns_okD [OF ok l] none show ?thesis by (simp add: client_stage_def nth_append Let_def)
  qed
  have names: "length (cl_names ?v) = length (cl_conns ?v) \<and> cl_nextConnId ?v = length (cl_conns ?v) + 1
      \<and> distinct (cl_destroying ?v) \<and> distinct (cl_destroyed ?v)" using ok by (simp add: conns_ok_def)
  have "set (cl_destroying ?v) \<union> set (cl_destroyed ?v) \<subseteq> {..<length (cl_conns ?v)}" using sub by (auto simp: less_Suc_eq)
  moreover have "\<forall>i < length (cl_conns ?v). conn_inv (cl_conns ?v ! i) \<and> no_start (cl_conns ?v ! i) \<and> client_stage ?v i"
  proof (intro allI impI)
    fix i
    assume "i < length (cl_conns ?v)"
    then have "i \<le> ?n" by simp
    then show "conn_inv (cl_conns ?v ! i) \<and> no_start (cl_conns ?v ! i) \<and> client_stage ?v i" by (rule each)
  qed
  ultimately show ?thesis using names unfolding conns_ok_def by simp
qed

lemma client_connector_inv:
  assumes inv: "client_inv v" and may: "client_may (L_connector s peer wc) v"
  shows "\<exists>v'. client_do (L_connector s peer wc) v = Some v' \<and> client_inv v'"
proof -
  let ?k = "connector_of v"
  have m: "connector_kept v" "loop_step s" "connector_may s ?k" using may by simp_all
  have ok: "conns_ok v" and link: "link_ok v" using inv by (simp_all add: client_inv_def)
  have reach: "connector_reach ?k" using link by (simp add: link_ok_def)
  obtain k where k: "connector_do s ?k = Some k" using connector_do_ok [OF connector_reach_inv [OF reach] m(3)] by blast
  note reach' = connector_reach.step [OF reach m(3) k]
  note up = loop_step_connected [OF m(2) k connector_reach_inv [OF reach] m(3)]
  consider (same) "connector.handed k = connector.handed ?k" "connect_wanted k = connect_wanted ?k"
    | (given) fd where "connector.handed k = connector.handed ?k @ [fd]" "cstate k = C_Connected" "connect_wanted ?k"
    using loop_step_handed [OF m(2) k] by blast
  then show ?thesis
  proof cases
    case same
    have "connection v \<noteq> None \<longrightarrow> cstate k = C_Connected" using up link by (auto simp: link_ok_def)
    then have "link_ok (v\<lparr>connector_of := k\<rparr>)" using link_connector [OF link reach' same(1)] same(2) by simp
    moreover have "conns_ok (v\<lparr>connector_of := k\<rparr>)" by (rule conns_ok_same [OF ok]) simp_all
    ultimately show ?thesis using k same(1) by (simp add: client_inv_def Let_def)
  next
    case (given fd)
    have none: "connection v = None" using up given(1) link by (auto simp: link_ok_def)
    have alive: "cl_alive v" using link m(1) given(3) by (auto simp: link_ok_def)
    obtain c where c: "connectEstablished (new_TcpConnection fd wc False kHighWaterMark) = Some c" "conn_inv c" "no_start c" "live c"
        "addedToLoop (conn_channel c)"
      by (rule established_connection)
    let ?u = "v\<lparr>connector_of := k\<rparr>"
    let ?v = "?u\<lparr>cl_nextConnId := cl_nextConnId ?u + 1, connection := Some (length (cl_conns ?u)),
       cl_conns := cl_conns ?u @ [c], cl_names := cl_names ?u @ [client_conn_name peer (cl_nextConnId v) ?u]\<rparr>"
    have "conns_ok ?u" by (rule conns_ok_same [OF ok]) simp_all
    from new_connection_ok [OF this _ c(2-5)] none have "conns_ok ?v" by simp
    moreover have "link_ok ?v" using link reach' given alive by (simp add: link_ok_def)
    moreover have "client_do (L_connector s peer wc) v = Some ?v"
      using k given(1) alive c(1) by (simp add: client_newConnection_def Let_def)
    ultimately show ?thesis by (simp add: client_inv_def)
  qed
qed

lemma client_delete_inv:
  assumes inv: "client_inv v" and may: "client_may (L_delete unique) v"
  shows "\<exists>v'. client_do (L_delete unique) v = Some v' \<and> client_inv v'"
proof (cases "connection v")
  case None
  let ?v = "v\<lparr>cl_alive := False, connector_of := connector_stop (connector_of v)\<rparr>"
  have "conns_ok ?v" by (rule conns_ok_same [of v]) (use inv in \<open>simp_all add: client_inv_def\<close>)
  moreover have "link_ok ?v" using inv None connector_stop_ok [of "connector_of v"] by (simp add: client_inv_def link_ok_def)
  ultimately show ?thesis using None by (simp add: delete_TcpClient_def client_inv_def)
next
  case (Some i)
  have ok: "conns_ok v" and link: "link_ok v" using inv by (simp_all add: client_inv_def)
  have i: "i < length (cl_conns v)" using ok Some by (simp add: conns_ok_def)
  note D = conns_okD [OF ok i]
  have reach: "connector_reach (connector_of v)" and st: "cstate (connector_of v) = C_Connected"
    using link Some by (simp_all add: link_ok_def)
  have p: "pending (connector_of v) = []" using may Some by simp
  have chan: "conn_chan (connector_of v) = None"
    using connector_reach_inv [OF reach] st p by (auto simp: connector_inv_def split: if_splits)
  define u where "u = (if unique then set_client_conn i (forceClose (cl_conns v ! i)) v else v)"
  have "client_inv u"
  proof (cases unique)
    case True
    obtain c where c: "conn_do E_forceClose (cl_conns v ! i) = Some c" "conn_inv c" "no_start c"
        "addedToLoop (conn_channel (cl_conns v ! i)) \<longrightarrow> addedToLoop (conn_channel c)"
      by (rule owned_event [OF D(1,2) stage_live [OF D(3)], of E_forceClose]) (simp_all add: quiet_event_def)
    have "live (cl_conns v ! i)" using D(3) Some by (auto simp: client_stage_def Let_def)
    then have "live (forceClose (cl_conns v ! i))"
      by (auto simp: forceClose_def live_def setState_def queueFunctor_def)
    with set_conn_inv [OF inv i] c \<open>live (cl_conns v ! i)\<close> True show ?thesis by (simp add: u_def)
  qed (use inv in \<open>simp add: u_def\<close>)
  moreover have u: "connector_of u = connector_of v" "connection u = connection v" by (simp_all add: u_def set_client_conn_def)
  ultimately have "client_inv (u\<lparr>cl_alive := False, connector_kept := False\<rparr>)"
    using conns_ok_same [of u "u\<lparr>cl_alive := False, connector_kept := False\<rparr>"] by (simp add: client_inv_def link_ok_def)
  moreover have "client_do (L_delete unique) v = Some (u\<lparr>cl_alive := False, connector_kept := False\<rparr>)"
    using Some p chan u by (simp add: delete_TcpClient_def u_def [symmetric] delete_Connector_def Let_def)
  ultimately show ?thesis by simp
qed

lemma client_do_inv:
  assumes "client_inv v" "client_may e v"
  shows "\<exists>v'. client_do e v = Some v' \<and> client_inv v'"
proof (cases e)
  case (L_connect inLoop ans)
  with assms client_connect_inv show ?thesis by simp
next
  case (L_disconnect inLoop)
  with assms client_disconnect_inv show ?thesis by simp
next
  case L_stop
  with assms client_stop_inv show ?thesis by simp
next
  case L_enableRetry
  with assms conns_ok_same [of v "enableRetry v"] show ?thesis by (simp add: client_inv_def link_ok_def enableRetry_def)
next
  case (L_connector s peer wc)
  with assms client_connector_inv show ?thesis by blast
next
  case (L_conn i e ans)
  with assms client_conn_inv show ?thesis by blast
next
  case (L_destroy i)
  with assms client_destroy_inv show ?thesis by auto
next
  case (L_delete unique)
  with assms client_delete_inv show ?thesis by blast
qed

lemma client_reach_inv: "client_reach name v \<Longrightarrow> client_inv v"
proof (induction rule: client_reach.induct)
  case init
  show ?case by (simp add: client_inv_def conns_ok_def link_ok_def new_TcpClient_def connector_reach.init)
      (simp add: new_Connector_def)
next
  case (step v e v')
  with client_do_inv [of v e] show ?case by auto
qed

subsection \<open>The properties\<close>

fun client_events :: "client_event list \<Rightarrow> tcp_client \<Rightarrow> tcp_client option" where
  "client_events [] v = Some v"
| "client_events (e # es) v = (if client_may e v then do { v \<leftarrow> client_do e v; client_events es v } else None)"

lemma client_events_reach: "client_events es v = Some v' \<Longrightarrow> client_reach name v \<Longrightarrow> client_reach name v'"
  by (induction es arbitrary: v) (auto split: if_splits Option.bind_splits intro: client_reach.step)

text \<open>A client that reconnects, connected: the attempt succeeded and its channel was reset.\<close>

lemma sample_client:
  "\<exists>v. client_reach ''c'' v \<and> connection v = Some 0 \<and> length (cl_conns v) = 1 \<and> cl_alive v \<and> cl_retry v \<and> cl_connect v
     \<and> pending (connector_of v) = [] \<and> queued (cl_conns v ! 0) = [] \<and> conn_state (cl_conns v ! 0) = kConnected
     \<and> close_count (cl_conns v ! 0) = 0"
proof -
  have "\<exists>v. client_events [L_enableRetry, L_connect True (7, EINPROGRESS), L_connector (K_event POLLOUT 0 False) ''h:80'' False,
        L_connector (K_functor (8, 0)) ''h:80'' False] (new_TcpClient ''c'') = Some v
      \<and> connection v = Some 0 \<and> length (cl_conns v) = 1 \<and> cl_alive v \<and> cl_retry v \<and> cl_connect v
      \<and> pending (connector_of v) = [] \<and> queued (cl_conns v ! 0) = [] \<and> conn_state (cl_conns v ! 0) = kConnected
      \<and> close_count (cl_conns v ! 0) = 0"
    by (simp add: new_TcpClient_def enableRetry_def client_connect_def at_rest_def connector_start_def startInLoop_def new_Connector_def
        errnos connecting_def connector_setState_def queue_functor_def removeAndResetChannel_def
        connector_event_def handleEvent_def handleEventWithGuard_def connector_callbacks_def connector_handleWrite_def
        channel_remove_def resetChannel_def delete_Channel_def Let_def new_Channel_def enableWriting_def disableAll_def
        channel_update_def isNoneEvent_def upd_chan_def set_revents_def has_def poll_masks kWriteEvent_def kNoneEvent_def
        client_newConnection_def connectEstablished_def new_TcpConnection_def connectionCallback_def notify_def setState_def
        close_count_def)
  then show ?thesis using client_events_reach [OF _ client_reach.init] by blast
qed





text \<open>when its connection closes, a client that was asked to retry and was not disconnected or stopped starts its
  connector again at once: a new attempt is in progress, or is to be made in 500 ms when the kernel refused
  this one for now; an error that is not temporary ends the attempts. Otherwise the connector is left alone.\<close>

theorem client_reconnects:
  assumes "client_reach name v" "client_may (L_conn i e ans) v" "cl_alive v"
    and "conn_do e (cl_conns v ! i) = Some c" "close_count (cl_conns v ! i) < close_count c"
  shows "\<exists>v'. client_do (L_conn i e ans) v = Some v' \<and> connection v' = None \<and> cl_destroying v' = cl_destroying v @ [i]
    \<and> (if cl_retry v \<and> cl_connect v then
         (if snd ans \<in> {0, EINPROGRESS, EINTR, EISCONN}
          then cstate (connector_of v') = C_Connecting \<and> owned (connector_of v') = [fst ans]
          else cstate (connector_of v') = C_Disconnected \<and> owned (connector_of v') = []
            \<and> retry_timers (connector_of v') = (if snd ans \<in> {EAGAIN, EADDRINUSE, EADDRNOTAVAIL, ECONNREFUSED, ENETUNREACH} then [500] else []))
       else connector_of v' = connector_of v)"
proof -
  obtain v' where v': "client_do (L_conn i e ans) v = Some v'" "client_inv v'"
    using client_do_inv [OF client_reach_inv [OF assms(1)] assms(2)] by blast
  define k where "k = (connector_of v)\<lparr>cstate := C_Disconnected, retryDelayMs := kInitRetryDelayMs, delays := [], connect_wanted := True\<rparr>"
  have "client_removeConnection i ans (set_client_conn i c v) = Some v'"
    using v'(1) assms(3-5) by (simp add: Let_def set_client_conn_def)
  then have run: "connection v' = None" "cl_destroying v' = cl_destroying v @ [i]" "connection v = Some i"
    "if cl_retry v \<and> cl_connect v then startInLoop ans k = Some (connector_of v') else connector_of v' = connector_of v"
    by (auto simp: client_removeConnection_def set_client_conn_def restart_connector_def connector_setState_def k_def Let_def
        run_simps split: if_splits)
  have link: "link_ok v" using client_reach_inv [OF assms(1)] by (simp add: client_inv_def)
  then have "connector_inv False (connector_of v)" "cstate (connector_of v) = C_Connected"
    using connector_reach_inv run(3) by (auto simp: link_ok_def)
  then have own: "owned k = []" "retry_timers k = []" "cstate k = C_Disconnected" "connect_wanted k" "retryDelayMs k = 500"
    by (simp_all add: connector_inv_def k_def kInitRetryDelayMs_def)
  obtain fd err where ans: "ans = (fd, err)" by fastforce
  have "if snd ans \<in> {0, EINPROGRESS, EINTR, EISCONN} then cstate k' = C_Connecting \<and> owned k' = [fst ans]
      else cstate k' = C_Disconnected \<and> owned k' = []
        \<and> retry_timers k' = (if snd ans \<in> {EAGAIN, EADDRINUSE, EADDRNOTAVAIL, ECONNREFUSED, ENETUNREACH} then [500] else [])"
    if s: "startInLoop ans k = Some k'" for k'
  proof -
    have s': "connector_connect (fd, err) k = Some k'" using s own(3,4) by (simp add: startInLoop_def ans)
    consider "err \<in> {0, EINPROGRESS, EINTR, EISCONN}"
      | "err \<notin> {0, EINPROGRESS, EINTR, EISCONN}" "err \<in> {EAGAIN, EADDRINUSE, EADDRNOTAVAIL, ECONNREFUSED, ENETUNREACH}"
      | "err \<notin> {0, EINPROGRESS, EINTR, EISCONN}" "err \<notin> {EAGAIN, EADDRINUSE, EADDRNOTAVAIL, ECONNREFUSED, ENETUNREACH}" by blast
    then show ?thesis
    proof cases
      case 1
      then have "connecting fd (k\<lparr>owned := [fd]\<rparr>) = Some k'" using s' own(1) by (simp add: run_simps Let_def)
      then show ?thesis unfolding ans fst_conv snd_conv if_P [OF 1]
        by (auto simp: connecting_def connector_setState_def run_simps Let_def)
    next
      case 2
      then have "k' = retry fd (k\<lparr>owned := [fd]\<rparr>)" using s' own(1) by (simp add: run_simps Let_def)
      then show ?thesis unfolding ans fst_conv snd_conv if_not_P [OF 2(1)] if_P [OF 2(2)] using own by simp
    next
      case 3
      then have "k' = close_fd fd (k\<lparr>owned := [fd]\<rparr>)" using s' own(1) by (auto simp: run_simps Let_def split: if_splits)
      then show ?thesis unfolding ans fst_conv snd_conv if_not_P [OF 3(1)] if_not_P [OF 3(2)] using own
        by (simp add: close_fd_def)
    qed
  qed
  with v'(1) run show ?thesis by (auto split: if_splits)
qed

theorem client_reconnects_witness:
  "\<exists>v v'. client_reach ''c'' v \<and> client_do (L_conn 0 (E_run (Wrote 0)) (9, EINPROGRESS)) v = Some v'
     \<and> cstate (connector_of v') = C_Connecting \<and> owned (connector_of v') = [9]"
proof -
  obtain u where u: "client_reach ''c'' u" "connection u = Some 0" "length (cl_conns u) = 1" "cl_alive u" "cl_retry u" "cl_connect u"
    "pending (connector_of u) = []" "queued (cl_conns u ! 0) = []" "conn_state (cl_conns u ! 0) = kConnected"
    "close_count (cl_conns u ! 0) = 0" using sample_client by blast
  define d where "d = forceClose (cl_conns u ! 0)"
  have d: "queued d = [F_forceCloseInLoop]" "conn_state d = kDisconnecting" "close_count d = 0"
    using u(8-10) by (simp_all add: d_def forceClose_def setState_def queueFunctor_def close_count_def)
  let ?v = "set_client_conn 0 d u"
  have may: "client_may (L_conn 0 E_forceClose (9, EINPROGRESS)) u" using u(3) by (simp add: quiet_event_def)
  have "client_do (L_conn 0 E_forceClose (9, EINPROGRESS)) u = Some ?v" using u(3,10) d(3) by (simp add: d_def [symmetric])
  then have v: "client_reach ''c'' ?v" by (rule client_reach.step [OF u(1) may])
  have at: "cl_conns ?v ! 0 = d" "cl_alive ?v" "cl_retry ?v" "cl_connect ?v" "length (cl_conns ?v) = 1" "pending (connector_of ?v) = []"
    using u by (simp_all add: set_client_conn_def)
  have may': "client_may (L_conn 0 (E_run (Wrote 0)) (9, EINPROGRESS)) ?v" using at d(1) by (simp add: quiet_event_def)
  obtain c where c: "conn_do (E_run (Wrote 0)) d = Some c" "close_count d < close_count c"
    using d by (auto simp: forceCloseInLoop_def handleClose_def notify_def connectionCallback_def setState_def close_count_def Let_def require_def)
  obtain v' where v': "client_do (L_conn 0 (E_run (Wrote 0)) (9, EINPROGRESS)) ?v = Some v'"
    "if cl_retry ?v \<and> cl_connect ?v then
       (if snd (9 :: int, EINPROGRESS) \<in> {0, EINPROGRESS, EINTR, EISCONN}
        then cstate (connector_of v') = C_Connecting \<and> owned (connector_of v') = [fst (9, EINPROGRESS)]
        else cstate (connector_of v') = C_Disconnected \<and> owned (connector_of v') = []
          \<and> retry_timers (connector_of v') = (if snd (9 :: int, EINPROGRESS) \<in> {EAGAIN, EADDRINUSE, EADDRNOTAVAIL, ECONNREFUSED, ENETUNREACH} then [500] else []))
     else connector_of v' = connector_of ?v"
    using client_reconnects [OF v may' at(2), unfolded at(1), OF c] by blast
  from v'(2) at(3,4) have "cstate (connector_of v') = C_Connecting" "owned (connector_of v') = [9]" by simp_all
  with v v'(1) show ?thesis by blast
qed

text \<open>The name of a connection tells it from the others of its client only when the peer's address is short enough for the buffer.\<close>

lemma client_names:
  "length peer \<le> 21 \<Longrightarrow> m < 10 ^ 8 \<Longrightarrow> n < 10 ^ 8 \<Longrightarrow> client_conn_name peer m v = client_conn_name peer n v \<longleftrightarrow> m = n"
  "30 \<le> length peer \<Longrightarrow> client_conn_name peer m v = client_conn_name peer n v"
proof -
  assume "length peer \<le> 21" "m < 10 ^ 8" "n < 10 ^ 8"
  moreover from this have "length (dec_nat m) \<le> 8" "length (dec_nat n) \<le> 8" by (auto intro!: length_dec_nat)
  ultimately show "client_conn_name peer m v = client_conn_name peer n v \<longleftrightarrow> m = n"
    by (simp add: client_conn_name_def snprintf_to_def)
qed (simp add: client_conn_name_def snprintf_to_def)

end
