(* ===== verification/Log_Stream.thy ===== *)
theory Log_Stream
  imports Calendar_Date "HOL-Library.Sublist"
begin

text \<open>
  muduo/base/LogStream.h and LogStream.cc: the conversions of integers to text, the fixed buffer and the
  stream that appends to it. The buffer is its array, whatever it holds, and the place of \<open>cur_\<close>; a write
  outside the array is None. An integer of any of the types is its value. What snprintf prints for a
  double or for Fmt is an argument.
\<close>

subsection \<open>Conversions\<close>

definition log_digits :: string where "log_digits = ''9876543210123456789''"

definition zero_at :: "int \<Rightarrow> char" where
  "zero_at lsd = log_digits ! nat (9 + lsd)"

definition digitsHex :: string where "digitsHex = ''0123456789ABCDEF''"

lemma abs_sdiv_10: "\<bar>i sdiv 10\<bar> = \<bar>i\<bar> div 10" and abs_smod_10: "\<bar>i smod 10\<bar> = \<bar>i\<bar> mod (10 :: int)"
  by (cases "i = 0"; simp add: signed_divide_int_def signed_modulo_int_def abs_mult abs_sgn_eq)+

text \<open>The loop of \<open>convert\<close>: the digits from the last to the first.\<close>

function convert_loop :: "int \<Rightarrow> string" where
  "convert_loop i =
     (let lsd = i smod 10; i = i sdiv 10
      in zero_at lsd # (if i \<noteq> 0 then convert_loop i else []))"
  by auto
termination
proof (relation "measure (\<lambda>i. nat \<bar>i\<bar>)")
  fix i lsd j :: int
  assume j: "j = i sdiv 10" "j \<noteq> 0"
  then have "i \<noteq> 0" by (auto simp: signed_divide_int_def)
  moreover have "\<bar>j\<bar> = \<bar>i\<bar> div 10" unfolding j(1) by (rule abs_sdiv_10)
  ultimately show "(j, i) \<in> measure (\<lambda>i. nat \<bar>i\<bar>)" by auto
qed simp

declare convert_loop.simps [simp del]

definition convert :: "int \<Rightarrow> string" where
  "convert value = rev (convert_loop value @ (if value < 0 then ''-'' else []))"

lemma unat_div_16: "unat (i div 16 :: u64) = unat i div 16"
  by (simp add: unat_div_distrib)

lemma div_16_zero: "(i :: u64) div 16 = 0 \<longleftrightarrow> unat i div 16 = 0"
  using unat_div_16 [of i] unsigned_eq_0_iff [where w = "i div 16" and ?'a = nat] by (simp only:)

function convertHex_loop :: "u64 \<Rightarrow> string" where
  "convertHex_loop i =
     (let lsd = unat (i mod 16); i = i div 16
      in digitsHex ! lsd # (if i \<noteq> 0 then convertHex_loop i else []))"
  by auto
termination
proof (relation "measure unat")
  fix i j :: u64 and lsd
  assume "j = i div 16" "j \<noteq> 0"
  then have "unat j = unat i div 16" "unat i div 16 \<noteq> 0" by (simp_all only: unat_div_16 div_16_zero not_False_eq_True)
  then show "(j, i) \<in> measure unat" by simp
qed simp

declare convertHex_loop.simps [simp del]

definition convertHex :: "u64 \<Rightarrow> string" where
  "convertHex value = rev (convertHex_loop value)"

lemma zero_at_digit: "- 10 < d \<Longrightarrow> d < 10 \<Longrightarrow> zero_at d = digit (nat \<bar>d\<bar>)"
proof -
  assume "- 10 < d" "d < 10"
  then have "d \<in> {- 9, - 8, - 7, - 6, - 5, - 4, - 3, - 2, - 1, 0, 1, 2, 3, 4, 5, 6, 7, 8, 9}" by (simp, presburger)
  then show ?thesis by (elim insertE emptyE; simp add: zero_at_def log_digits_def digit_def char_of_def bit_iff_odd)
qed

lemma convert_loop_digits: "convert_loop i = rev (dec_nat (nat \<bar>i\<bar>))"
proof (induction i rule: convert_loop.induct)
  case (1 i)
  have q: "\<bar>i sdiv 10\<bar> = \<bar>i\<bar> div 10" "\<bar>i smod 10\<bar> = \<bar>i\<bar> mod 10"
    by (rule abs_sdiv_10, rule abs_smod_10)
  have z: "zero_at (i smod 10) = digit (nat \<bar>i\<bar> mod 10)"
    using zero_at_digit [of "i smod 10"] q(2) by (simp add: nat_mod_distrib abs_less_iff)
  have n: "nat \<bar>i sdiv 10\<bar> = nat \<bar>i\<bar> div 10" using q(1) by (simp add: nat_div_distrib)
  show ?case
  proof (cases "i sdiv 10 = 0")
    case True
    then have "nat \<bar>i\<bar> div 10 = 0" using n by simp
    then have small: "nat \<bar>i\<bar> < 10" by simp
    with True z show ?thesis by (subst convert_loop.simps, subst dec_nat.simps) simp
  next
    case False
    then have "\<not> nat \<bar>i\<bar> < 10" using n by auto
    with False z n "1.IH" show ?thesis by (subst convert_loop.simps, subst dec_nat.simps) simp
  qed
qed

definition hex_digit_value :: "char \<Rightarrow> nat" where
  "hex_digit_value c = (if of_char c < (58 :: nat) then of_char c - 48 else of_char c - 55)"

definition hex_value :: "string \<Rightarrow> nat" where
  "hex_value s = foldl (\<lambda>a c. 16 * a + hex_digit_value c) 0 s"

lemma hex_digit: "d < 16 \<Longrightarrow> hex_digit_value (digitsHex ! d) = d"
proof -
  assume "d < 16"
  then have "d \<in> {0, 1, 2, 3, 4, 5, 6, 7, 8, 9, 10, 11, 12, 13, 14, 15}" by (simp, presburger)
  then show ?thesis by (elim insertE emptyE; simp add: digitsHex_def hex_digit_value_def)
qed

lemma convertHex_loop_value: "hex_value (rev (convertHex_loop i)) = unat i"
proof (induction i rule: convertHex_loop.induct)
  case (1 i)
  have q: "unat (i div 16) = unat i div 16" "unat (i mod 16) = unat i mod 16" by (simp_all add: unat_div_distrib unat_mod_distrib)
  show ?case
  proof (cases "i div 16 = 0")
    case True
    then have "unat i div 16 = 0" by (simp only: div_16_zero)
    with True hex_digit [of "unat i mod 16"] show ?thesis
      by (subst convertHex_loop.simps) (simp add: hex_value_def q Let_def)
  next
    case False
    with "1.IH" hex_digit [of "unat i mod 16"] show ?thesis
      by (subst convertHex_loop.simps) (simp add: hex_value_def q Let_def)
  qed
qed

lemma conversion_prints: "convert i = dec_int i"
  using convert_loop_digits [of i] by (simp add: convert_def dec_int_def)

text \<open>the integer conversion prints what the decimal printing of snprintf prints, for every value of every integer
  type, the least negative one too, whose digits it takes from negative remainders; and the hexadecimal conversion of a
  pointer reads back as its value.\<close>

theorem conversions_print_the_value:
  "convert i = dec_int i \<and> hex_value (convertHex p) = unat p"
  using conversion_prints convertHex_loop_value [of p] by (simp add: convertHex_def)

lemma length_convert: "- (2 ^ 63) \<le> i \<Longrightarrow> i < 2 ^ 64 \<Longrightarrow> length (convert i) \<le> 20"
proof -
  assume i: "- (2 ^ 63) \<le> i" "i < 2 ^ 64"
  show ?thesis
  proof (cases "i < 0")
    case True
    then have "nat \<bar>i\<bar> < 10 ^ 19" using i by (simp add: nat_less_iff)
    then have "length (dec_nat (nat \<bar>i\<bar>)) \<le> 19" by (rule length_dec_nat) simp
    with True show ?thesis by (simp add: convert_def convert_loop_digits)
  next
    case False
    then have "nat \<bar>i\<bar> < 10 ^ 20" using i by (simp add: nat_less_iff)
    then have "length (dec_nat (nat \<bar>i\<bar>)) \<le> 20" by (rule length_dec_nat) simp
    with False show ?thesis by (simp add: convert_def convert_loop_digits)
  qed
qed

lemma length_convertHex_loop: "unat i < 16 ^ n \<Longrightarrow> 0 < n \<Longrightarrow> length (convertHex_loop i) \<le> n"
proof (induction i arbitrary: n rule: convertHex_loop.induct)
  case (1 i)
  show ?case
  proof (cases "i div 16 = 0")
    case True
    with "1.prems" show ?thesis by (subst convertHex_loop.simps) (simp add: Let_def)
  next
    case False
    then have "unat i div 16 \<noteq> 0" by (simp only: div_16_zero not_False_eq_True)
    then obtain m where n: "n = Suc m" "0 < m" using "1.prems" by (cases n; cases "n - 1") auto
    then have "unat (i div 16) < 16 ^ m" using "1.prems" by (simp add: unat_div_distrib less_mult_imp_div_less mult.commute)
    with "1.IH" [OF refl refl False this n(2)] False n show ?thesis by (subst convertHex_loop.simps) (simp add: Let_def)
  qed
qed

lemma length_convertHex: "length (convertHex p) \<le> 16"
  using length_convertHex_loop [of p 16] unsigned_less [where w = p and ?'a = nat] by (simp add: convertHex_def)

subsection \<open>The fixed buffer\<close>

record fixed_buffer =
  fb_data :: string
  fb_cur :: nat

definition kSmallBuffer :: nat where "kSmallBuffer = 4000"
definition kMaxNumericSize :: int where "kMaxNumericSize = 32"

text \<open>\<open>garbage\<close>: what the array holds before anything is written to it.\<close>

definition new_FixedBuffer :: "string \<Rightarrow> fixed_buffer" where
  "new_FixedBuffer garbage = \<lparr>fb_data = garbage, fb_cur = 0\<rparr>"

definition fb_avail :: "fixed_buffer \<Rightarrow> int" where
  "fb_avail b = int (length (fb_data b)) - int (fb_cur b)"

definition fb_write :: "nat \<Rightarrow> string \<Rightarrow> fixed_buffer \<Rightarrow> fixed_buffer option" where
  "fb_write pos s b =
     (if pos + length s \<le> length (fb_data b)
      then Some (b\<lparr>fb_data := take pos (fb_data b) @ s @ drop (pos + length s) (fb_data b)\<rparr>) else None)"

definition fb_add :: "nat \<Rightarrow> fixed_buffer \<Rightarrow> fixed_buffer" where
  "fb_add len b = b\<lparr>fb_cur := fb_cur b + len\<rparr>"

definition fb_append :: "string \<Rightarrow> fixed_buffer \<Rightarrow> fixed_buffer option" where
  "fb_append buf b =
     (if fb_avail b > int (length buf)
      then do { b \<leftarrow> fb_write (fb_cur b) buf b; Some (fb_add (length buf) b) }
      else Some b)"

definition fb_reset :: "fixed_buffer \<Rightarrow> fixed_buffer" where
  "fb_reset b = b\<lparr>fb_cur := 0\<rparr>"

definition fb_bzero :: "fixed_buffer \<Rightarrow> fixed_buffer" where
  "fb_bzero b = b\<lparr>fb_data := replicate (length (fb_data b)) (CHR 0x00)\<rparr>"

definition fb_toString :: "fixed_buffer \<Rightarrow> string" where
  "fb_toString b = take (fb_cur b) (fb_data b)"

definition debugString :: "fixed_buffer \<Rightarrow> (string \<times> fixed_buffer) option" where
  "debugString b = do { b \<leftarrow> fb_write (fb_cur b) [CHR 0x00] b; Some (takeWhile (\<lambda>c. c \<noteq> CHR 0x00) (fb_data b), b) }"

subsection \<open>The stream\<close>

definition formatInteger :: "int \<Rightarrow> fixed_buffer \<Rightarrow> fixed_buffer option" where
  "formatInteger v b =
     (if fb_avail b \<ge> kMaxNumericSize then do {
        let s = convert v;
        b \<leftarrow> fb_write (fb_cur b) (s @ [CHR 0x00]) b;
        Some (fb_add (length s) b) }
      else Some b)"

definition put_pointer :: "u64 \<Rightarrow> fixed_buffer \<Rightarrow> fixed_buffer option" where
  "put_pointer v b =
     (if fb_avail b \<ge> kMaxNumericSize then do {
        b \<leftarrow> fb_write (fb_cur b) ''0x'' b;
        let s = convertHex v;
        b \<leftarrow> fb_write (fb_cur b + 2) (s @ [CHR 0x00]) b;
        Some (fb_add (length s + 2) b) }
      else Some b)"

definition put_double :: "string \<Rightarrow> fixed_buffer \<Rightarrow> fixed_buffer option" where
  "put_double text b =
     (if fb_avail b \<ge> kMaxNumericSize then do {
        b \<leftarrow> fb_write (fb_cur b) (take (nat kMaxNumericSize - 1) text @ [CHR 0x00]) b;
        Some (fb_add (length text) b) }
      else Some b)"

definition put_bool :: "bool \<Rightarrow> fixed_buffer \<Rightarrow> fixed_buffer option" where
  "put_bool v b = fb_append (if v then ''1'' else ''0'') b"

definition put_char :: "char \<Rightarrow> fixed_buffer \<Rightarrow> fixed_buffer option" where
  "put_char v b = fb_append [v] b"

definition put_cstr :: "string option \<Rightarrow> fixed_buffer \<Rightarrow> fixed_buffer option" where
  "put_cstr str b = (case str of
     Some s \<Rightarrow> fb_append (takeWhile (\<lambda>c. c \<noteq> CHR 0x00) s) b
   | None \<Rightarrow> fb_append ''(null)'' b)"

definition put_string :: "string \<Rightarrow> fixed_buffer \<Rightarrow> fixed_buffer option" where
  "put_string v b = fb_append v b"

definition put_buffer :: "fixed_buffer \<Rightarrow> fixed_buffer \<Rightarrow> fixed_buffer option" where
  "put_buffer v b = fb_append (fb_toString v) b"

text \<open>Fmt: what snprintf prints for the format, in an array of 32.\<close>

definition new_Fmt :: "string \<Rightarrow> string option" where
  "new_Fmt text = do { require (length text < 32); Some text }"

definition put_fmt :: "string \<Rightarrow> fixed_buffer \<Rightarrow> fixed_buffer option" where
  "put_fmt fmt b = fb_append fmt b"

subsection \<open>Whole items or nothing\<close>

datatype log_item = LBool bool | LInt int | LPtr u64 | LDouble string | LChar char | LCstr "string option" | LString string
  | LFmt string

fun put_item :: "log_item \<Rightarrow> fixed_buffer \<Rightarrow> fixed_buffer option" where
  "put_item (LBool v) b = put_bool v b"
| "put_item (LInt v) b = formatInteger v b"
| "put_item (LPtr p) b = put_pointer p b"
| "put_item (LDouble text) b = put_double text b"
| "put_item (LChar c) b = put_char c b"
| "put_item (LCstr s) b = put_cstr s b"
| "put_item (LString s) b = put_string s b"
| "put_item (LFmt text) b = do { fmt \<leftarrow> new_Fmt text; put_fmt fmt b }"

fun put_items :: "log_item list \<Rightarrow> fixed_buffer \<Rightarrow> fixed_buffer option" where
  "put_items [] b = Some b"
| "put_items (x # xs) b = do { b \<leftarrow> put_item x b; put_items xs b }"

text \<open>Values of the integer types, and what \<open>%.12g\<close> can print for a double: at most 19 characters.\<close>

fun typed_item :: "log_item \<Rightarrow> bool" where
  "typed_item (LInt v) \<longleftrightarrow> - (2 ^ 63) \<le> v \<and> v < 2 ^ 64"
| "typed_item (LDouble text) \<longleftrightarrow> length text \<le> 19"
| "typed_item x \<longleftrightarrow> True"

text \<open>Items whose text does not fail the assertion in the constructor of Fmt.\<close>

definition long_fmt :: "log_item \<Rightarrow> bool" where
  "long_fmt x \<longleftrightarrow> (\<exists>text. x = LFmt text \<and> 32 \<le> length text)"

definition item_ok :: "log_item \<Rightarrow> bool" where
  "item_ok x \<longleftrightarrow> typed_item x \<and> \<not> long_fmt x"

lemma item_ok_simps [simp]:
  "item_ok (LInt v) \<longleftrightarrow> - (2 ^ 63) \<le> v \<and> v < 2 ^ 64" "item_ok (LDouble text) \<longleftrightarrow> length text \<le> 19"
  "item_ok (LFmt text) \<longleftrightarrow> length text < 32" "item_ok (LBool b)" "item_ok (LPtr p)" "item_ok (LChar c)" "item_ok (LCstr s)"
  "item_ok (LString str)"
  by (auto simp: item_ok_def long_fmt_def)

fun item_text :: "log_item \<Rightarrow> string" where
  "item_text (LBool v) = (if v then ''1'' else ''0'')"
| "item_text (LInt v) = dec_int v"
| "item_text (LPtr p) = ''0x'' @ convertHex p"
| "item_text (LDouble text) = text"
| "item_text (LChar c) = [c]"
| "item_text (LCstr s) = (case s of Some s \<Rightarrow> takeWhile (\<lambda>c. c \<noteq> CHR 0x00) s | None \<Rightarrow> ''(null)'')"
| "item_text (LString s) = s"
| "item_text (LFmt text) = text"

fun numeric :: "log_item \<Rightarrow> bool" where
  "numeric (LInt v) \<longleftrightarrow> True"
| "numeric (LPtr p) \<longleftrightarrow> True"
| "numeric (LDouble text) \<longleftrightarrow> True"
| "numeric x \<longleftrightarrow> False"

definition item_fits :: "log_item \<Rightarrow> fixed_buffer \<Rightarrow> bool" where
  "item_fits x b \<longleftrightarrow> (if numeric x then fb_avail b \<ge> kMaxNumericSize else fb_avail b > int (length (item_text x)))"

definition fb_ok :: "fixed_buffer \<Rightarrow> bool" where
  "fb_ok b \<longleftrightarrow> fb_cur b < length (fb_data b)"

text \<open>Text written at \<open>cur_\<close>, with whatever follows it, and the place moved behind it.\<close>

definition grown :: "string \<Rightarrow> fixed_buffer \<Rightarrow> fixed_buffer \<Rightarrow> bool" where
  "grown s b b' \<longleftrightarrow> fb_ok b' \<and> length (fb_data b') = length (fb_data b) \<and> fb_toString b' = fb_toString b @ s"

lemma length_fb_toString: "fb_ok b \<Longrightarrow> length (fb_toString b) = fb_cur b"
  by (simp add: fb_ok_def fb_toString_def)

lemma grown_room:
  assumes "grown s b b'" "fb_ok b"
  shows "fb_avail b' = fb_avail b - int (length s)"
proof -
  have g: "fb_ok b'" "length (fb_data b') = length (fb_data b)" "fb_toString b' = fb_toString b @ s"
    using assms(1) by (simp_all add: grown_def)
  have "fb_cur b' = length (fb_toString b @ s)" using length_fb_toString [OF g(1)] g(3) by simp
  then have "fb_cur b' = fb_cur b + length s" using length_fb_toString [OF assms(2)] by simp
  with g(2) show ?thesis by (simp add: fb_avail_def)
qed

lemma write_add_grown:
  assumes "fb_ok b" "fb_write (fb_cur b) (s @ t) b = Some c" "int (length s) < fb_avail b"
  shows "grown s b (fb_add (length s) c)"
proof -
  have "fb_cur b + length s < length (fb_data b)" using assms(3) by (simp add: fb_avail_def)
  with assms show ?thesis
    by (auto simp: grown_def fb_ok_def fb_write_def fb_add_def fb_toString_def min_def split: if_splits)
qed

lemma fb_append_grown:
  assumes "fb_ok b"
  shows "\<exists>b'. fb_append s b = Some b' \<and> (if int (length s) < fb_avail b then grown s b b' else b' = b)"
proof (cases "int (length s) < fb_avail b")
  case True
  then have "fb_cur b + length s \<le> length (fb_data b)" by (simp add: fb_avail_def)
  then obtain c where c: "fb_write (fb_cur b) (s @ []) b = Some c" by (simp add: fb_write_def)
  with True write_add_grown [OF assms c True] show ?thesis by (simp add: fb_append_def)
qed (simp add: fb_append_def)

lemma numeric_grown:
  assumes "fb_ok b" "kMaxNumericSize \<le> fb_avail b" "length s + length t \<le> 31"
  obtains c where "fb_write (fb_cur b) (s @ t) b = Some c" "grown s b (fb_add (length s) c)"
proof -
  have le: "fb_cur b + length (s @ t) \<le> length (fb_data b)" "int (length s) < fb_avail b"
    using assms(2,3) by (simp_all add: fb_avail_def kMaxNumericSize_def)
  then obtain c where "fb_write (fb_cur b) (s @ t) b = Some c" by (simp add: fb_write_def)
  with that write_add_grown [OF assms(1) this le(2)] show ?thesis by blast
qed

lemma fb_write_twice: "fb_write n s b = Some c \<Longrightarrow> fb_write (n + length s) t c = fb_write n (s @ t) b"
proof -
  assume "fb_write n s b = Some c"
  then have c: "c = b\<lparr>fb_data := take n (fb_data b) @ s @ drop (n + length s) (fb_data b)\<rparr>" "n + length s \<le> length (fb_data b)"
    by (auto simp: fb_write_def split: if_splits)
  then have "length (take n (fb_data b)) = n" by simp
  with c show ?thesis by (simp add: fb_write_def add_ac)
qed

lemma fb_write_cur: "fb_write n s b = Some c \<Longrightarrow> fb_cur c = fb_cur b"
  by (auto simp: fb_write_def split: if_splits)

lemma put_pointer_grown:
  assumes "fb_ok b" "kMaxNumericSize \<le> fb_avail b"
  shows "\<exists>b'. put_pointer p b = Some b' \<and> grown (''0x'' @ convertHex p) b b'"
proof -
  have "length ''0x'' + length (convertHex p @ [CHR 0x00]) \<le> 31" using length_convertHex [of p] by simp
  then obtain c where c: "fb_write (fb_cur b) ''0x'' b = Some c"
    using assms(2) by (auto simp: fb_write_def fb_avail_def kMaxNumericSize_def)
  have len: "length (''0x'' @ convertHex p) + length [CHR 0x00] \<le> 31" using length_convertHex [of p] by simp
  obtain d where d: "fb_write (fb_cur b) ((''0x'' @ convertHex p) @ [CHR 0x00]) b = Some d"
    "grown (''0x'' @ convertHex p) b (fb_add (length (''0x'' @ convertHex p)) d)"
    by (rule numeric_grown [OF assms len])
  have "fb_write (fb_cur c + 2) (convertHex p @ [CHR 0x00]) c = Some d"
    using fb_write_twice [OF c, of "convertHex p @ [CHR 0x00]"] fb_write_cur [OF c] d(1) by simp
  with c d(2) assms(2) show ?thesis by (simp add: put_pointer_def Let_def)
qed

lemma put_item_whole:
  assumes "fb_ok b" "item_ok x"
  shows "\<exists>b'. put_item x b = Some b' \<and> (if item_fits x b then grown (item_text x) b b' else b' = b)"
proof (cases x)
  case (LInt v)
  show ?thesis
  proof (cases "kMaxNumericSize \<le> fb_avail b")
    case True
    have "length (convert v) + length [CHR 0x00] \<le> 31" using assms(2) length_convert [of v] LInt by simp
    from numeric_grown [OF assms(1) True this] obtain c where
      "fb_write (fb_cur b) (convert v @ [CHR 0x00]) b = Some c" "grown (convert v) b (fb_add (length (convert v)) c)" by blast
    with True show ?thesis using conversion_prints [of v] by (simp add: LInt formatInteger_def item_fits_def Let_def)
  qed (simp add: LInt formatInteger_def item_fits_def)
next
  case (LPtr p)
  with put_pointer_grown [OF assms(1), of p] show ?thesis
    by (cases "kMaxNumericSize \<le> fb_avail b") (simp_all add: item_fits_def put_pointer_def)
next
  case (LDouble g)
  show ?thesis
  proof (cases "kMaxNumericSize \<le> fb_avail b")
    case True
    have len: "length g + length [CHR 0x00] \<le> 31" and t: "take (nat kMaxNumericSize - 1) g = g"
      using assms(2) LDouble by (simp_all add: kMaxNumericSize_def)
    from numeric_grown [OF assms(1) True len] obtain c where
      "fb_write (fb_cur b) (g @ [CHR 0x00]) b = Some c" "grown g b (fb_add (length g) c)" by blast
    with True t show ?thesis by (simp add: LDouble put_double_def item_fits_def)
  qed (simp add: LDouble put_double_def item_fits_def)
next
  case (LFmt g)
  with assms fb_append_grown [OF assms(1), of g] show ?thesis by (auto simp: new_Fmt_def put_fmt_def item_fits_def split: if_splits)
next
  case (LCstr str)
  with fb_append_grown [OF assms(1), of "item_text x"] show ?thesis by (cases str) (simp_all add: put_cstr_def item_fits_def)
qed (use fb_append_grown [OF assms(1), of "item_text x"] in \<open>simp_all add: put_bool_def put_char_def put_string_def item_fits_def\<close>)

lemma put_long_fmt: "long_fmt x \<Longrightarrow> put_item x b = None"
  by (auto simp: long_fmt_def new_Fmt_def)

text \<open>The items that are kept when \<open>room\<close> bytes are free: a number or a pointer needs 32, a text more bytes than it has.\<close>

fun kept :: "int \<Rightarrow> log_item list \<Rightarrow> log_item list" where
  "kept room [] = []"
| "kept room (x # xs) =
     (if (if numeric x then 32 \<le> room else int (length (item_text x)) < room)
      then x # kept (room - int (length (item_text x))) xs else kept room xs)"

text \<open>
  C34: The stream keeps every item for which there is room, whole, and nothing of any other, in the order they
  were given: a number or a pointer is kept exactly if 32 bytes are free (although it may need fewer), a text if
  more bytes are free than it has. No write leaves the buffer, which always has room for the terminating zero.
  The one thing that can end the process is the assertion of Fmt, and it does so exactly if a formatted number
  has 32 characters or more, as a large double printed with %f has.
\<close>

theorem log_stream_keeps_whole_items:
  assumes "fb_ok b" "list_all typed_item xs"
  shows "(put_items xs b = None \<longleftrightarrow> (\<exists>text. LFmt text \<in> set xs \<and> 32 \<le> length text))
    \<and> (\<forall>b'. put_items xs b = Some b' \<longrightarrow> fb_ok b' \<and> length (fb_data b') = length (fb_data b)
        \<and> fb_toString b' = fb_toString b @ concat (map item_text (kept (fb_avail b) xs)) \<and> debugString b' \<noteq> None)"
proof -
  have "(put_items xs b = None \<longleftrightarrow> (\<exists>x \<in> set xs. long_fmt x))
    \<and> (\<forall>b'. put_items xs b = Some b' \<longrightarrow> fb_ok b' \<and> length (fb_data b') = length (fb_data b)
        \<and> fb_toString b' = fb_toString b @ concat (map item_text (kept (fb_avail b) xs)))"
    using assms
  proof (induction xs arbitrary: b)
    case (Cons x xs)
    show ?case
    proof (cases "long_fmt x")
      case True
      then show ?thesis by (simp add: put_long_fmt)
    next
      case False
      then obtain c where c: "put_item x b = Some c" "if item_fits x b then grown (item_text x) b c else c = b"
        using put_item_whole [of b x] Cons.prems by (auto simp: item_ok_def)
      have ok: "fb_ok c" "length (fb_data c) = length (fb_data b)"
        using c(2) Cons.prems(1) by (auto simp: grown_def split: if_splits)
      have fits: "item_fits x b \<longleftrightarrow> (if numeric x then 32 \<le> fb_avail b else int (length (item_text x)) < fb_avail b)"
        by (simp add: item_fits_def kMaxNumericSize_def)
      show ?thesis
      proof (cases "item_fits x b")
        case True
        then have g: "grown (item_text x) b c" using c(2) by simp
        have "fb_avail c = fb_avail b - int (length (item_text x))"
          using grown_room [OF g] Cons.prems(1) by simp
        with Cons.IH [OF ok(1)] Cons.prems(2) c(1) ok(2) True fits False g show ?thesis by (simp add: grown_def)
      next
        case no: False
        with Cons.IH [OF ok(1)] Cons.prems(2) c ok(2) fits False show ?thesis by simp
      qed
    qed
  qed simp
  then show ?thesis by (auto simp: long_fmt_def debugString_def fb_write_def fb_ok_def)
qed

theorem log_stream_keeps_whole_items_witness:
  "(\<exists>b'. put_items [LInt (- 12), LString ''a long text'', LCstr None] (new_FixedBuffer (replicate 36 (CHR ''x''))) = Some b'
      \<and> fb_toString b' = ''-12a long text(null)'')
   \<and> put_items [LFmt (replicate 32 (CHR ''1''))] (new_FixedBuffer (replicate 36 (CHR ''x''))) = None"
proof
  let ?b = "new_FixedBuffer (replicate 36 (CHR ''x''))"
  let ?xs = "[LInt (- 12), LString ''a long text'', LCstr None]"
  have b: "fb_ok ?b" "fb_toString ?b = []" "fb_avail ?b = 36"
    by (simp_all add: fb_ok_def new_FixedBuffer_def fb_toString_def fb_avail_def)
  have k: "concat (map item_text (kept 36 ?xs)) = ''-12a long text(null)''" by code_simp
  obtain b' where "put_items ?xs ?b = Some b'"
    using log_stream_keeps_whole_items [OF b(1), of ?xs] by auto
  with log_stream_keeps_whole_items [OF b(1), of ?xs] k b(2,3)
  show "\<exists>b'. put_items ?xs ?b = Some b' \<and> fb_toString b' = ''-12a long text(null)''" by auto
  show "put_items [LFmt (replicate 32 (CHR ''1''))] ?b = None"
    using log_stream_keeps_whole_items [OF b(1), of "[LFmt (replicate 32 (CHR ''1''))]"] by auto
qed

end
