(* ===== verification/Conn_Pool.thy ===== *)
theory Conn_Pool
  imports Prelude Sockets_Model
begin

text \<open>
  muduo/base/thrift_connection_pool.h: the pool of client connections, with at most so many connections in
  all and per host. A lender is one caller of get_connection together with the handle it got
  (ThriftConnection). All the pool does is done under its mutex, except the wait for a connection: each
  critical section is one step of one lender, \<open>lend_do\<close>. notify_all wakes every sleeper; a sleeper may also
  wake for no reason, or have waited too long. A TInterface is its address; \<open>clients\<close> holds those allocated
  and not deleted. Whether Thrift can open a connection to an address in text and a port, and the address of
  the new client, is the argument \<open>opened\<close>.
\<close>

subsection \<open>Data\<close>

type_synonym client = nat
type_synonym host = "u32 \<times> u16"
type_synonym opener = "string \<Rightarrow> u16 \<Rightarrow> client option"

definition RESULT_ERR_GENERAL :: int where "RESULT_ERR_GENERAL = -1"
definition RESULT_ERR_INVALID_ARGUMENT :: int where "RESULT_ERR_INVALID_ARGUMENT = -2"
definition RESULT_ERR_RESOURCE_INSUFFICIENT :: int where "RESULT_ERR_RESOURCE_INSUFFICIENT = -999"
definition RESULT_ERR_THRIFT_CONNECT_FAILED :: int where "RESULT_ERR_THRIFT_CONNECT_FAILED = -201"

record thrift_conn =
  mClient :: "client option"
  mHost :: host

datatype lender =
    Outside
  | Looking host
  | Asleep host
  | Holding thrift_conn
  | Thrown int

record conn_pool =
  mActiveConns :: "host \<Rightarrow> client list option"
  mIdleConns :: "host \<Rightarrow> client list option"
  mTotalConn :: u32
  mMaxConn :: u32
  mMaxConnPerHost :: u32
  clients :: "client list"
  lenders :: "lender list"

definition new_pool :: "u32 \<Rightarrow> u32 \<Rightarrow> nat \<Rightarrow> conn_pool" where
  "new_pool maxConn maxConnPerHost n =
     \<lparr>mActiveConns = Map.empty, mIdleConns = Map.empty, mTotalConn = 0, mMaxConn = maxConn,
      mMaxConnPerHost = maxConnPerHost, clients = [], lenders = replicate n Outside\<rparr>"

subsection \<open>The pool's operations\<close>

definition init_connection_map :: "host \<Rightarrow> conn_pool \<Rightarrow> conn_pool" where
  "init_connection_map h p =
     (let p = (if mIdleConns p h = None then p\<lparr>mIdleConns := (mIdleConns p)(h \<mapsto> [])\<rparr> else p)
      in if mActiveConns p h = None then p\<lparr>mActiveConns := (mActiveConns p)(h \<mapsto> [])\<rparr> else p)"

definition ip2str :: "u32 \<Rightarrow> string" where
  "ip2str ip = dotted ip"

definition new_client :: "host \<Rightarrow> opener \<Rightarrow> int + client" where
  "new_client h opened =
     (let text_host = ip2str (fst h)
      in if text_host = '''' then Inl RESULT_ERR_INVALID_ARGUMENT
         else case opened text_host (snd h) of
                None \<Rightarrow> Inl RESULT_ERR_THRIFT_CONNECT_FAILED
              | Some c \<Rightarrow> Inr c)"

definition new_handle :: "client \<Rightarrow> host \<Rightarrow> lender" where
  "new_handle c h = Holding \<lparr>mClient = Some c, mHost = h\<rparr>"

definition has_room :: "client list \<Rightarrow> client list \<Rightarrow> conn_pool \<Rightarrow> bool" where
  "has_room idle active p \<longleftrightarrow>
     (of_nat (length idle + length active) :: u32) < mMaxConnPerHost p \<and> mTotalConn p < mMaxConn p"

text \<open>One turn of the loop of get_connection: the pool, and where the lender stands then.\<close>

definition get_turn :: "host \<Rightarrow> opener \<Rightarrow> conn_pool \<Rightarrow> (conn_pool \<times> lender) option" where
  "get_turn h opened p = do {
     idle \<leftarrow> mIdleConns p h;
     active \<leftarrow> mActiveConns p h;
     case idle of
       c # cs \<Rightarrow>
         Some (p\<lparr>mIdleConns := (mIdleConns p)(h \<mapsto> cs), mActiveConns := (mActiveConns p)(h \<mapsto> sset_insert c active)\<rparr>,
               new_handle c h)
     | [] \<Rightarrow>
         (if has_room idle active p
          then (case new_client h opened of
                  Inl e \<Rightarrow> Some (p, Thrown e)
                | Inr c \<Rightarrow> Some (p\<lparr>mActiveConns := (mActiveConns p)(h \<mapsto> sset_insert c active),
                                  mTotalConn := mTotalConn p + 1, clients := c # clients p\<rparr>,
                                new_handle c h))
          else Some (p, Asleep h))
   }"

definition set_lender :: "nat \<Rightarrow> conn_pool \<times> lender \<Rightarrow> conn_pool" where
  "set_lender t r = (fst r)\<lparr>lenders := (lenders (fst r))[t := snd r]\<rparr>"

definition get_connection :: "nat \<Rightarrow> host \<Rightarrow> opener \<Rightarrow> conn_pool \<Rightarrow> conn_pool option" where
  "get_connection t h opened p = map_option (set_lender t) (get_turn h opened (init_connection_map h p))"

fun wake_up :: "lender \<Rightarrow> lender" where
  "wake_up (Asleep h) = Looking h"
| "wake_up l = l"

definition notify_sleepers :: "conn_pool \<Rightarrow> conn_pool" where
  "notify_sleepers p = p\<lparr>lenders := map wake_up (lenders p)\<rparr>"

definition return_connection :: "client \<Rightarrow> host \<Rightarrow> conn_pool \<Rightarrow> conn_pool option" where
  "return_connection c h p =
     (case mActiveConns p h of
        None \<Rightarrow> Some p
      | Some active \<Rightarrow> do {
          idle \<leftarrow> mIdleConns p h;
          Some (notify_sleepers (p\<lparr>mIdleConns := (mIdleConns p)(h \<mapsto> c # idle),
                                   mActiveConns := (mActiveConns p)(h \<mapsto> sset_erase c active)\<rparr>)) })"

definition destroy_connection :: "client \<Rightarrow> host \<Rightarrow> conn_pool \<Rightarrow> conn_pool option" where
  "destroy_connection c h p =
     (case mActiveConns p h of
        None \<Rightarrow> Some p
      | Some active \<Rightarrow> do {
          require (c \<in> set (clients p));
          Some (p\<lparr>mActiveConns := (mActiveConns p)(h \<mapsto> sset_erase c active),
                  clients := remove1 c (clients p), mTotalConn := mTotalConn p - 1\<rparr>) })"

subsection \<open>The handle\<close>

definition get_client :: "thrift_conn \<Rightarrow> int + client" where
  "get_client k = (case mClient k of None \<Rightarrow> Inl RESULT_ERR_GENERAL | Some c \<Rightarrow> Inr c)"

definition drop_handle :: "thrift_conn \<Rightarrow> conn_pool \<Rightarrow> conn_pool option" where
  "drop_handle k p = (case mClient k of None \<Rightarrow> Some p | Some c \<Rightarrow> return_connection c (mHost k) p)"

definition destroy_handle :: "thrift_conn \<Rightarrow> conn_pool \<Rightarrow> (conn_pool \<times> thrift_conn) option" where
  "destroy_handle k p =
     (case mClient k of
        None \<Rightarrow> Some (p, k)
      | Some c \<Rightarrow> do { p' \<leftarrow> destroy_connection c (mHost k) p; Some (p', k\<lparr>mClient := None\<rparr>) })"

subsection \<open>Steps\<close>

text \<open>
  \<open>Asks\<close>: a call of get_connection up to its first wait. \<open>Retries\<close>: a woken lender has the mutex again.
  \<open>Wakes\<close>: it woke for no reason. \<open>Waited\<close>: timed_wait gave up. \<open>Destroys\<close>, \<open>Drops\<close>: destroy() and the
  destructor of the handle. A step that does not fit where the lender stands is no step.
\<close>

datatype lend_event =
    Asks nat host opener
  | Retries nat opener
  | Wakes nat
  | Waited nat
  | Destroys nat
  | Drops nat

definition stands :: "conn_pool \<Rightarrow> nat \<Rightarrow> lender option" where
  "stands p t = (if t < length (lenders p) then Some (lenders p ! t) else None)"

fun may_ask :: "lender option \<Rightarrow> bool" where
  "may_ask (Some Outside) = True"
| "may_ask (Some (Thrown e)) = True"
| "may_ask _ = False"

fun lend_do :: "lend_event \<Rightarrow> conn_pool \<Rightarrow> conn_pool option" where
  "lend_do (Asks t h opened) p = (if may_ask (stands p t) then get_connection t h opened p else Some p)"
| "lend_do (Retries t opened) p =
     (case stands p t of
        Some (Looking h) \<Rightarrow> map_option (set_lender t) (get_turn h opened p)
      | _ \<Rightarrow> Some p)"
| "lend_do (Wakes t) p = Some (p\<lparr>lenders := (lenders p)[t := wake_up (lenders p ! t)]\<rparr>)"
| "lend_do (Waited t) p =
     (case stands p t of
        Some (Asleep h) \<Rightarrow> Some (set_lender t (p, Thrown RESULT_ERR_RESOURCE_INSUFFICIENT))
      | _ \<Rightarrow> Some p)"
| "lend_do (Destroys t) p =
     (case stands p t of
        Some (Holding k) \<Rightarrow> map_option (\<lambda>(p', k'). set_lender t (p', Holding k')) (destroy_handle k p)
      | _ \<Rightarrow> Some p)"
| "lend_do (Drops t) p =
     (case stands p t of
        Some (Holding k) \<Rightarrow> map_option (\<lambda>p'. set_lender t (p', Outside)) (drop_handle k p)
      | _ \<Rightarrow> Some p)"

text \<open>The allocator gives a new client an address that no other client has.\<close>

definition opens_fresh :: "host \<Rightarrow> opener \<Rightarrow> conn_pool \<Rightarrow> bool" where
  "opens_fresh h opened p = (case opened (ip2str (fst h)) (snd h) of None \<Rightarrow> True | Some c \<Rightarrow> c \<notin> set (clients p))"

fun fresh_event :: "lend_event \<Rightarrow> conn_pool \<Rightarrow> bool" where
  "fresh_event (Asks t h opened) p = opens_fresh h opened p"
| "fresh_event (Retries t opened) p = (case stands p t of Some (Looking h) \<Rightarrow> opens_fresh h opened p | _ \<Rightarrow> True)"
| "fresh_event _ p = True"

inductive lends :: "conn_pool \<Rightarrow> conn_pool \<Rightarrow> bool" for p where
  none: "lends p p"
| more_lends: "lends p q \<Longrightarrow> fresh_event e q \<Longrightarrow> lend_do e q = Some q' \<Longrightarrow> lends p q'"

subsection \<open>Which connections there are\<close>

definition listed :: "(host \<Rightarrow> client list option) \<Rightarrow> host \<Rightarrow> client list" where
  "listed m h = (case m h of None \<Rightarrow> [] | Some cs \<Rightarrow> cs)"

abbreviation active_of :: "conn_pool \<Rightarrow> host \<Rightarrow> client list" where
  "active_of p \<equiv> listed (mActiveConns p)"

abbreviation idle_of :: "conn_pool \<Rightarrow> host \<Rightarrow> client list" where
  "idle_of p \<equiv> listed (mIdleConns p)"

lemma listed_simps [simp]:
  "listed Map.empty = (\<lambda>h. [])"
  "listed (m(h \<mapsto> cs)) = (listed m)(h := cs)"
  by (auto simp: listed_def fun_eq_iff)

lemma listed_entry: "m h = Some cs \<Longrightarrow> listed m h = cs" "m h = None \<Longrightarrow> listed m h = []"
  by (auto simp: listed_def)

text \<open>Each client is in one list of one host, and the lists hold the clients that exist.\<close>

definition listed_at :: "('h \<Rightarrow> client list) \<Rightarrow> ('h \<Rightarrow> client list) \<Rightarrow> 'h \<Rightarrow> client \<Rightarrow> bool" where
  "listed_at act idl h c \<longleftrightarrow> c \<in> set (act h) \<or> c \<in> set (idl h)"

definition lists_ok :: "('h \<Rightarrow> client list) \<Rightarrow> ('h \<Rightarrow> client list) \<Rightarrow> bool" where
  "lists_ok act idl \<longleftrightarrow> (\<forall>h. strict (act h) \<and> distinct (idl h) \<and> set (act h) \<inter> set (idl h) = {})"

definition homes :: "('h \<Rightarrow> client \<Rightarrow> bool) \<Rightarrow> client list \<Rightarrow> bool" where
  "homes P cs \<longleftrightarrow> distinct cs \<and> (\<forall>c. c \<in> set cs \<longleftrightarrow> (\<exists>h. P h c)) \<and> (\<forall>h h' c. P h c \<longrightarrow> P h' c \<longrightarrow> h = h')"

definition partitioned :: "('h \<Rightarrow> client list) \<Rightarrow> ('h \<Rightarrow> client list) \<Rightarrow> client list \<Rightarrow> bool" where
  "partitioned act idl cs \<longleftrightarrow> lists_ok act idl \<and> homes (listed_at act idl) cs"

lemma lists_okD:
  "lists_ok act idl \<Longrightarrow> strict (act h) \<and> distinct (act h) \<and> distinct (idl h) \<and> set (act h) \<inter> set (idl h) = {}"
  by (simp add: lists_ok_def strict_distinct)

lemma partitioned_known:
  "partitioned act idl cs \<Longrightarrow> c \<in> set (act h) \<or> c \<in> set (idl h) \<Longrightarrow> c \<in> set cs"
  by (auto simp: partitioned_def homes_def listed_at_def)

lemma partitioned_length:
  assumes p: "partitioned act idl cs"
  shows "length (idl h) + length (act h) \<le> length cs"
proof -
  have "distinct (idl h @ act h)" using lists_okD [of act idl h] p by (auto simp: partitioned_def)
  moreover have "set (idl h @ act h) \<subseteq> set cs" using partitioned_known [OF p] by auto
  moreover have "distinct cs" using p by (simp add: partitioned_def homes_def)
  ultimately have "length (idl h @ act h) \<le> length cs" by (metis card_mono distinct_card finite_set)
  then show ?thesis by simp
qed

lemma homes_create: "homes P cs \<Longrightarrow> c \<notin> set cs \<Longrightarrow> homes (\<lambda>h' c'. P h' c' \<or> h' = h \<and> c' = c) (c # cs)"
  unfolding homes_def by (auto; metis)

lemma homes_destroy: "homes P cs \<Longrightarrow> homes (\<lambda>h' c'. P h' c' \<and> c' \<noteq> c) (remove1 c cs)"
  unfolding homes_def by (auto; metis)

lemma partitioned_lend:
  assumes p: "partitioned act idl cs" and i: "idl h = c # ids"
  shows "partitioned (act(h := sset_insert c (act h))) (idl(h := ids)) cs"
proof -
  have "listed_at (act(h := sset_insert c (act h))) (idl(h := ids)) = listed_at act idl"
    using i by (auto simp: listed_at_def fun_eq_iff)
  moreover have "lists_ok (act(h := sset_insert c (act h))) (idl(h := ids))"
    using p lists_okD [of act idl h] i by (auto simp: partitioned_def lists_ok_def)
  ultimately show ?thesis using p by (simp add: partitioned_def)
qed

lemma partitioned_create:
  assumes p: "partitioned act idl cs" and c: "c \<notin> set cs"
  shows "partitioned (act(h := sset_insert c (act h))) idl (c # cs)"
proof -
  have "listed_at (act(h := sset_insert c (act h))) idl = (\<lambda>h' c'. listed_at act idl h' c' \<or> h' = h \<and> c' = c)"
    by (auto simp: listed_at_def fun_eq_iff)
  moreover have "c \<notin> set (idl h)" using partitioned_known [OF p] c by blast
  then have "lists_ok (act(h := sset_insert c (act h))) idl"
    using p by (auto simp: partitioned_def lists_ok_def)
  ultimately show ?thesis using p c by (simp add: partitioned_def homes_create)
qed

lemma partitioned_return:
  assumes p: "partitioned act idl cs" and c: "c \<in> set (act h)"
  shows "partitioned (act(h := sset_erase c (act h))) (idl(h := c # idl h)) cs"
proof -
  have "listed_at (act(h := sset_erase c (act h))) (idl(h := c # idl h)) = listed_at act idl"
    using c by (auto simp: listed_at_def fun_eq_iff)
  moreover have "lists_ok (act(h := sset_erase c (act h))) (idl(h := c # idl h))"
    using p lists_okD [of act idl h] c by (auto simp: partitioned_def lists_ok_def)
  ultimately show ?thesis using p by (simp add: partitioned_def)
qed

lemma partitioned_destroy:
  assumes p: "partitioned act idl cs" and c: "c \<in> set (act h)"
  shows "partitioned (act(h := sset_erase c (act h))) idl (remove1 c cs)"
proof -
  have h: "h' = h" if "listed_at act idl h' c" for h'
    using p c that unfolding partitioned_def homes_def listed_at_def by blast
  have "c \<notin> set (idl h)" using p lists_okD [of act idl h] c by (auto simp: partitioned_def)
  then have "listed_at (act(h := sset_erase c (act h))) idl = (\<lambda>h' c'. listed_at act idl h' c' \<and> c' \<noteq> c)"
    using h by (auto simp: listed_at_def fun_eq_iff)
  moreover have "lists_ok (act(h := sset_erase c (act h))) idl"
    using p by (auto simp: partitioned_def lists_ok_def)
  ultimately show ?thesis using p by (simp add: partitioned_def homes_destroy)
qed

subsection \<open>The invariant\<close>

definition pool_ok :: "conn_pool \<Rightarrow> bool" where
  "pool_ok p \<longleftrightarrow>
     (\<forall>h. mActiveConns p h = None \<longleftrightarrow> mIdleConns p h = None) \<and>
     partitioned (active_of p) (idle_of p) (clients p) \<and>
     unat (mTotalConn p) = length (clients p) \<and> mTotalConn p \<le> mMaxConn p \<and>
     (\<forall>h. length (idle_of p h) + length (active_of p h) \<le> unat (mMaxConnPerHost p))"

fun holding :: "lender \<Rightarrow> (host \<times> client) option" where
  "holding (Holding k) = map_option (Pair (mHost k)) (mClient k)"
| "holding _ = None"

definition holds :: "conn_pool \<Rightarrow> nat \<Rightarrow> host \<Rightarrow> client \<Rightarrow> bool" where
  "holds p t h c \<longleftrightarrow> t < length (lenders p) \<and> holding (lenders p ! t) = Some (h, c)"

text \<open>A sleeper's host has no idle connection, and a woken one finds the entries of its host.\<close>

fun rooted :: "conn_pool \<Rightarrow> lender \<Rightarrow> bool" where
  "rooted p (Looking h) = (mIdleConns p h \<noteq> None)"
| "rooted p (Asleep h) = (mIdleConns p h = Some [])"
| "rooted p _ = True"

definition held_once :: "conn_pool \<Rightarrow> bool" where
  "held_once p \<longleftrightarrow>
     (\<forall>h c. c \<in> set (active_of p h) \<longleftrightarrow> (\<exists>t. holds p t h c)) \<and>
     (\<forall>t t' h c. holds p t h c \<longrightarrow> holds p t' h c \<longrightarrow> t = t')"

definition lenders_ok :: "conn_pool \<Rightarrow> bool" where
  "lenders_ok p \<longleftrightarrow> (\<forall>l \<in> set (lenders p). rooted p l) \<and> held_once p"

lemma holding_wake_up [simp]: "holding (wake_up l) = holding l"
  by (cases l) auto

lemma holds_set_lender:
  "holds (set_lender t (p, l)) t' h c \<longleftrightarrow>
     (if t' = t then t < length (lenders p) \<and> holding l = Some (h, c) else holds p t' h c)"
  by (auto simp: holds_def set_lender_def)

lemma holds_notify [simp]: "holds (notify_sleepers p) t h c = holds p t h c"
  by (auto simp: holds_def notify_sleepers_def)

lemma set_lender_frame [simp]:
  "mActiveConns (set_lender t (p, l)) = mActiveConns p" "mIdleConns (set_lender t (p, l)) = mIdleConns p"
  "mTotalConn (set_lender t (p, l)) = mTotalConn p" "mMaxConn (set_lender t (p, l)) = mMaxConn p"
  "mMaxConnPerHost (set_lender t (p, l)) = mMaxConnPerHost p" "clients (set_lender t (p, l)) = clients p"
  "lenders (set_lender t (p, l)) = (lenders p)[t := l]"
  by (auto simp: set_lender_def)

lemma pool_ok_set_lender [simp]: "pool_ok (set_lender t (p, l)) = pool_ok p"
  by (simp add: pool_ok_def)

lemma pool_ok_lenders [simp]: "pool_ok (p\<lparr>lenders := ls\<rparr>) = pool_ok p"
  by (simp add: pool_ok_def)

lemma rooted_set_lender [simp]: "rooted (set_lender t (p, l)) l' = rooted p l'"
  by (cases l') auto

lemma held_onceD:
  assumes "held_once p"
  shows "c \<in> set (active_of p h) \<longleftrightarrow> (\<exists>t. holds p t h c)" "holds p t h c \<Longrightarrow> holds p t' h c \<Longrightarrow> t = t'"
  using assms unfolding held_once_def by blast+

lemma held_once_lend:
  assumes h: "held_once p" and t: "t < length (lenders p)" "holding (lenders p ! t) = None"
    and q: "lenders q = lenders p" "active_of q = (active_of p)(h := sset_insert c (active_of p h))"
    and c: "c \<notin> set (active_of p h)"
  shows "held_once (set_lender t (q, new_handle c h))"
proof -
  have hq: "holds q = holds p" using q by (simp add: holds_def fun_eq_iff)
  have nt: "\<not> holds p t h' c'" for h' c' using t by (simp add: holds_def)
  have nc: "\<not> holds p t' h c" for t' using held_onceD(1) [OF h] c by blast
  have "(\<exists>t'. holds (set_lender t (q, new_handle c h)) t' h' c') \<longleftrightarrow> h' = h \<and> c' = c \<or> (\<exists>t'. holds p t' h' c')" for h' c'
    using t q by (simp add: holds_set_lender hq new_handle_def) (metis nt)
  note some = this
  show ?thesis unfolding held_once_def
  proof (intro conjI allI impI)
    show "c' \<in> set (active_of (set_lender t (q, new_handle c h)) h') \<longleftrightarrow> (\<exists>t'. holds (set_lender t (q, new_handle c h)) t' h' c')" for h' c'
      unfolding some using held_onceD(1) [OF h, of c' h'] by (simp add: q fun_upd_apply) metis
    show "t1 = t2" if "holds (set_lender t (q, new_handle c h)) t1 h' c'" "holds (set_lender t (q, new_handle c h)) t2 h' c'"
      for t1 t2 h' c'
      using that nc nt held_onceD(2) [OF h, of t1 h' c' t2]
      by (simp add: holds_set_lender hq new_handle_def split: if_splits)
  qed
qed

lemma held_once_give:
  assumes h: "held_once p" and t: "holds p t h c" and l: "holding l = None"
    and q: "holds q = holds p" "length (lenders q) = length (lenders p)"
      "active_of q = (active_of p)(h := sset_erase c (active_of p h))"
  shows "held_once (set_lender t (q, l))"
proof -
  have other: "h' = h \<and> c' = c" if "holds p t h' c'" for h' c' using that t by (simp add: holds_def)
  have mine: "t' = t" if "holds p t' h c" for t' using that t held_onceD(2) [OF h] by blast
  have rest: "holds (set_lender t (q, l)) t' h' c' \<longleftrightarrow> t' \<noteq> t \<and> holds p t' h' c'" for t' h' c'
    using l by (simp add: holds_set_lender q)
  have "(\<exists>t'. holds (set_lender t (q, l)) t' h' c') \<longleftrightarrow> \<not> (h' = h \<and> c' = c) \<and> (\<exists>t'. holds p t' h' c')" for h' c'
    unfolding rest by (metis other mine t)
  note some = this
  show ?thesis unfolding held_once_def
  proof (intro conjI allI impI)
    show "c' \<in> set (active_of (set_lender t (q, l)) h') \<longleftrightarrow> (\<exists>t'. holds (set_lender t (q, l)) t' h' c')" for h' c'
      unfolding some using held_onceD(1) [OF h, of c' h'] by (cases "h' = h") (simp_all add: q, blast)
    show "t1 = t2" if "holds (set_lender t (q, l)) t1 h' c'" "holds (set_lender t (q, l)) t2 h' c'" for t1 t2 h' c'
      using that held_onceD(2) [OF h, of t1 h' c' t2] by (simp add: rest)
  qed
qed

lemma held_once_same:
  assumes "held_once p" "holding l = None" "holding (lenders p ! t) = None"
    "lenders q = lenders p" "active_of q = active_of p"
  shows "held_once (set_lender t (q, l))"
proof -
  have "holds (set_lender t (q, l)) = holds p"
    using assms(2-4) by (intro ext) (simp add: holds_set_lender, auto simp: holds_def)
  then show ?thesis using assms by (simp add: held_once_def)
qed

subsection \<open>Every step keeps it\<close>

lemma pool_okD:
  assumes "pool_ok p"
  shows "mActiveConns p h = None \<longleftrightarrow> mIdleConns p h = None" "partitioned (active_of p) (idle_of p) (clients p)"
    "unat (mTotalConn p) = length (clients p)" "mTotalConn p \<le> mMaxConn p"
    "length (idle_of p h) + length (active_of p h) \<le> unat (mMaxConnPerHost p)"
  using assms unfolding pool_ok_def by blast+

lemma rooted_frame: "mIdleConns p = mIdleConns q \<Longrightarrow> rooted p l = rooted q l"
  by (cases l) auto

lemma rooted_less_idle: "mIdleConns p h = Some (c # cs) \<Longrightarrow> mIdleConns q = (mIdleConns p)(h \<mapsto> cs) \<Longrightarrow> rooted p l \<Longrightarrow> rooted q l"
  by (cases l) auto

lemma lenders_ok_set:
  assumes "lenders_ok p" "\<And>l. l \<in> set (lenders p) \<Longrightarrow> rooted p l \<Longrightarrow> rooted q l" "lenders q = lenders p"
    "rooted q l" "held_once (set_lender t (q, l))"
  shows "lenders_ok (set_lender t (q, l))"
  using assms set_update_subset_insert [of "lenders p" t l] by (auto simp: lenders_ok_def)

lemma host_count:
  assumes "pool_ok p"
  shows "unat (of_nat (length (idle_of p h) + length (active_of p h)) :: u32) = length (idle_of p h) + length (active_of p h)"
proof -
  have "length (idle_of p h) + length (active_of p h) \<le> unat (mTotalConn p)"
    using partitioned_length [OF pool_okD(2) [OF assms]] pool_okD(3) [OF assms] by simp
  also have "\<dots> < 2 ^ LENGTH(32)" by (rule unsigned_less)
  finally show ?thesis by (simp add: unsigned_of_nat take_bit_nat_eq_self del: of_nat_add)
qed

lemma init_connection_map_ok:
  assumes "pool_ok p" "lenders_ok p"
  shows "pool_ok (init_connection_map h p)" "lenders_ok (init_connection_map h p)"
    "mIdleConns (init_connection_map h p) h \<noteq> None" "lenders (init_connection_map h p) = lenders p"
    "clients (init_connection_map h p) = clients p"
proof -
  let ?q = "init_connection_map h p"
  have l: "active_of ?q = active_of p" "idle_of ?q = idle_of p" "lenders ?q = lenders p"
    by (auto simp: init_connection_map_def listed_def fun_eq_iff)
  have r: "rooted ?q l" if "rooted p l" for l
    using that by (cases l) (auto simp: init_connection_map_def Let_def)
  have n: "mActiveConns ?q h' = None \<longleftrightarrow> mIdleConns ?q h' = None" for h'
    using pool_okD(1) [OF assms(1), of h] pool_okD(1) [OF assms(1), of h']
    by (simp add: init_connection_map_def Let_def)
  have s: "mTotalConn ?q = mTotalConn p" "mMaxConn ?q = mMaxConn p" "mMaxConnPerHost ?q = mMaxConnPerHost p" "clients ?q = clients p"
    by (auto simp: init_connection_map_def Let_def)
  show "pool_ok ?q" using assms(1) n unfolding pool_ok_def l s by blast
  show "lenders_ok ?q"
    using assms(2) l r by (simp add: lenders_ok_def held_once_def holds_def)
  show "mIdleConns ?q h \<noteq> None" "lenders ?q = lenders p" "clients ?q = clients p"
    by (auto simp: init_connection_map_def Let_def)
qed

lemma ip2str_not_empty: "ip2str ip \<noteq> []"
  unfolding ip2str_def dotted_def by (subst memory_4) simp

lemma new_client_cases: "new_client h opened =
    (case opened (ip2str (fst h)) (snd h) of None \<Rightarrow> Inl RESULT_ERR_THRIFT_CONNECT_FAILED | Some c \<Rightarrow> Inr c)"
  by (simp add: new_client_def ip2str_not_empty)

lemma opened_fresh:
  assumes "opens_fresh h opened p" "new_client h opened = Inr c"
  shows "c \<notin> set (clients p)"
  using assms by (auto simp: opens_fresh_def new_client_cases split: option.splits)

lemma listed_entries:
  assumes "pool_ok p" "mIdleConns p h \<noteq> None"
  obtains "mIdleConns p h = Some (idle_of p h)" "mActiveConns p h = Some (active_of p h)"
  using assms(2) pool_okD(1) [OF assms(1), of h] by (cases "mIdleConns p h"; cases "mActiveConns p h") (auto simp: listed_entry)

lemma active_strict: "pool_ok p \<Longrightarrow> strict (active_of p h)"
  using pool_okD(2) [of p] lists_okD [of "active_of p" "idle_of p" h] by (auto simp: partitioned_def)

lemma idle_not_active: "pool_ok p \<Longrightarrow> c \<in> set (idle_of p h) \<Longrightarrow> c \<notin> set (active_of p h)"
  using pool_okD(2) [of p] lists_okD [of "active_of p" "idle_of p" h] by (auto simp: partitioned_def)

text \<open>The four ways the lists change.\<close>

lemma pool_ok_change:
  assumes p: "pool_ok p"
    and q: "mActiveConns q = (mActiveConns p)(h \<mapsto> act)" "mIdleConns q = (mIdleConns p)(h \<mapsto> idl)"
      "mMaxConn q = mMaxConn p" "mMaxConnPerHost q = mMaxConnPerHost p"
    and "partitioned ((active_of p)(h := act)) ((idle_of p)(h := idl)) (clients q)"
      "unat (mTotalConn q) = length (clients q)" "mTotalConn q \<le> mMaxConn p"
      "length idl + length act \<le> unat (mMaxConnPerHost p)"
  shows "pool_ok q"
  using assms pool_okD(1,5) [OF p] unfolding pool_ok_def
  by (simp add: fun_upd_apply)

lemma lend_ok:
  assumes p: "pool_ok p" and i: "idle_of p h = c # cs"
    and q: "q = p\<lparr>mIdleConns := (mIdleConns p)(h \<mapsto> cs), mActiveConns := (mActiveConns p)(h \<mapsto> sset_insert c (active_of p h))\<rparr>"
  shows "pool_ok q"
proof (rule pool_ok_change [OF p, where h = h])
  show "length cs + length (sset_insert c (active_of p h)) \<le> unat (mMaxConnPerHost p)"
    using pool_okD(5) [OF p, of h] active_strict [OF p, of h] idle_not_active [OF p, of c h] i
    by (simp add: length_sset_insert)
qed (use q i partitioned_lend [OF pool_okD(2) [OF p] i] pool_okD(3,4) [OF p] in auto)

lemma create_ok:
  assumes p: "pool_ok p" and e: "mIdleConns p h = Some []" and c: "c \<notin> set (clients p)"
    and room: "length (active_of p h) < unat (mMaxConnPerHost p)" "mTotalConn p < mMaxConn p"
    and q: "q = p\<lparr>mActiveConns := (mActiveConns p)(h \<mapsto> sset_insert c (active_of p h)), mTotalConn := mTotalConn p + 1, clients := c # clients p\<rparr>"
  shows "pool_ok q"
proof (rule pool_ok_change [OF p, where h = h])
  have "c \<notin> set (active_of p h)" using partitioned_known [OF pool_okD(2) [OF p], of c h] c by blast
  then show "length [] + length (sset_insert c (active_of p h)) \<le> unat (mMaxConnPerHost p)"
    using room active_strict [OF p, of h] by (simp add: length_sset_insert)
  have "(idle_of p)(h := []) = idle_of p" using e by (auto simp: listed_entry fun_eq_iff)
  then show "partitioned ((active_of p)(h := sset_insert c (active_of p h))) ((idle_of p)(h := [])) (clients q)"
    using partitioned_create [OF pool_okD(2) [OF p] c] q by simp
  have "unat (mTotalConn p + 1) = Suc (unat (mTotalConn p))"
  proof -
    have "unat (mTotalConn p) < unat (mMaxConn p)" using room(2) by (simp add: word_less_nat_alt)
    moreover have "unat (mMaxConn p) < 2 ^ LENGTH(32)" by (rule unsigned_less)
    ultimately have "Suc (unat (mTotalConn p)) < 2 ^ LENGTH(32)" by linarith
    then show ?thesis by (simp add: unat_word_ariths(1))
  qed
  then show "unat (mTotalConn q) = length (clients q)" "mTotalConn q \<le> mMaxConn p"
    using q pool_okD(3) [OF p] room(2) by (simp_all add: word_le_nat_alt word_less_nat_alt)
qed (use q e in \<open>auto simp: fun_eq_iff\<close>)

lemma room_there:
  assumes "pool_ok p" "has_room (idle_of p h) (active_of p h) p"
  shows "length (idle_of p h) + length (active_of p h) < unat (mMaxConnPerHost p)" "mTotalConn p < mMaxConn p"
  using assms(2) host_count [OF assms(1), of h] by (simp_all only: has_room_def word_less_nat_alt)

lemma get_turn_ok:
  assumes p: "pool_ok p" and l: "lenders_ok p" and h: "mIdleConns p h \<noteq> None" and f: "opens_fresh h opened p"
    and t: "t < length (lenders p)" "holding (lenders p ! t) = None"
  shows "\<exists>q l. get_turn h opened p = Some (q, l) \<and> pool_ok q \<and> lenders_ok (set_lender t (q, l))"
proof -
  have ia: "mIdleConns p h = Some (idle_of p h)" "mActiveConns p h = Some (active_of p h)"
    using listed_entries [OF p h] by auto
  have o: "held_once p" using l by (simp add: lenders_ok_def)
  show ?thesis
  proof (cases "idle_of p h")
    case (Cons c cs)
    let ?q = "p\<lparr>mIdleConns := (mIdleConns p)(h \<mapsto> cs), mActiveConns := (mActiveConns p)(h \<mapsto> sset_insert c (active_of p h))\<rparr>"
    have "c \<notin> set (active_of p h)" using idle_not_active [OF p, of c h] Cons by simp
    then have "held_once (set_lender t (?q, new_handle c h))" using o t by (intro held_once_lend) auto
    note once = this
    have "rooted ?q l'" if "rooted p l'" for l'
      by (rule rooted_less_idle [OF _ _ that]) (use ia Cons in auto)
    then have "lenders_ok (set_lender t (?q, new_handle c h))"
      by (rule lenders_ok_set [OF l _ _ _ once]) (simp_all add: new_handle_def)
    then show ?thesis using ia Cons lend_ok [OF p Cons] by (simp add: get_turn_def)
  next
    case Nil
    let ?room = "has_room (idle_of p h) (active_of p h) p"
    have stay: "lenders_ok (set_lender t (p, l'))" if "rooted p l'" "holding l' = None" for l'
      by (rule lenders_ok_set [OF l]) (use that o t in \<open>auto intro: held_once_same\<close>)
    consider (full) "\<not> ?room" | (failed) e where ?room "new_client h opened = Inl e"
      | (opened) c where ?room "new_client h opened = Inr c" by (cases "new_client h opened") auto
    then show ?thesis
    proof cases
      case full
      then show ?thesis using ia Nil p stay [of "Asleep h"] by (auto simp: get_turn_def)
    next
      case failed
      then show ?thesis using ia Nil p stay [of "Thrown e"] by (simp add: get_turn_def)
    next
      case opened
      let ?q = "p\<lparr>mActiveConns := (mActiveConns p)(h \<mapsto> sset_insert c (active_of p h)), mTotalConn := mTotalConn p + 1,
        clients := c # clients p\<rparr>"
      have c: "c \<notin> set (clients p)" by (rule opened_fresh [OF f opened(2)])
      then have ca: "c \<notin> set (active_of p h)" using partitioned_known [OF pool_okD(2) [OF p], of c h] by blast
      have "length (active_of p h) < unat (mMaxConnPerHost p)"
        using room_there [OF p opened(1)] Nil by simp
      then have "pool_ok ?q"
        using room_there [OF p opened(1)] ia Nil c by (intro create_ok [OF p _ c]) simp_all
      moreover have once: "held_once (set_lender t (?q, new_handle c h))" using o t ca by (intro held_once_lend) auto
      have "rooted ?q l' = rooted p l'" for l' by (rule rooted_frame) simp
      then have "lenders_ok (set_lender t (?q, new_handle c h))"
        by (intro lenders_ok_set [OF l _ _ _ once]) (simp_all add: new_handle_def)
      ultimately show ?thesis using ia Nil opened by (simp add: get_turn_def)
    qed
  qed
qed

lemma get_connection_ok:
  assumes p: "pool_ok p" and l: "lenders_ok p" and f: "opens_fresh h opened p"
    and t: "t < length (lenders p)" "holding (lenders p ! t) = None"
  shows "\<exists>q. get_connection t h opened p = Some q \<and> pool_ok q \<and> lenders_ok q"
proof -
  note i = init_connection_map_ok [OF p l, of h]
  have "opens_fresh h opened (init_connection_map h p)" using f i(5) by (simp add: opens_fresh_def split: option.splits)
  from get_turn_ok [OF i(1-3) this, of t] show ?thesis using t i(4) by (auto simp: get_connection_def)
qed

lemma return_ok:
  assumes p: "pool_ok p" and l: "lenders_ok p" and c: "holds p t h c"
  shows "\<exists>q. return_connection c h p = Some q \<and> pool_ok q \<and> lenders_ok (set_lender t (q, Outside))"
proof -
  have o: "held_once p" using l by (simp add: lenders_ok_def)
  have a: "c \<in> set (active_of p h)" using held_onceD(1) [OF o] c by blast
  then have "mActiveConns p h \<noteq> None" by (cases "mActiveConns p h") (auto simp: listed_def)
  then have n: "mIdleConns p h \<noteq> None" using pool_okD(1) [OF p, of h] by simp
  then have ia: "mIdleConns p h = Some (idle_of p h)" "mActiveConns p h = Some (active_of p h)"
    using listed_entries [OF p n] by auto
  let ?q = "p\<lparr>mIdleConns := (mIdleConns p)(h \<mapsto> c # idle_of p h), mActiveConns := (mActiveConns p)(h \<mapsto> sset_erase c (active_of p h))\<rparr>"
  have len: "length (sset_erase c (active_of p h)) = length (active_of p h) - 1" "active_of p h \<noteq> []"
    using a active_strict [OF p, of h] by (auto simp: length_sset_erase)
  have "pool_ok ?q"
  proof (rule pool_ok_change [OF p, where h = h])
    show "length (c # idle_of p h) + length (sset_erase c (active_of p h)) \<le> unat (mMaxConnPerHost p)"
      using pool_okD(5) [OF p, of h] len by (cases "active_of p h") auto
  qed (use partitioned_return [OF pool_okD(2) [OF p] a] pool_okD(3,4) [OF p] in auto)
  then have ok: "pool_ok (notify_sleepers ?q)" by (simp add: notify_sleepers_def)
  have h: "holds (notify_sleepers ?q) = holds p" by (intro ext) (simp, simp add: holds_def)
  have once: "held_once (set_lender t (notify_sleepers ?q, Outside))"
    by (rule held_once_give [OF o c _ h]) (simp_all add: notify_sleepers_def)
  have "rooted (notify_sleepers ?q) (wake_up l')" if "rooted p l'" for l'
    using that by (cases l') (auto simp: notify_sleepers_def)
  then have "\<forall>l' \<in> set (lenders (notify_sleepers ?q)). rooted (notify_sleepers ?q) l'"
    using l by (auto simp: lenders_ok_def notify_sleepers_def)
  then have "lenders_ok (set_lender t (notify_sleepers ?q, Outside))"
    using once set_update_subset_insert [of "lenders (notify_sleepers ?q)" t Outside] by (auto simp: lenders_ok_def)
  then show ?thesis using ia ok by (simp add: return_connection_def)
qed

lemma destroy_ok:
  assumes p: "pool_ok p" and l: "lenders_ok p" and c: "holds p t h c" and n: "holding l' = None" "rooted p l'"
  shows "\<exists>q. destroy_connection c h p = Some q \<and> pool_ok q \<and> lenders_ok (set_lender t (q, l')) \<and> mIdleConns q = mIdleConns p"
proof -
  have o: "held_once p" using l by (simp add: lenders_ok_def)
  have a: "c \<in> set (active_of p h)" using held_onceD(1) [OF o] c by blast
  then have "mActiveConns p h \<noteq> None" by (cases "mActiveConns p h") (auto simp: listed_def)
  then have n': "mIdleConns p h \<noteq> None" using pool_okD(1) [OF p, of h] by simp
  then have ia: "mIdleConns p h = Some (idle_of p h)" "mActiveConns p h = Some (active_of p h)"
    using listed_entries [OF p n'] by auto
  have live: "c \<in> set (clients p)" using partitioned_known [OF pool_okD(2) [OF p]] a by blast
  let ?q = "p\<lparr>mActiveConns := (mActiveConns p)(h \<mapsto> sset_erase c (active_of p h)), clients := remove1 c (clients p),
    mTotalConn := mTotalConn p - 1\<rparr>"
  have idl: "(idle_of p)(h := idle_of p h) = idle_of p" "(mIdleConns p)(h \<mapsto> idle_of p h) = mIdleConns p"
    using ia by auto
  have "0 < unat (mTotalConn p)" using pool_okD(3) [OF p] live by (cases "clients p") auto
  then have pos: "1 \<le> mTotalConn p" by (simp add: word_le_nat_alt)
  have cnt: "unat (mTotalConn p - 1) = unat (mTotalConn p) - 1" using unat_sub [OF pos] by simp
  have "pool_ok ?q"
  proof (rule pool_ok_change [OF p, where h = h])
    show "length (idle_of p h) + length (sset_erase c (active_of p h)) \<le> unat (mMaxConnPerHost p)"
      using pool_okD(5) [OF p, of h] a active_strict [OF p, of h] by (simp add: length_sset_erase)
    show "mTotalConn ?q \<le> mMaxConn p" using pool_okD(4) [OF p] cnt by (simp add: word_le_nat_alt)
  qed (use partitioned_destroy [OF pool_okD(2) [OF p] a] pool_okD(3) [OF p] cnt live idl in \<open>auto simp: length_remove1\<close>)
  moreover have once: "held_once (set_lender t (?q, l'))"
    by (rule held_once_give [OF o c n(1)]) (auto simp: holds_def fun_eq_iff)
  have r: "rooted ?q l = rooted p l" for l by (rule rooted_frame) simp
  have "lenders_ok (set_lender t (?q, l'))"
    by (rule lenders_ok_set [OF l _ _ _ once]) (simp_all add: r n)
  ultimately show ?thesis using ia live by (simp add: destroy_connection_def)
qed

lemma holding_Holding: "lenders p ! t = Holding k \<Longrightarrow> mClient k = Some c \<Longrightarrow> t < length (lenders p) \<Longrightarrow> holds p t (mHost k) c"
  by (simp add: holds_def)

lemma stands_Some: "stands p t = Some l \<longleftrightarrow> t < length (lenders p) \<and> lenders p ! t = l"
  by (simp add: stands_def)

lemma lenders_ok_silent:
  assumes "lenders_ok p" "rooted p l" "holding l = holding (lenders p ! t)"
  shows "lenders_ok (set_lender t (p, l))"
proof -
  have "holds (set_lender t (p, l)) = holds p" using assms(3) by (intro ext) (simp add: holds_set_lender, auto simp: holds_def)
  then have "held_once (set_lender t (p, l))" using assms(1) by (simp add: lenders_ok_def held_once_def)
  then show ?thesis by (intro lenders_ok_set [OF assms(1)]) (use assms(2) in auto)
qed

lemma set_lender_eq: "p\<lparr>lenders := (lenders p)[t := l]\<rparr> = set_lender t (p, l)"
  by (simp add: set_lender_def)

lemma may_ask_cases: "may_ask (stands p t) \<Longrightarrow> t < length (lenders p) \<and> holding (lenders p ! t) = None"
  by (cases "t < length (lenders p)"; cases "lenders p ! t") (auto simp: stands_def)

lemma lend_do_ok:
  assumes p: "pool_ok p" and l: "lenders_ok p" and f: "fresh_event e p"
  shows "\<exists>q. lend_do e p = Some q \<and> pool_ok q \<and> lenders_ok q"
proof (cases e)
  case (Asks t h opened)
  show ?thesis
  proof (cases "may_ask (stands p t)")
    case True
    then show ?thesis using get_connection_ok [OF p l, of h opened t] may_ask_cases [OF True] f Asks by simp
  qed (use Asks p l in simp)
next
  case (Retries t opened)
  show ?thesis
  proof (cases "\<exists>h. stands p t = Some (Looking h)")
    case True
    then obtain h where h: "stands p t = Some (Looking h)" by blast
    then have t: "t < length (lenders p)" "lenders p ! t = Looking h" by (auto simp: stands_Some)
    then have "rooted p (Looking h)" using l nth_mem [of t "lenders p"] unfolding lenders_ok_def by metis
    then have "\<exists>q l. get_turn h opened p = Some (q, l) \<and> pool_ok q \<and> lenders_ok (set_lender t (q, l))"
      using f Retries h t by (intro get_turn_ok [OF p l]) auto
    then show ?thesis using Retries h by auto
  qed (use Retries p l in \<open>auto split: option.splits lender.splits\<close>)
next
  case (Wakes t)
  have "rooted p (wake_up (lenders p ! t))" if "t < length (lenders p)"
  proof -
    have "rooted p (lenders p ! t)" using l nth_mem [OF that] unfolding lenders_ok_def by blast
    then show ?thesis by (cases "lenders p ! t") auto
  qed
  then have "lenders_ok (set_lender t (p, wake_up (lenders p ! t)))"
    using l lenders_ok_silent [OF l, of "wake_up (lenders p ! t)" t]
    by (cases "t < length (lenders p)") (simp_all del: set_lender_frame add: set_lender_eq [symmetric] list_update_beyond)
  then show ?thesis using Wakes p by (simp add: set_lender_eq)
next
  case (Waited t)
  have "lenders_ok (set_lender t (p, Thrown e))" if "stands p t = Some (Asleep h)" for e h
    using that by (intro lenders_ok_silent [OF l]) (auto simp: stands_Some)
  then show ?thesis using Waited p l by (auto split: option.splits lender.splits)
next
  case (Destroys t)
  show ?thesis
  proof (cases "\<exists>k c. stands p t = Some (Holding k) \<and> mClient k = Some c")
    case True
    then obtain k c where k: "stands p t = Some (Holding k)" "mClient k = Some c" by blast
    then have "holds p t (mHost k) c" by (auto simp: stands_Some intro: holding_Holding)
    from destroy_ok [OF p l this, of "Holding (k\<lparr>mClient := None\<rparr>)"] show ?thesis
      using Destroys k by (auto simp: destroy_handle_def)
  next
    case False
    then have "lend_do e p = Some (set_lender t (p, lenders p ! t)) \<or> lend_do e p = Some p"
      using Destroys by (auto simp: destroy_handle_def stands_Some split: option.splits lender.splits)
    moreover have "set_lender t (p, lenders p ! t) = p" by (simp add: set_lender_def)
    ultimately show ?thesis using p l by auto
  qed
next
  case (Drops t)
  show ?thesis
  proof (cases "\<exists>k c. stands p t = Some (Holding k) \<and> mClient k = Some c")
    case True
    then obtain k c where k: "stands p t = Some (Holding k)" "mClient k = Some c" by blast
    then have "holds p t (mHost k) c" by (auto simp: stands_Some intro: holding_Holding)
    from return_ok [OF p l this] show ?thesis using Drops k by (auto simp: drop_handle_def)
  next
    case False
    have "lenders_ok (set_lender t (p, Outside))" if "stands p t = Some (Holding k)" for k
    proof -
      have "mClient k = None" using that False by (cases "mClient k") auto
      then show ?thesis using that by (intro lenders_ok_silent [OF l]) (auto simp: stands_Some)
    qed
    then show ?thesis using Drops False p l
      by (auto simp: drop_handle_def split: option.splits lender.splits)
  qed
qed

lemma get_turn_frame:
  "get_turn h opened p = Some (q, l) \<Longrightarrow>
     mMaxConn q = mMaxConn p \<and> mMaxConnPerHost q = mMaxConnPerHost p \<and> length (lenders q) = length (lenders p)"
  by (cases "mIdleConns p h"; cases "the (mIdleConns p h)")
     (auto simp: get_turn_def bind_Some_iff split: if_splits sum.splits)

lemma lend_do_frame:
  "lend_do e p = Some q \<Longrightarrow>
     mMaxConn q = mMaxConn p \<and> mMaxConnPerHost q = mMaxConnPerHost p \<and> length (lenders q) = length (lenders p)"
  by (cases e)
     (auto simp: get_connection_def init_connection_map_def Let_def drop_handle_def destroy_handle_def return_connection_def
        destroy_connection_def notify_sleepers_def bind_Some_iff require_Some_iff dest!: get_turn_frame
        split: if_splits option.splits lender.splits)

lemma lends_inv:
  assumes "lends (new_pool m mh n) p"
  shows "pool_ok p \<and> lenders_ok p \<and> mMaxConn p = m \<and> mMaxConnPerHost p = mh"
  using assms
proof induction
  case none
  show ?case
    by (auto simp: new_pool_def pool_ok_def lenders_ok_def held_once_def holds_def partitioned_def lists_ok_def homes_def listed_at_def)
next
  case (more_lends q e q')
  then show ?case using lend_do_ok [of q e] lend_do_frame [of e q q'] by auto
qed

subsection \<open>Properties\<close>

lemma holds_iff: "holds p t h c \<longleftrightarrow> (\<exists>k. stands p t = Some (Holding k) \<and> mHost k = h \<and> mClient k = Some c)"
  by (cases "t < length (lenders p)"; cases "lenders p ! t") (auto simp: holds_def stands_def)

lemma lent_facts:
  assumes "lends (new_pool m mh n) p" "stands p t = Some (Holding k)" "mClient k = Some c"
  shows "c \<in> set (clients p)" "c \<in> set (active_of p (mHost k))" "c \<notin> set (idle_of p h)"
    "stands p t' = Some (Holding k') \<Longrightarrow> mClient k' = Some c \<Longrightarrow> t' = t"
proof -
  have p: "pool_ok p" and o: "held_once p" using lends_inv [OF assms(1)] by (auto simp: lenders_ok_def)
  have h: "holds p t (mHost k) c" using assms by (auto simp: holds_iff)
  then show a: "c \<in> set (active_of p (mHost k))" using held_onceD(1) [OF o] by blast
  then show "c \<in> set (clients p)" using partitioned_known [OF pool_okD(2) [OF p]] by blast
  have home: "h1 = h2" if "listed_at (active_of p) (idle_of p) h1 c" "listed_at (active_of p) (idle_of p) h2 c" for h1 h2
    using pool_okD(2) [OF p] that unfolding partitioned_def homes_def by blast
  show "c \<notin> set (idle_of p h)"
    using home [of h "mHost k"] a idle_not_active [OF p, of c h] by (auto simp: listed_at_def)
  assume k': "stands p t' = Some (Holding k')" "mClient k' = Some c"
  then have h': "holds p t' (mHost k') c" by (auto simp: holds_iff)
  then have "c \<in> set (active_of p (mHost k'))" using held_onceD(1) [OF o] by blast
  then have "mHost k' = mHost k" using home [of "mHost k'" "mHost k"] a by (simp add: listed_at_def)
  then show "t' = t" using held_onceD(2) [OF o] h h' by metis
qed

text \<open>A pool of two connections, one per host, and what four lenders do with it.\<close>

definition host_a :: host where "host_a = (0x0100007F, 80)"

definition opens_at :: "client \<Rightarrow> opener" where
  "opens_at c = (\<lambda>ip port. Some c)"

fun lend_all :: "lend_event list \<Rightarrow> conn_pool \<Rightarrow> conn_pool option" where
  "lend_all [] p = Some p"
| "lend_all (e # es) p = (if fresh_event e p then do { p' \<leftarrow> lend_do e p; lend_all es p' } else None)"

lemma lend_all_lends: "lend_all es q = Some q' \<Longrightarrow> lends p q \<Longrightarrow> lends p q'"
  by (induction es arbitrary: q) (auto simp: bind_Some_iff split: if_splits intro: lends.more_lends)

lemmas pool_run_simps = new_pool_def get_connection_def init_connection_map_def get_turn_def has_room_def new_client_cases
  opens_at_def set_lender_def new_handle_def stands_def drop_handle_def destroy_handle_def return_connection_def
  destroy_connection_def notify_sleepers_def opens_fresh_def sset_erase_def

definition one_waits :: conn_pool where
  "one_waits = the (lend_all [Asks 0 host_a (opens_at 7), Asks 1 host_a (opens_at 8)] (new_pool 2 1 2))"

lemma one_waits_eq:
  "one_waits = \<lparr>mActiveConns = [host_a \<mapsto> [7]], mIdleConns = [host_a \<mapsto> []], mTotalConn = 1, mMaxConn = 2,
     mMaxConnPerHost = 1, clients = [7], lenders = [Holding \<lparr>mClient = Some 7, mHost = host_a\<rparr>, Asleep host_a]\<rparr>"
  "lends (new_pool 2 1 2) one_waits"
proof -
  have e: "lend_all [Asks 0 host_a (opens_at 7), Asks 1 host_a (opens_at 8)] (new_pool 2 1 2) = Some
    \<lparr>mActiveConns = [host_a \<mapsto> [7]], mIdleConns = [host_a \<mapsto> []], mTotalConn = 1, mMaxConn = 2,
     mMaxConnPerHost = 1, clients = [7], lenders = [Holding \<lparr>mClient = Some 7, mHost = host_a\<rparr>, Asleep host_a]\<rparr>"
    by (simp add: pool_run_simps numeral_2_eq_2)
  then show "one_waits = \<lparr>mActiveConns = [host_a \<mapsto> [7]], mIdleConns = [host_a \<mapsto> []], mTotalConn = 1, mMaxConn = 2,
     mMaxConnPerHost = 1, clients = [7], lenders = [Holding \<lparr>mClient = Some 7, mHost = host_a\<rparr>, Asleep host_a]\<rparr>"
    by (simp add: one_waits_def)
  show "lends (new_pool 2 1 2) one_waits"
    unfolding one_waits_def e option.sel by (rule lend_all_lends [OF e lends.none])
qed

lemma one_waits_stands:
  "stands one_waits 0 = Some (Holding \<lparr>mClient = Some 7, mHost = host_a\<rparr>)" "stands one_waits 1 = Some (Asleep host_a)"
  by (simp_all add: one_waits_eq(1) stands_def)

text \<open>C35: a connection that is lent out exists, is used by one lender only and is not idle anywhere: in every
  state the pool can reach, whatever is asked, returned, destroyed or waited for in any order, the client in
  a handle is allocated (so get_client gives it and no later destroy frees it twice), is entered as active
  for the host that was asked for, is idle for no host, and is in no other lender's handle.\<close>

theorem lent_connections_are_exclusive:
  assumes "lends (new_pool m mh n) p" "stands p t = Some (Holding k)" "mClient k = Some c"
  shows "get_client k = Inr c \<and> c \<in> set (clients p) \<and> c \<in> set (listed (mActiveConns p) (mHost k)) \<and>
    (\<forall>h. c \<notin> set (listed (mIdleConns p) h)) \<and>
    (\<forall>t' k'. stands p t' = Some (Holding k') \<longrightarrow> mClient k' = Some c \<longrightarrow> t' = t)"
  using lent_facts [OF assms] assms(3) by (simp add: get_client_def)

theorem lent_connections_are_exclusive_witness:
  "get_client \<lparr>mClient = Some 7, mHost = host_a\<rparr> = Inr 7 \<and> 7 \<in> set (clients one_waits) \<and>
    7 \<in> set (listed (mActiveConns one_waits) host_a)"
  using lent_connections_are_exclusive [OF one_waits_eq(2), of 0 "\<lparr>mClient = Some 7, mHost = host_a\<rparr>" 7]
  by (simp add: one_waits_eq(1) stands_def)

text \<open>C36: the pool keeps its limits and never aborts: in every reachable state mTotalConn is the number of the
  connections that exist (it neither drifts nor wraps), never more than mMaxConn; a host has never more than
  mMaxConnPerHost, idle and active together; every connection is in the lists of exactly one host; and no
  call finds its host's entries missing or deletes a connection twice.\<close>

theorem pool_keeps_its_limits:
  assumes "lends (new_pool m mh n) p"
  shows "unat (mTotalConn p) = length (clients p) \<and> distinct (clients p) \<and> length (clients p) \<le> unat m \<and>
    length (listed (mIdleConns p) h) + length (listed (mActiveConns p) h) \<le> unat mh \<and>
    (c \<in> set (clients p) \<longleftrightarrow> (\<exists>!h'. c \<in> set (listed (mActiveConns p) h') \<union> set (listed (mIdleConns p) h'))) \<and>
    (fresh_event e p \<longrightarrow> lend_do e p \<noteq> None)"
proof -
  have p: "pool_ok p" "lenders_ok p" and m: "mMaxConn p = m" "mMaxConnPerHost p = mh" using lends_inv [OF assms] by auto
  have "unat (mTotalConn p) \<le> unat m" using pool_okD(4) [OF p(1)] m by (simp add: word_le_nat_alt)
  moreover have "distinct (clients p)" "c \<in> set (clients p) \<longleftrightarrow> (\<exists>!h'. listed_at (active_of p) (idle_of p) h' c)"
    using pool_okD(2) [OF p(1)] unfolding partitioned_def homes_def by blast+
  ultimately show ?thesis
    using pool_okD(3,5) [OF p(1)] m lend_do_ok [OF p, of e] by (auto simp: listed_at_def)
qed

theorem pool_keeps_its_limits_witness:
  "unat (mTotalConn one_waits) = length (clients one_waits) \<and> length (clients one_waits) \<le> 2 \<and> lend_do (Drops 0) one_waits \<noteq> None"
  using pool_keeps_its_limits [OF one_waits_eq(2), of host_a 7 "Drops 0"] by simp

text \<open>Steps that neither ask for a connection of a host nor return one to it.\<close>

fun turn_for :: "host \<Rightarrow> nat \<Rightarrow> lend_event \<Rightarrow> conn_pool \<Rightarrow> bool" where
  "turn_for h s (Asks t h' opened) p \<longleftrightarrow> s = t \<and> h' = h \<and> may_ask (stands p t)"
| "turn_for h s (Retries t opened) p \<longleftrightarrow> s = t \<and> stands p t = Some (Looking h)"
| "turn_for h s _ p \<longleftrightarrow> False"

fun returns_to :: "host \<Rightarrow> lend_event \<Rightarrow> conn_pool \<Rightarrow> bool" where
  "returns_to h (Drops t) p \<longleftrightarrow> (\<exists>k. stands p t = Some (Holding k) \<and> mHost k = h)"
| "returns_to h _ p \<longleftrightarrow> False"

inductive elsewhere :: "host \<Rightarrow> conn_pool \<Rightarrow> conn_pool \<Rightarrow> bool" for h p where
  at_once: "elsewhere h p p"
| later: "elsewhere h p q \<Longrightarrow> \<forall>s. \<not> turn_for h s e q \<Longrightarrow> \<not> returns_to h e q \<Longrightarrow> lend_do e q = Some q' \<Longrightarrow> elsewhere h p q'"

lemma get_turn_elsewhere:
  "get_turn h' opened p = Some (q, l) \<Longrightarrow> h' \<noteq> h \<Longrightarrow>
     mIdleConns q h = mIdleConns p h \<and> mActiveConns q h = mActiveConns p h \<and> lenders q = lenders p"
  by (cases "mIdleConns p h'"; cases "the (mIdleConns p h')") (auto simp: get_turn_def bind_Some_iff split: if_splits sum.splits)

lemma elsewhere_step:
  assumes "lend_do e q = Some q'" "\<forall>s. \<not> turn_for h s e q" "\<not> returns_to h e q" "mActiveConns q h \<noteq> None"
  shows "mIdleConns q' h = mIdleConns q h \<and> mActiveConns q' h \<noteq> None \<and> (stands q s = Some (Looking h) \<longrightarrow> stands q' s = Some (Looking h))"
proof (cases e)
  case (Asks t h' opened)
  show ?thesis
  proof (cases "may_ask (stands q t)")
    case True
    then have h': "h' \<noteq> h" using assms(2) Asks by auto
    obtain r l where "get_turn h' opened (init_connection_map h' q) = Some (r, l)" "q' = set_lender t (r, l)"
      using assms(1) Asks True by (auto simp: get_connection_def)
    moreover have "mIdleConns (init_connection_map h' q) h = mIdleConns q h" "mActiveConns (init_connection_map h' q) h = mActiveConns q h"
      "lenders (init_connection_map h' q) = lenders q" using h' by (simp_all add: init_connection_map_def Let_def)
    ultimately show ?thesis using get_turn_elsewhere [OF _ h'] True assms(4)
      by (cases "t = s") (auto simp: set_lender_def stands_def split: if_splits)
  qed (use assms Asks in auto)
next
  case (Retries t opened)
  show ?thesis
  proof (cases "\<exists>h'. stands q t = Some (Looking h')")
    case True
    then obtain h' where l: "stands q t = Some (Looking h')" by blast
    then have h': "h' \<noteq> h" using assms(2) Retries by auto
    obtain r l' where "get_turn h' opened q = Some (r, l')" "q' = set_lender t (r, l')"
      using assms(1) Retries l by auto
    then show ?thesis using get_turn_elsewhere [OF _ h'] l h' assms(4)
      by (cases "t = s") (auto simp: set_lender_def stands_def split: if_splits)
  qed (use assms Retries in \<open>auto split: option.splits lender.splits\<close>)
next
  case (Wakes t)
  with assms(1,4) show ?thesis by (cases "t = s"; cases "t < length (lenders q)") (auto simp: stands_def list_update_beyond)
next
  case (Waited t)
  with assms(1,4) show ?thesis
    by (cases "t = s") (auto simp: set_lender_def stands_def split: option.splits lender.splits if_splits)
next
  case (Destroys t)
  with assms(1,4) show ?thesis
    by (cases "t = s") (auto simp: set_lender_def stands_def destroy_handle_def destroy_connection_def run_simps
        split: option.splits lender.splits if_splits)
next
  case (Drops t)
  show ?thesis
  proof (cases "\<exists>k. stands q t = Some (Holding k)")
    case True
    then obtain k where k: "stands q t = Some (Holding k)" by blast
    then have h: "mHost k \<noteq> h" using assms(3) Drops by auto
    obtain r where r: "drop_handle k q = Some r" "q' = set_lender t (r, Outside)" using assms(1) Drops k by auto
    have "mIdleConns r h = mIdleConns q h \<and> (mActiveConns r h = mActiveConns q h) \<and> (lenders r = lenders q \<or> lenders r = map wake_up (lenders q))"
      using r(1) h by (auto simp: drop_handle_def return_connection_def notify_sleepers_def run_simps split: option.splits)
    with r(2) k assms(4) show ?thesis
      by (cases "t = s") (auto simp: set_lender_def stands_def split: if_splits)
  qed (use assms Drops in \<open>auto split: option.splits lender.splits\<close>)
qed

lemma elsewhere_keeps:
  "elsewhere h p q \<Longrightarrow> mActiveConns p h \<noteq> None \<Longrightarrow>
     mIdleConns q h = mIdleConns p h \<and> mActiveConns q h \<noteq> None \<and> (\<forall>s. stands p s = Some (Looking h) \<longrightarrow> stands q s = Some (Looking h))"
proof (induction rule: elsewhere.induct)
  case (later q e q')
  note ih = later.IH [OF later.prems]
  note st = elsewhere_step [OF later.hyps(4,2,3) conjunct1 [OF conjunct2 [OF ih]]]
  show ?case using ih st by simp
qed simp

lemma turn_takes_idle:
  assumes "turn_for h s e q" "mIdleConns q h = Some (c # cs)" "mActiveConns q h \<noteq> None"
  shows "\<exists>q'. lend_do e q = Some q' \<and> stands q' s = Some (new_handle c h) \<and> clients q' = clients q"
proof -
  obtain a where a: "mActiveConns q h = Some a" using assms(3) by blast
  have i: "init_connection_map h q = q" using assms(2) a by (simp add: init_connection_map_def)
  obtain r where r: "get_turn h opened q = Some (r, new_handle c h)" "clients r = clients q" "lenders r = lenders q" for opened
    using assms(2) a by (simp add: get_turn_def)
  have s: "s < length (lenders q)"
    using assms(1) by (cases e) (auto simp: stands_def split: if_splits)
  have "lend_do e q = Some (set_lender s (r, new_handle c h))"
    using assms(1) r(1) i by (cases e) (auto simp: get_connection_def)
  moreover have "stands (set_lender s (r, new_handle c h)) s = Some (new_handle c h)" using s r(3) by (simp add: stands_def set_lender_def)
  moreover have "clients (set_lender s (r, new_handle c h)) = clients q" using r(2) by (simp add: set_lender_def)
  ultimately show ?thesis by blast
qed

text \<open>C37: a returned connection reaches who wants it: a lender sleeps only while its host has no idle
  connection; returning one wakes every sleeper; whatever is then done for other hosts, in any order, it stays
  idle and the woken lenders of its host stay about to get the mutex; and the first turn for its host, of one
  of them or of a newcomer who is quicker, leaves with that very connection without opening a new one.\<close>

theorem returned_connection_reaches_the_sleeper:
  assumes "lends (new_pool m mh n) p" "stands p t = Some (Holding k)" "mClient k = Some c"
    "stands p s = Some (Asleep (mHost k))"
  shows "listed (mIdleConns p) (mHost k) = [] \<and>
    (\<exists>q. lend_do (Drops t) p = Some q \<and> (\<forall>r h. stands p r = Some (Asleep h) \<longrightarrow> stands q r = Some (Looking h)) \<and>
      (\<forall>q2. elsewhere (mHost k) q q2 \<longrightarrow>
         listed (mIdleConns q2) (mHost k) = [c] \<and>
         (\<forall>r. stands p r = Some (Asleep (mHost k)) \<longrightarrow> stands q2 r = Some (Looking (mHost k))) \<and>
         (\<forall>e u. turn_for (mHost k) u e q2 \<longrightarrow>
            (\<exists>q3. lend_do e q2 = Some q3 \<and> stands q3 u = Some (new_handle c (mHost k)) \<and> clients q3 = clients q2))))"
proof -
  let ?h = "mHost k"
  have p: "pool_ok p" "lenders_ok p" using lends_inv [OF assms(1)] by auto
  have "rooted p (Asleep ?h)" using p(2) assms(4) unfolding lenders_ok_def stands_Some by (metis nth_mem)
  then have i: "mIdleConns p ?h = Some []" by simp
  then obtain a where a: "mActiveConns p ?h = Some a" using pool_okD(1) [OF p(1), of ?h] by auto
  define q where "q = set_lender t (notify_sleepers (p\<lparr>mIdleConns := (mIdleConns p)(?h \<mapsto> [c]),
    mActiveConns := (mActiveConns p)(?h \<mapsto> sset_erase c a)\<rparr>), Outside)"
  have d: "lend_do (Drops t) p = Some q"
    using assms(2,3) i a by (simp add: drop_handle_def return_connection_def q_def)
  have w: "stands q r = Some (Looking h)" if "stands p r = Some (Asleep h)" for r h
    using that assms(2) by (cases "r = t") (auto simp: stands_Some notify_sleepers_def q_def)
  have q: "mIdleConns q ?h = Some [c]" "mActiveConns q ?h \<noteq> None" by (simp_all add: q_def notify_sleepers_def)
  have "listed (mIdleConns q2) ?h = [c] \<and> (\<forall>r. stands p r = Some (Asleep ?h) \<longrightarrow> stands q2 r = Some (Looking ?h)) \<and>
      (\<forall>e u. turn_for ?h u e q2 \<longrightarrow> (\<exists>q3. lend_do e q2 = Some q3 \<and> stands q3 u = Some (new_handle c ?h) \<and> clients q3 = clients q2))"
    if "elsewhere ?h q q2" for q2
    using elsewhere_keeps [OF that q(2)] q(1) w turn_takes_idle [of ?h _ _ q2 c "[]"] by (simp add: listed_entry)
  with i d w show ?thesis by (auto simp: listed_entry simp del: lend_do.simps)
qed

theorem returned_connection_reaches_the_sleeper_witness:
  "\<exists>q q3. lend_do (Drops 0) one_waits = Some q \<and> lend_do (Retries 1 (opens_at 8)) q = Some q3 \<and>
    stands q3 1 = Some (new_handle 7 host_a)"
proof -
  obtain q where q: "lend_do (Drops 0) one_waits = Some q" "stands q 1 = Some (Looking host_a)"
    and turn: "\<And>e u. turn_for host_a u e q \<Longrightarrow> \<exists>q3. lend_do e q = Some q3 \<and> stands q3 u = Some (new_handle 7 host_a)"
    using returned_connection_reaches_the_sleeper [OF one_waits_eq(2) one_waits_stands(1), of 7 1] one_waits_stands(2)
      elsewhere.at_once unfolding thrift_conn.simps by blast
  have "turn_for host_a 1 (Retries 1 (opens_at 8)) q" using q(2) by simp
  from turn [OF this] q(1) show ?thesis by blast
qed

text \<open>C38: destroying a connection wakes nobody, although it makes room: with lenders asleep for the host of a
  connection that is destroyed, there is room for a new connection at once, but each sleeper sleeps on, and
  when its time is up it throws that no connection is available.\<close>

theorem destroyed_connection_wakes_nobody:
  assumes "lends (new_pool m mh n) p" "stands p t = Some (Holding k)" "mClient k = Some c"
    "stands p s = Some (Asleep (mHost k))"
  shows "\<exists>q q'. lend_do (Destroys t) p = Some q \<and> stands q s = Some (Asleep (mHost k)) \<and>
    has_room (listed (mIdleConns q) (mHost k)) (listed (mActiveConns q) (mHost k)) q \<and>
    lend_do (Waited s) q = Some q' \<and> stands q' s = Some (Thrown RESULT_ERR_RESOURCE_INSUFFICIENT)"
proof -
  let ?h = "mHost k"
  have p: "pool_ok p" "lenders_ok p" using lends_inv [OF assms(1)] by auto
  have c: "c \<in> set (clients p)" "c \<in> set (active_of p ?h)" using lent_facts [OF assms(1-3)] by auto
  have "holds p t ?h c" using assms(2,3) by (auto simp: holds_iff)
  from destroy_ok [OF p this, of "Holding (k\<lparr>mClient := None\<rparr>)"]
  obtain q where q: "destroy_connection c ?h p = Some q" "pool_ok q" "mIdleConns q = mIdleConns p" by auto
  have st: "s \<noteq> t" "s < length (lenders p)" "lenders p ! s = Asleep ?h" using assms(2,4) by (auto simp: stands_Some)
  have n: "mActiveConns p ?h \<noteq> None" using c(2) by (cases "mActiveConns p ?h") (auto simp: listed_def)
  have a: "active_of q ?h = sset_erase c (active_of p ?h)" "lenders q = lenders p" "clients q = remove1 c (clients p)"
    "mMaxConn q = mMaxConn p" "mMaxConnPerHost q = mMaxConnPerHost p"
    using q(1) n by (auto simp: destroy_connection_def bind_Some_iff require_Some_iff listed_entry split: option.splits)
  have "length (active_of q ?h) < length (active_of p ?h)"
    using c(2) active_strict [OF p(1), of ?h] by (auto simp: a length_sset_erase intro: length_pos_if_in_set diff_less)
  then have "length (idle_of q ?h) + length (active_of q ?h) < unat (mMaxConnPerHost q)"
    using pool_okD(5) [OF p(1), of ?h] q(3) a(5) by simp
  moreover have "unat (mTotalConn q) < unat (mTotalConn p)"
    using pool_okD(3) [OF p(1)] pool_okD(3) [OF q(2)] c(1) by (auto simp: a length_remove1 intro: length_pos_if_in_set diff_less)
  then have "mTotalConn q < mMaxConn q" using pool_okD(4) [OF p(1)] a(4) by (simp add: word_less_nat_alt word_le_nat_alt)
  ultimately have r: "has_room (idle_of q ?h) (active_of q ?h) q"
    using host_count [OF q(2), of ?h] by (simp only: has_room_def word_less_nat_alt simp_thms)
  have lq: "lend_do (Destroys t) p = Some (set_lender t (q, Holding (k\<lparr>mClient := None\<rparr>)))"
    using assms(2,3) q(1) by (simp add: destroy_handle_def)
  have "has_room I A (set_lender t (q, l)) = has_room I A q" for I A l by (simp add: has_room_def)
  then show ?thesis using lq r st a(2) by (auto simp: stands_def)
qed

theorem destroyed_connection_wakes_nobody_witness:
  "\<exists>q. lend_do (Destroys 0) one_waits = Some q \<and> stands q 1 = Some (Asleep host_a)"
  using destroyed_connection_wakes_nobody [OF one_waits_eq(2) one_waits_stands(1), of 7 1] one_waits_stands(2)
  unfolding thrift_conn.simps by blast

text \<open>Connections idle at other hosts count against the limit of all connections and are never closed: a host
  without a connection then gets none, though nobody uses any.\<close>

lemma idle_elsewhere_starves:
  assumes "pool_ok p" "mTotalConn p = mMaxConn p" "mIdleConns p h = Some []"
  shows "get_turn h opened p = Some (p, Asleep h)"
  using assms(2,3) pool_okD(1) [OF assms(1), of h] by (auto simp: get_turn_def has_room_def)

end
