(* ===== verification/Murmur_Hash.thy ===== *)
theory Murmur_Hash
  imports Endian
begin

text \<open>
  muduo/base/murmurhash.h: MurmurHash2 (32 bits) and MurmurHash64B (64 bits from two 32-bit lanes). The key
  is the list of its bytes; the loop that advances \<open>data\<close> and counts \<open>len\<close> down is recursion on the bytes that
  are left. A word is read from memory as the little-endian host reads it (Endian, \<open>load\<close>). Every step of
  mixing can be undone, which the lemmas use to show which keys cannot collide.
\<close>

unbundle bit_operations_syntax

definition murmur_m :: u32 where "murmur_m = 0x5bd1e995"

definition mix_block :: "u32 \<Rightarrow> u32" where
  "mix_block k =
     (let k = k * murmur_m;
          k = k XOR drop_bit 24 k
      in k * murmur_m)"

definition lane :: "u32 \<Rightarrow> u32 \<Rightarrow> u32" where
  "lane h k = (h * murmur_m) XOR mix_block k"

fun tail_bytes :: "u32 \<Rightarrow> byte list \<Rightarrow> u32" where
  "tail_bytes h [a, b, c] = (((h XOR push_bit 16 (ucast c)) XOR push_bit 8 (ucast b)) XOR ucast a) * murmur_m"
| "tail_bytes h [a, b] = ((h XOR push_bit 8 (ucast b)) XOR ucast a) * murmur_m"
| "tail_bytes h [a] = (h XOR ucast a) * murmur_m"
| "tail_bytes h _ = h"

definition final_mix :: "u32 \<Rightarrow> u32" where
  "final_mix h =
     (let h = h XOR drop_bit 13 h;
          h = h * murmur_m
      in h XOR drop_bit 15 h)"

fun murmur_blocks :: "u32 \<Rightarrow> byte list \<Rightarrow> u32" where
  "murmur_blocks h (a # b # c # d # rest) = murmur_blocks (lane h (load [a, b, c, d])) rest"
| "murmur_blocks h rest = tail_bytes h rest"

definition MurmurHash2 :: "byte list \<Rightarrow> u32 \<Rightarrow> u32" where
  "MurmurHash2 key seed = final_mix (murmur_blocks (seed XOR of_nat (length key)) key)"

fun lanes_tail :: "u32 \<Rightarrow> u32 \<Rightarrow> byte list \<Rightarrow> u32 \<times> u32" where
  "lanes_tail h1 h2 (a # b # c # d # rest) = (lane h1 (load [a, b, c, d]), tail_bytes h2 rest)"
| "lanes_tail h1 h2 rest = (h1, tail_bytes h2 rest)"

fun murmur_lanes :: "u32 \<Rightarrow> u32 \<Rightarrow> byte list \<Rightarrow> u32 \<times> u32" where
  "murmur_lanes h1 h2 (a # b # c # d # e # f # g # h # rest) =
     murmur_lanes (lane h1 (load [a, b, c, d])) (lane h2 (load [e, f, g, h])) rest"
| "murmur_lanes h1 h2 rest = lanes_tail h1 h2 rest"

definition final_lanes :: "u32 \<times> u32 \<Rightarrow> u32 \<times> u32" where
  "final_lanes hs =
     (let (h1, h2) = hs;
          h1 = (h1 XOR drop_bit 18 h2) * murmur_m;
          h2 = (h2 XOR drop_bit 22 h1) * murmur_m;
          h1 = (h1 XOR drop_bit 17 h2) * murmur_m;
          h2 = (h2 XOR drop_bit 19 h1) * murmur_m
      in (h1, h2))"

definition join_lanes :: "u32 \<times> u32 \<Rightarrow> u64" where
  "join_lanes hs = push_bit 32 (ucast (fst hs)) OR ucast (snd hs)"

definition MurmurHash64B :: "byte list \<Rightarrow> u32 \<Rightarrow> u64" where
  "MurmurHash64B key seed = join_lanes (final_lanes (murmur_lanes (seed XOR of_nat (length key)) 0 key))"

subsection \<open>Each step can be undone\<close>

lemma murmur_m_odd: "x * murmur_m = y * murmur_m \<longleftrightarrow> x = y"
proof
  assume "x * murmur_m = y * murmur_m"
  then have "x * murmur_m * 0xe59b19bd = y * murmur_m * 0xe59b19bd" by simp
  moreover have "murmur_m * 0xe59b19bd = 1" by (simp add: murmur_m_def)
  ultimately show "x = y" by (simp add: mult.assoc)
qed simp

lemma xor_cancel: "(x :: 'a::len word) XOR z = y XOR z \<longleftrightarrow> x = y" "z XOR x = z XOR y \<longleftrightarrow> x = y"
  by (metis xor.assoc xor_self_eq xor.right_neutral xor.commute)+

lemma xor_swap: "(a :: 'a::len word) XOR b = c XOR d \<Longrightarrow> a XOR c = b XOR d"
  by (metis xor.assoc xor_self_eq xor.right_neutral xor.commute)

lemma drop_bit_fixed:
  fixes d :: "'a::len word"
  assumes "0 < n" "drop_bit n d = d"
  shows "d = 0"
proof -
  have "unat d div 2 ^ n = unat (drop_bit n d)" by (simp only: unat_drop_bit_eq drop_bit_eq_div [where 'a = nat])
  then have "unat d div 2 ^ n = unat d" by (simp only: assms(2))
  moreover have "unat d div 2 ^ n < unat d" if "0 < unat d"
    using that assms(1) by (intro div_less_dividend one_less_power) simp_all
  ultimately have "unat d = 0" by (cases "unat d") auto
  then show ?thesis by (simp add: unsigned_eq_0_iff)
qed

lemma xorshift_inj:
  assumes "0 < n"
  shows "(x :: 'a::len word) XOR drop_bit n x = y XOR drop_bit n y \<longleftrightarrow> x = y"
proof
  assume "x XOR drop_bit n x = y XOR drop_bit n y"
  then have "x XOR y = drop_bit n x XOR drop_bit n y" by (rule xor_swap)
  then have "drop_bit n (x XOR y) = x XOR y" by (metis drop_bit_xor)
  then have "x XOR y = 0" by (rule drop_bit_fixed [OF assms])
  then show "x = y" by (metis xor_self_eq xor_cancel(2))
qed simp

lemma mix_block_inj: "mix_block k = mix_block k' \<longleftrightarrow> k = k'"
  by (simp add: mix_block_def Let_def murmur_m_odd xorshift_inj)

lemma lane_inj: "lane h k = lane h' k \<longleftrightarrow> h = h'" "lane h k = lane h k' \<longleftrightarrow> k = k'"
  by (simp_all add: lane_def xor_cancel murmur_m_odd mix_block_inj)

lemma final_mix_inj: "final_mix h = final_mix h' \<longleftrightarrow> h = h'"
  by (simp add: final_mix_def Let_def murmur_m_odd xorshift_inj)

lemma tail_bytes_inj: "length t < 4 \<Longrightarrow> tail_bytes h t = tail_bytes h' t \<longleftrightarrow> h = h'"
  by (cases "(h, t)" rule: tail_bytes.cases) (auto simp: xor_cancel murmur_m_odd)

lemma murmur_blocks_inj: "murmur_blocks h key = murmur_blocks h' key \<longleftrightarrow> h = h'"
  by (induction h key arbitrary: h' rule: murmur_blocks.induct) (auto simp: lane_inj xor_cancel murmur_m_odd)

lemma murmur_blocks_append:
  "length bs = 4 * n \<Longrightarrow> murmur_blocks h (bs @ rest) = murmur_blocks (murmur_blocks h bs) rest"
proof (induction n arbitrary: h bs)
  case (Suc n)
  then obtain a b c d cs where bs: "bs = a # b # c # d # cs" by (auto simp: length_Suc_conv numeral_eq_Suc)
  then show ?case using Suc by simp
qed simp

lemma list4: "length bs = 4 \<Longrightarrow> bs = [bs ! 0, bs ! 1, bs ! 2, bs ! 3]"
  by (rule nth_equalityI) (auto simp: less_Suc_eq numeral_eq_Suc)

lemma load4_inj:
  assumes "length b = 4" "length b' = 4" "(load b :: u32) = load b'"
  shows "b = b'"
proof -
  have "memory 4 (load b :: u32) = b" "memory 4 (load b' :: u32) = b'"
    using assms(1,2) by (simp_all add: memory_load)
  then show ?thesis using assms(3) by metis
qed

lemma murmur_block_inj:
  assumes "length b = 4" "length b' = 4" "murmur_blocks h (b @ rest) = murmur_blocks h (b' @ rest)"
  shows "b = b'"
proof -
  have "murmur_blocks h (x @ rest) = murmur_blocks (lane h (load x)) rest" if "length x = 4" for x
    by (subst list4 [OF that], subst (2) list4 [OF that]) simp
  then have "lane h (load b) = lane h (load b')" using assms by (simp add: murmur_blocks_inj)
  then show ?thesis using load4_inj [OF assms(1,2)] by (simp add: lane_inj)
qed

lemma join_lanes_inj: "join_lanes hs = join_lanes hs' \<longleftrightarrow> hs = hs'"
proof
  assume e: "join_lanes hs = join_lanes hs'"
  have low: "(ucast (join_lanes x) :: u32) = snd x" for x
    by (rule bit_word_eqI) (auto simp: join_lanes_def bit_ucast_iff bit_or_iff bit_push_bit_iff)
  have high: "(ucast (drop_bit 32 (join_lanes x)) :: u32) = fst x" for x
    by (rule bit_word_eqI) (auto simp: join_lanes_def bit_ucast_iff bit_or_iff bit_push_bit_iff bit_drop_bit_eq dest: bit_imp_le_length)
  show "hs = hs'" using e low [of hs] low [of hs'] high [of hs] high [of hs'] by (metis prod.expand)
qed simp

lemma final_lanes_inj: "final_lanes hs = final_lanes hs' \<longleftrightarrow> hs = hs'"
proof
  assume e: "final_lanes hs = final_lanes hs'"
  obtain a b a' b' where h: "hs = (a, b)" "hs' = (a', b')" by (cases hs, cases hs') blast
  show "hs = hs'" using e by (auto simp: h final_lanes_def Let_def murmur_m_odd xor_cancel)
qed simp

lemma murmur_lanes_8:
  assumes "length b = 4" "length c = 4"
  shows "murmur_lanes h1 h2 (b @ c) = (lane h1 (load b), lane h2 (load c))"
  by (subst (1 2) list4 [OF assms(1)], subst (1 2) list4 [OF assms(2)]) simp

text \<open>keys that differ in one place do not collide: two keys that agree but for one aligned block of four
  bytes (or the only block) never have the same MurmurHash2 under the same seed, and MurmurHash64B maps the
  keys of eight bytes one to one.\<close>

theorem one_block_never_collides:
  assumes "length b = 4" "length b' = 4" "length c = 4" "length c' = 4" "length pre = 4 * n"
  shows "(MurmurHash2 (pre @ b @ post) seed = MurmurHash2 (pre @ b' @ post) seed \<longleftrightarrow> b = b') \<and>
    (MurmurHash64B (b @ c) seed = MurmurHash64B (b' @ c') seed \<longleftrightarrow> b @ c = b' @ c')"
proof
  show "MurmurHash2 (pre @ b @ post) seed = MurmurHash2 (pre @ b' @ post) seed \<longleftrightarrow> b = b'"
    unfolding MurmurHash2_def final_mix_inj murmur_blocks_append [OF assms(5)]
    using assms(1,2) murmur_block_inj [OF assms(1,2)] by auto
  show "MurmurHash64B (b @ c) seed = MurmurHash64B (b' @ c') seed \<longleftrightarrow> b @ c = b' @ c'"
    using assms load4_inj
    by (auto simp: MurmurHash64B_def join_lanes_inj final_lanes_inj murmur_lanes_8 lane_inj)
qed

theorem one_block_never_collides_witness:
  "MurmurHash2 [1, 2, 3, 4, 5] 9 \<noteq> MurmurHash2 [1, 2, 3, 0, 5] 9"
  using one_block_never_collides [of "[1, 2, 3, 4]" "[1, 2, 3, 0]" "[0, 0, 0, 0]" "[0, 0, 0, 0]" "[]" 0 "[5]" 9] by simp

end
