(* ===== verification/Text_Encoding.thy ===== *)
theory Text_Encoding
  imports Endian
begin

text \<open>
  muduo/base/convert.h, convert.cpp: guessing the encoding of a text and counting its Chinese characters. A
  std::string is the list of its bytes; a loop over positions is recursion on the bytes from that position on
  (i < size - 2 says that three bytes are left). The masks test the same bits whether char is signed or not.
  The reference is the encoding UTF-8 itself, \<open>utf8\<close>. The conversions to and from wide characters ask libc,
  which is an argument.
\<close>

unbundle bit_operations_syntax

subsection \<open>The code\<close>

datatype Encoding = kUnknown | kUnicode | kGBK | kUTF8

definition getEncodingName :: "Encoding \<Rightarrow> string" where
  "getEncodingName enc =
     (if enc = kUTF8 then ''UTF-8'' else if enc = kUnicode then ''Unicode'' else ''Unknown'')"

fun detect_loop :: "byte list \<Rightarrow> Encoding" where
  "detect_loop (a # b # c # rest) =
     (if a AND 0x80 \<noteq> 0 then
        if b AND 0x80 = 0 then kGBK
        else if a AND 0xE0 = 0xC0 then
          (if b AND 0xC0 = 0x80 then kGBK else detect_loop (c # rest))
        else if a AND 0xF0 = 0xE0 then
          (if b AND 0xC0 = 0x80 then (if c AND 0xC0 = 0x80 then kUTF8 else kGBK) else kGBK)
        else kGBK
      else detect_loop (b # c # rest))"
| "detect_loop _ = kUTF8"

definition detectEncoding :: "byte list \<Rightarrow> Encoding" where
  "detectEncoding content =
     (case content of
        a # b # _ \<Rightarrow> if a = 0xFF \<and> b = 0xFE then kUnicode else detect_loop content
      | _ \<Rightarrow> kGBK)"

definition getEncodingName_of :: "byte list \<Rightarrow> string" where
  "getEncodingName_of content = getEncodingName (detectEncoding content)"

fun countChineseCharsGbk :: "byte list \<Rightarrow> nat" where
  "countChineseCharsGbk [] = 0"
| "countChineseCharsGbk (a # rest) =
     (if a AND 0x80 \<noteq> 0 then Suc (countChineseCharsGbk (drop 1 rest)) else countChineseCharsGbk rest)"

text \<open>The 16-bit units of the text, as the little-endian host reads them.\<close>

fun code_units :: "byte list \<Rightarrow> u16 list" where
  "code_units (a # b # rest) = load [a, b] # code_units rest"
| "code_units _ = []"

fun ucs2_loop :: "nat \<Rightarrow> nat \<Rightarrow> u16 list \<Rightarrow> nat \<Rightarrow> nat" where
  "ucs2_loop i n (p # ps) cnt = (if i < n then ucs2_loop (i + 1) n ps (if 127 < p then cnt + 1 else cnt) else cnt)"
| "ucs2_loop i n [] cnt = cnt"

definition countChineseCharsUcs2 :: "byte list \<Rightarrow> nat option" where
  "countChineseCharsUcs2 content = do {
     require (length content mod 2 = 0);
     Some (ucs2_loop 2 (length content div 2) (tl (code_units content)) 0)
   }"

fun countChineseCharsUtf8 :: "byte list \<Rightarrow> nat option" where
  "countChineseCharsUtf8 [] = Some 0"
| "countChineseCharsUtf8 (c # rest) =
     (if c AND 0x80 = 0 then countChineseCharsUtf8 rest
      else if c AND 0xe0 = 0xc0 then countChineseCharsUtf8 (drop 1 rest)
      else if c AND 0xf0 = 0xe0 then map_option Suc (countChineseCharsUtf8 (drop 2 rest))
      else None)"

definition convert_wide :: "('w list \<Rightarrow> byte list option) \<Rightarrow> 'w list \<Rightarrow> byte list" where
  "convert_wide wcstombs wstr =
     (if length wstr = 0 then [] else case wcstombs (wstr) of None \<Rightarrow> [] | Some c \<Rightarrow> c)"

definition convert_bytes :: "(byte list \<Rightarrow> 'w list option) \<Rightarrow> byte list \<Rightarrow> 'w list" where
  "convert_bytes mbstowcs str =
     (if str = [] then [] else case mbstowcs (takeWhile (\<lambda>b. b \<noteq> 0) str) of None \<Rightarrow> [] | Some w \<Rightarrow> w)"

subsection \<open>UTF-8\<close>

definition utf8_char :: "nat \<Rightarrow> byte list" where
  "utf8_char u =
     (if u < 0x80 then [of_nat u]
      else if u < 0x800 then [of_nat (0xC0 + u div 0x40), of_nat (0x80 + u mod 0x40)]
      else if u < 0x10000 then [of_nat (0xE0 + u div 0x1000), of_nat (0x80 + u div 0x40 mod 0x40), of_nat (0x80 + u mod 0x40)]
      else [of_nat (0xF0 + u div 0x40000), of_nat (0x80 + u div 0x1000 mod 0x40), of_nat (0x80 + u div 0x40 mod 0x40),
            of_nat (0x80 + u mod 0x40)])"

definition utf8 :: "nat list \<Rightarrow> byte list" where
  "utf8 us = concat (map utf8_char us)"

lemma utf8_simps [simp]: "utf8 [] = []" "utf8 (u # us) = utf8_char u @ utf8 us"
  by (simp_all add: utf8_def)

text \<open>What the masks say of the bytes of a character.\<close>

lemma below_cases: "(\<forall>x \<in> set [0..<n]. P x) \<Longrightarrow> x < n \<Longrightarrow> P x"
  by simp

lemma ascii_mask: "x < 128 \<Longrightarrow> (of_nat x :: byte) AND 0x80 = 0"
  by (rule below_cases [where n = 128]) code_simp

lemma trail_mask: "x < 64 \<Longrightarrow> (of_nat (0x80 + x) :: byte) AND 0x80 \<noteq> 0 \<and> (of_nat (0x80 + x) :: byte) AND 0xC0 = 0x80"
  by (rule below_cases [where n = 64]) code_simp

lemma lead2_mask: "x < 32 \<Longrightarrow> (of_nat (0xC0 + x) :: byte) AND 0x80 \<noteq> 0 \<and> (of_nat (0xC0 + x) :: byte) AND 0xE0 = 0xC0 \<and>
    (of_nat (0xC0 + x) :: byte) \<noteq> 0xFF"
  by (rule below_cases [where n = 32]) code_simp

lemma lead3_mask: "x < 16 \<Longrightarrow> (of_nat (0xE0 + x) :: byte) AND 0x80 \<noteq> 0 \<and> (of_nat (0xE0 + x) :: byte) AND 0xE0 \<noteq> 0xC0 \<and>
    (of_nat (0xE0 + x) :: byte) AND 0xF0 = 0xE0 \<and> (of_nat (0xE0 + x) :: byte) \<noteq> 0xFF"
  by (rule below_cases [where n = 16]) code_simp

lemma lead4_mask: "x < 5 \<Longrightarrow> (of_nat (0xF0 + x) :: byte) AND 0x80 \<noteq> 0 \<and> (of_nat (0xF0 + x) :: byte) AND 0xE0 \<noteq> 0xC0 \<and>
    (of_nat (0xF0 + x) :: byte) AND 0xF0 \<noteq> 0xE0 \<and> (of_nat (0xF0 + x) :: byte) \<noteq> 0xFF"
  by (rule below_cases [where n = 5]) code_simp

lemma utf8_char_cases:
  assumes "u < 0x110000"
  obtains (one) a where "u < 0x80" "utf8_char u = [a]" "a AND 0x80 = 0"
  | (two) a b where "0x80 \<le> u" "u < 0x800" "utf8_char u = [a, b]" "a AND 0x80 \<noteq> 0" "a AND 0xE0 = 0xC0" "a \<noteq> 0xFF"
      "b AND 0x80 \<noteq> 0" "b AND 0xC0 = 0x80"
  | (three) a b c where "0x800 \<le> u" "u < 0x10000" "utf8_char u = [a, b, c]" "a AND 0x80 \<noteq> 0" "a AND 0xE0 \<noteq> 0xC0"
      "a AND 0xF0 = 0xE0" "a \<noteq> 0xFF" "b AND 0x80 \<noteq> 0" "b AND 0xC0 = 0x80" "c AND 0xC0 = 0x80"
  | (four) a b c d where "0x10000 \<le> u" "utf8_char u = [a, b, c, d]" "a AND 0x80 \<noteq> 0" "a AND 0xE0 \<noteq> 0xC0"
      "a AND 0xF0 \<noteq> 0xE0" "a \<noteq> 0xFF" "b AND 0x80 \<noteq> 0"
proof -
  consider "u < 0x80" | "0x80 \<le> u" "u < 0x800" | "0x800 \<le> u" "u < 0x10000" | "0x10000 \<le> u" by linarith
  then show thesis
  proof cases
    case 1
    then show thesis using one [of "of_nat u"] ascii_mask [of u] by (simp add: utf8_char_def)
  next
    case 2
    have "u div 0x40 < 32" using 2 by (simp add: div_less_iff_less_mult)
    with 2 show thesis
      using two [of "of_nat (0xC0 + u div 0x40)" "of_nat (0x80 + u mod 0x40)"] lead2_mask [of "u div 0x40"] trail_mask [of "u mod 0x40"]
      by (simp add: utf8_char_def del: of_nat_add)
  next
    case 3
    have "u div 0x1000 < 16" using 3 by (simp add: div_less_iff_less_mult)
    with 3 show thesis
      using three [of "of_nat (0xE0 + u div 0x1000)" "of_nat (0x80 + u div 0x40 mod 0x40)" "of_nat (0x80 + u mod 0x40)"]
        lead3_mask [of "u div 0x1000"] trail_mask [of "u div 0x40 mod 0x40"] trail_mask [of "u mod 0x40"]
      by (simp add: utf8_char_def del: of_nat_add)
  next
    case 4
    have "u div 0x40000 < 5" using assms by (simp add: div_less_iff_less_mult)
    with 4 show thesis
      using four [of "of_nat (0xF0 + u div 0x40000)" "of_nat (0x80 + u div 0x1000 mod 0x40)" "of_nat (0x80 + u div 0x40 mod 0x40)"
          "of_nat (0x80 + u mod 0x40)"]
        lead4_mask [of "u div 0x40000"] trail_mask [of "u div 0x1000 mod 0x40"]
      by (simp add: utf8_char_def del: of_nat_add)
  qed
qed

lemma utf8_char_not_empty: "utf8_char u \<noteq> []"
  by (simp add: utf8_char_def)

lemma utf8_eq_Nil [simp]: "utf8 us = [] \<longleftrightarrow> us = []"
  by (cases us) (simp_all add: utf8_char_not_empty)

subsection \<open>Counting\<close>

lemma count_utf8:
  "\<forall>u \<in> set us. u < 0x110000 \<Longrightarrow> countChineseCharsUtf8 (utf8 us) =
     (if \<exists>u \<in> set us. 0x10000 \<le> u then None else Some (length (filter (\<lambda>u. 0x800 \<le> u) us)))"
proof (induction us)
  case (Cons u us)
  then have "u < 0x110000" by simp
  then show ?case by (cases rule: utf8_char_cases) (use Cons in auto)
qed simp

text \<open>Of a UCS-2 text the first unit, the byte order mark, is passed over, but the last one is never looked at
  either; of a GBK text every byte with the high bit takes the next one with it.\<close>

lemma ucs2_loop_filter:
  "ucs2_loop i n ps cnt = cnt + length (filter (\<lambda>u. 127 < u) (take (n - i) ps))"
proof (induction ps arbitrary: i cnt)
  case (Cons p ps)
  show ?case
  proof (cases "i < n")
    case True
    then have "n - i = Suc (n - Suc i)" by simp
    then show ?thesis using True Cons by simp
  qed simp
qed simp

lemma length_code_units: "length (code_units bs) = length bs div 2"
  by (induction bs rule: code_units.induct) auto

lemma count_ucs2_skips_last:
  assumes "length content mod 2 = 0"
  shows "countChineseCharsUcs2 content = Some (length (filter (\<lambda>u. 127 < u) (butlast (tl (code_units content)))))"
proof -
  have "butlast (tl (code_units content)) = take (length content div 2 - 2) (tl (code_units content))"
    by (simp add: butlast_conv_take length_code_units numeral_2_eq_2)
  then show ?thesis using assms by (simp add: countChineseCharsUcs2_def ucs2_loop_filter)
qed

lemma count_gbk:
  "\<forall>c \<in> set cs. case c of [a] \<Rightarrow> a AND 0x80 = 0 | [a, b] \<Rightarrow> a AND 0x80 \<noteq> 0 | _ \<Rightarrow> False \<Longrightarrow>
     countChineseCharsGbk (concat cs) = length (filter (\<lambda>c. length c = 2) cs)"
proof (induction cs)
  case (Cons c cs)
  then have "case c of [a] \<Rightarrow> a AND 0x80 = 0 | [a, b] \<Rightarrow> a AND 0x80 \<noteq> 0 | _ \<Rightarrow> False" by simp
  then show ?case using Cons by (auto split: list.splits)
qed simp

subsection \<open>Detection\<close>

lemma detect_short: "length bs < 3 \<Longrightarrow> detect_loop bs = kUTF8"
  by (cases bs rule: detect_loop.cases) auto

lemma detect_ascii: "a AND 0x80 = 0 \<Longrightarrow> detect_loop (a # bs) = detect_loop bs"
proof (cases "length bs < 2")
  case True
  then show ?thesis by (simp add: detect_short)
next
  case False
  then obtain b c rest where "bs = b # c # rest" by (cases bs; cases "tl bs") auto
  moreover assume "a AND 0x80 = 0"
  ultimately show ?thesis by simp
qed

lemma detect_plain:
  "\<forall>u \<in> set us. u < 0x80 \<or> 0x800 \<le> u \<and> u < 0x10000 \<Longrightarrow> detect_loop (utf8 us) = kUTF8"
proof (induction us)
  case Nil
  then show ?case by simp
next
  case (Cons u us)
  then have u: "u < 0x110000" "u < 0x80 \<or> 0x800 \<le> u \<and> u < 0x10000" by auto
  from u(1) show ?case by (cases rule: utf8_char_cases) (use u(2) Cons in \<open>auto simp: detect_ascii\<close>)
qed

lemma detect_wide:
  "\<forall>v \<in> set vs. v < 0x80 \<Longrightarrow> u < 0x110000 \<Longrightarrow> 0x80 \<le> u \<and> u < 0x800 \<and> us \<noteq> [] \<or> 0x10000 \<le> u \<Longrightarrow>
     detect_loop (utf8 (vs @ u # us)) = kGBK"
proof (induction vs)
  case Nil
  from Nil(2) show ?case
  proof (cases rule: utf8_char_cases)
    case (two a b)
    then have "us \<noteq> []" using Nil(3) by simp
    then obtain c cs where "utf8 us = c # cs" by (cases "utf8 us") auto
    then show ?thesis using two by simp
  qed (use Nil in auto)
next
  case (Cons v vs)
  then have "v < 0x110000" "v < 0x80" by auto
  then show ?case by (cases rule: utf8_char_cases) (use Cons in \<open>auto simp: detect_ascii\<close>)
qed

lemma utf8_not_ucs2:
  assumes "\<forall>u \<in> set us. u < 0x110000" "2 \<le> length (utf8 us)"
  shows "detectEncoding (utf8 us) = detect_loop (utf8 us)"
proof (cases us)
  case (Cons u vs)
  then have "u < 0x110000" using assms by simp
  then have "hd (utf8 us) \<noteq> 0xFF"
    by (cases rule: utf8_char_cases) (auto simp: Cons)
  then show ?thesis using assms(2) by (cases "utf8 us"; cases "tl (utf8 us)") (auto simp: detectEncoding_def)
qed (use assms in simp)

text \<open>C39: counting in a UTF-8 text: of every text that is the UTF-8 encoding of code points, countChineseCharsUtf8
  returns the number of its characters from U+0800 to U+FFFF (those of three bytes), unless the text has a
  character beyond U+FFFF, at which the function aborts the process.\<close>

theorem countChineseCharsUtf8_counts:
  assumes "\<forall>u \<in> set us. u < 0x110000"
  shows "countChineseCharsUtf8 (utf8 us) =
     (if \<exists>u \<in> set us. 0x10000 \<le> u then None else Some (length (filter (\<lambda>u. 0x800 \<le> u) us)))"
  using assms by (rule count_utf8)

theorem countChineseCharsUtf8_counts_witness:
  "countChineseCharsUtf8 (utf8 [0x4F60, 0x21, 0x597D]) = Some 2 \<and> countChineseCharsUtf8 (utf8 [0x4F60, 0x1F600]) = None"
  using countChineseCharsUtf8_counts [of "[0x4F60, 0x21, 0x597D]"] countChineseCharsUtf8_counts [of "[0x4F60, 0x1F600]"] by simp

text \<open>what detectEncoding says of a UTF-8 text: one of at least two bytes whose characters have one or three
  bytes is found to be UTF-8; but a text in which the first character that is not ASCII has four bytes, or
  has two and is not the last, is taken for GBK, although it is UTF-8 as well: the test of the second byte
  of a two-byte character is the wrong way round.\<close>

theorem detectEncoding_of_utf8:
  assumes "\<forall>u \<in> set us. u < 0x110000" "2 \<le> length (utf8 us)"
  shows "((\<forall>u \<in> set us. u < 0x80 \<or> 0x800 \<le> u \<and> u < 0x10000) \<longrightarrow> detectEncoding (utf8 us) = kUTF8) \<and>
    (\<forall>vs u ws. us = vs @ u # ws \<and> (\<forall>v \<in> set vs. v < 0x80) \<and> (0x80 \<le> u \<and> u < 0x800 \<and> ws \<noteq> [] \<or> 0x10000 \<le> u) \<longrightarrow>
       detectEncoding (utf8 us) = kGBK)"
proof (intro conjI impI allI)
  show "detectEncoding (utf8 us) = kUTF8" if "\<forall>u \<in> set us. u < 0x80 \<or> 0x800 \<le> u \<and> u < 0x10000"
    using detect_plain [OF that] utf8_not_ucs2 [OF assms] by simp
  fix vs u ws
  assume *: "us = vs @ u # ws \<and> (\<forall>v \<in> set vs. v < 0x80) \<and> (0x80 \<le> u \<and> u < 0x800 \<and> ws \<noteq> [] \<or> 0x10000 \<le> u)"
  then have "detect_loop (utf8 (vs @ u # ws)) = kGBK" using assms(1) by (intro detect_wide) auto
  then show "detectEncoding (utf8 us) = kGBK" using utf8_not_ucs2 [OF assms] * by simp
qed

theorem detectEncoding_of_utf8_witness:
  "detectEncoding (utf8 [0x4F60, 0x597D]) = kUTF8 \<and> detectEncoding (utf8 [0x63, 0xE9, 0x21]) = kGBK"
proof
  show "detectEncoding (utf8 [0x4F60, 0x597D]) = kUTF8"
    using detectEncoding_of_utf8 [of "[0x4F60, 0x597D]"] by (simp add: utf8_char_def)
  have u: "\<forall>u \<in> set [0x63, 0xE9, 0x21 :: nat]. u < 0x110000" "2 \<le> length (utf8 [0x63, 0xE9, 0x21])"
    by (simp_all add: utf8_char_def)
  note gbk = spec [where x = "[0x21]", OF spec [where x = "0xE9", OF spec [where x = "[0x63]", OF conjunct2 [OF detectEncoding_of_utf8 [OF u]]]]]
  show "detectEncoding (utf8 [0x63, 0xE9, 0x21]) = kGBK" by (rule mp [OF gbk]) simp
qed

text \<open>And a text in GBK can be taken for UTF-8, here the same character (C4 E3) twice.\<close>

lemma gbk_taken_for_utf8: "detectEncoding [0xC4, 0xE3, 0xC4, 0xE3] = kUTF8"
  by code_simp

end
