(* ===== verification/Logger.thy ===== *)
theory Logger
  imports Timer_Queue Time_Zone Log_Stream
begin

text \<open>
  muduo/base/Logging.h, Logging.cc, the thread id text of CurrentThread.h and Thread.cc, and the printing of
  Timestamp.cc: how a log line is made. A logger writes the head of the line when it is constructed, the
  message through its stream (Log_Stream), and the source position when it is destroyed. Each thread keeps
  the text of the second it logged last, \<open>t_time\<close>, and of its id. The clock, gettid, the text of an error
  number and what the stream's array holds before it is written are arguments; printf's integer
  conversions are \<open>padded\<close>, and gmtime_r of libc agrees with TimeZone's (Time_Zone).
\<close>

subsection \<open>Printing numbers and times\<close>

definition padded :: "nat \<Rightarrow> char \<Rightarrow> int \<Rightarrow> string" where
  "padded w c v =
     (let s = dec_int v
      in if v < 0 \<and> c = CHR ''0'' then CHR ''-'' # replicate (w - length s) c @ dec_nat (nat (- v))
         else replicate (w - length s) c @ s)"

definition date_text :: "tm \<Rightarrow> string" where
  "date_text t =
     padded 4 (CHR '' '') (tm_year t + 1900) @ padded 2 (CHR ''0'') (tm_mon t + 1) @ padded 2 (CHR ''0'') (tm_mday t) @ '' ''
     @ padded 2 (CHR ''0'') (tm_hour t) @ '':'' @ padded 2 (CHR ''0'') (tm_min t) @ '':'' @ padded 2 (CHR ''0'') (tm_sec t)"

definition snprintf_cut :: "nat \<Rightarrow> string \<Rightarrow> string" where
  "snprintf_cut n text = take (n - 1) text"

definition Timestamp_toString :: "Timestamp \<Rightarrow> string" where
  "Timestamp_toString t =
     (let seconds = t sdiv kMicroSecondsPerSecond;
          microseconds = t smod kMicroSecondsPerSecond
      in snprintf_cut 31 (dec_int seconds @ ''.'' @ padded 6 (CHR ''0'') microseconds))"

definition toFormattedString :: "bool \<Rightarrow> Timestamp \<Rightarrow> string" where
  "toFormattedString showMicroseconds t =
     (let seconds = t sdiv kMicroSecondsPerSecond;
          tm_time = gmtime_r seconds
      in if showMicroseconds
         then (let microseconds = t smod kMicroSecondsPerSecond
               in snprintf_cut 32 (date_text tm_time @ ''.'' @ padded 6 (CHR ''0'') microseconds))
         else snprintf_cut 32 (date_text tm_time))"

subsection \<open>The thread's cached texts\<close>

record log_thread =
  t_lastSecond :: int
  t_time :: string
  t_cachedTid :: int
  t_tidString :: string
  t_tidStringLength :: nat

definition new_log_thread :: log_thread where
  "new_log_thread = \<lparr>t_lastSecond = 0, t_time = [], t_cachedTid = 0, t_tidString = [], t_tidStringLength = 6\<rparr>"

definition tid_text :: "int \<Rightarrow> string" where
  "tid_text tid = padded 5 (CHR '' '') tid @ '' ''"

definition cacheTid :: "int \<Rightarrow> log_thread \<Rightarrow> log_thread" where
  "cacheTid gettid th =
     (if t_cachedTid th = 0
      then th\<lparr>t_cachedTid := gettid, t_tidString := snprintf_cut 32 (tid_text gettid), t_tidStringLength := length (tid_text gettid)\<rparr>
      else th)"

definition tid :: "int \<Rightarrow> log_thread \<Rightarrow> int \<times> log_thread" where
  "tid gettid th =
     (let th = (if t_cachedTid th = 0 then cacheTid gettid th else th)
      in (t_cachedTid th, th))"

subsection \<open>Levels and files\<close>

datatype LogLevel = TRACE | DEBUG | INFO | WARN | ERROR | FATAL

primrec level_no :: "LogLevel \<Rightarrow> nat" where
  "level_no TRACE = 0"
| "level_no DEBUG = 1"
| "level_no INFO = 2"
| "level_no WARN = 3"
| "level_no ERROR = 4"
| "level_no FATAL = 5"

primrec LogLevelName :: "LogLevel \<Rightarrow> string" where
  "LogLevelName TRACE = ''TRACE ''"
| "LogLevelName DEBUG = ''DEBUG ''"
| "LogLevelName INFO = ''INFO  ''"
| "LogLevelName WARN = ''WARN  ''"
| "LogLevelName ERROR = ''ERROR ''"
| "LogLevelName FATAL = ''FATAL ''"

definition initLogLevel :: "(string \<Rightarrow> bool) \<Rightarrow> LogLevel" where
  "initLogLevel getenv =
     (if getenv ''MUDUO_LOG_TRACE'' then TRACE else if getenv ''MUDUO_LOG_DEBUG'' then DEBUG else INFO)"

text \<open>The macros: LOG_TRACE, LOG_DEBUG and LOG_INFO look at the level, the others do not.\<close>

definition log_enabled :: "LogLevel \<Rightarrow> LogLevel \<Rightarrow> bool" where
  "log_enabled g_logLevel level \<longleftrightarrow> (level \<in> {TRACE, DEBUG, INFO} \<longrightarrow> level_no g_logLevel \<le> level_no level)"

definition SourceFile :: "string \<Rightarrow> string" where
  "SourceFile filename = rev (takeWhile (\<lambda>c. c \<noteq> CHR ''/'') (rev filename))"

subsection \<open>The logger\<close>

text \<open>Class T: a text whose length the caller knows.\<close>

definition put_T :: "string \<Rightarrow> nat \<Rightarrow> fixed_buffer \<Rightarrow> fixed_buffer option" where
  "put_T str len b = do { require (length str = len); fb_append str b }"

definition put_SourceFile :: "string \<Rightarrow> fixed_buffer \<Rightarrow> fixed_buffer option" where
  "put_SourceFile file b = fb_append file b"

definition time_of :: "time_zone \<Rightarrow> int \<Rightarrow> tm option" where
  "time_of zone seconds = (if zone_valid zone then toLocalTime zone seconds else Some (gmtime_r seconds))"

definition formatTime :: "time_zone \<Rightarrow> Timestamp \<Rightarrow> log_thread \<Rightarrow> fixed_buffer \<Rightarrow> (log_thread \<times> fixed_buffer) option" where
  "formatTime zone now th b = do {
     let seconds = now sdiv kMicroSecondsPerSecond;
     let microseconds = now smod kMicroSecondsPerSecond;
     th \<leftarrow> (if seconds \<noteq> t_lastSecond th then do {
         tm_time \<leftarrow> time_of zone seconds;
         require (length (date_text tm_time) = 17);
         Some (th\<lparr>t_lastSecond := seconds, t_time := snprintf_cut 32 (date_text tm_time)\<rparr>) }
       else Some th);
     if zone_valid zone then do {
       us \<leftarrow> new_Fmt (''.'' @ padded 6 (CHR ''0'') microseconds @ '' '');
       require (length us = 8);
       b \<leftarrow> put_T (t_time th) 17 b;
       b \<leftarrow> put_T us 8 b;
       Some (th, b) }
     else do {
       us \<leftarrow> new_Fmt (''.'' @ padded 6 (CHR ''0'') microseconds @ ''Z '');
       require (length us = 9);
       b \<leftarrow> put_T (t_time th) 17 b;
       b \<leftarrow> put_T us 9 b;
       Some (th, b) } }"

record log_env =
  g_logTimeZone :: time_zone
  env_now :: Timestamp
  env_gettid :: int
  env_strerror :: "int \<Rightarrow> string"
  env_garbage :: string

record logger =
  l_stream :: fixed_buffer
  l_level :: LogLevel
  l_line :: int
  l_basename :: string

definition new_Impl :: "log_env \<Rightarrow> LogLevel \<Rightarrow> int \<Rightarrow> string \<Rightarrow> int \<Rightarrow> log_thread \<Rightarrow> (log_thread \<times> logger) option" where
  "new_Impl env level savedErrno file line th = do {
     let b = new_FixedBuffer (env_garbage env);
     (th, b) \<leftarrow> formatTime (g_logTimeZone env) (env_now env) th b;
     let th = snd (tid (env_gettid env) th);
     b \<leftarrow> put_T (t_tidString th) (t_tidStringLength th) b;
     b \<leftarrow> put_T (LogLevelName level) 6 b;
     b \<leftarrow> (if savedErrno \<noteq> 0
           then put_items [LCstr (Some (env_strerror env savedErrno)), LCstr (Some '' (errno=''), LInt savedErrno, LCstr (Some '') '')] b
           else Some b);
     Some (th, \<lparr>l_stream = b, l_level = level, l_line = line, l_basename = file\<rparr>) }"

definition finish :: "logger \<Rightarrow> fixed_buffer option" where
  "finish l = do {
     b \<leftarrow> put_item (LCstr (Some '' - '')) (l_stream l);
     b \<leftarrow> put_SourceFile (l_basename l) b;
     put_items [LChar (CHR '':''), LInt (l_line l), LChar (CHR 0x0A)] b }"

definition new_Logger :: "log_env \<Rightarrow> string \<Rightarrow> int \<Rightarrow> log_thread \<Rightarrow> (log_thread \<times> logger) option" where
  "new_Logger env file line th = new_Impl env INFO 0 file line th"

definition new_Logger_func :: "log_env \<Rightarrow> string \<Rightarrow> int \<Rightarrow> LogLevel \<Rightarrow> string \<Rightarrow> log_thread \<Rightarrow> (log_thread \<times> logger) option" where
  "new_Logger_func env file line level func th = do {
     (th, l) \<leftarrow> new_Impl env level 0 file line th;
     b \<leftarrow> put_items [LCstr (Some func), LChar (CHR '' '')] (l_stream l);
     Some (th, l\<lparr>l_stream := b\<rparr>) }"

definition new_Logger_level :: "log_env \<Rightarrow> string \<Rightarrow> int \<Rightarrow> LogLevel \<Rightarrow> log_thread \<Rightarrow> (log_thread \<times> logger) option" where
  "new_Logger_level env file line level th = new_Impl env level 0 file line th"

definition new_Logger_sys :: "log_env \<Rightarrow> string \<Rightarrow> int \<Rightarrow> bool \<Rightarrow> int \<Rightarrow> log_thread \<Rightarrow> (log_thread \<times> logger) option" where
  "new_Logger_sys env file line toAbort errno th = new_Impl env (if toAbort then FATAL else ERROR) errno file line th"

text \<open>What the destructor gives to g_output, and whether it ends the process.\<close>

definition destroy_Logger :: "logger \<Rightarrow> (string \<times> bool) option" where
  "destroy_Logger l = do { b \<leftarrow> finish l; Some (fb_toString b, l_level l = FATAL) }"

text \<open>A statement LOG_X \<open><<\<close> items: construct, write the items, destroy.\<close>

definition log_statement ::
  "(log_thread \<Rightarrow> (log_thread \<times> logger) option) \<Rightarrow> log_item list \<Rightarrow> log_thread \<Rightarrow> (log_thread \<times> string \<times> bool) option" where
  "log_statement ctor items th = do {
     (th, l) \<leftarrow> ctor th;
     b \<leftarrow> put_items items (l_stream l);
     r \<leftarrow> destroy_Logger (l\<lparr>l_stream := b\<rparr>);
     Some (th, r) }"

subsection \<open>A line with room for all of it\<close>

lemma grown_avail: "grown s b b' \<Longrightarrow> fb_ok b \<Longrightarrow> fb_avail b' = fb_avail b - int (length s)"
proof -
  assume g: "grown s b b'" and ok: "fb_ok b"
  have "length (fb_toString b') = length (fb_toString b) + length s" using g by (simp add: grown_def)
  then have "fb_cur b' = fb_cur b + length s" using g ok by (simp add: grown_def fb_ok_def fb_toString_def)
  then show ?thesis using g by (simp add: grown_def fb_avail_def)
qed

lemma grown_append: "grown s b c \<Longrightarrow> grown t c d \<Longrightarrow> grown (s @ t) b d"
  by (simp add: grown_def)

lemma put_items_all:
  assumes "fb_ok b" "list_all item_ok xs" "int (length (concat (map item_text xs))) + 32 \<le> fb_avail b"
  shows "\<exists>b'. put_items xs b = Some b' \<and> grown (concat (map item_text xs)) b b'"
  using assms
proof (induction xs arbitrary: b)
  case Nil
  then show ?case by (simp add: grown_def)
next
  case (Cons x xs)
  then have "item_fits x b" by (simp add: item_fits_def kMaxNumericSize_def)
  then obtain c where c: "put_item x b = Some c" "grown (item_text x) b c"
    using put_item_whole [of b x] Cons.prems by auto
  have "fb_ok c" using c(2) by (simp add: grown_def)
  moreover have "int (length (concat (map item_text xs))) + 32 \<le> fb_avail c"
    using grown_avail [OF c(2)] Cons.prems by simp
  ultimately obtain d where "put_items xs c = Some d" "grown (concat (map item_text xs)) c d"
    using Cons.IH [of c] Cons.prems by auto
  then show ?case using c grown_append by fastforce
qed

lemma put_items_append: "put_items (xs @ ys) b = do { b \<leftarrow> put_items xs b; put_items ys b }"
proof (induction xs arbitrary: b)
  case (Cons x xs)
  then show ?case by (cases "put_item x b") simp_all
qed simp

lemma put_items_fun: "put_items (x # xs) = (\<lambda>b. put_item x b \<bind> put_items xs)"
  by (simp add: fun_eq_iff)

lemma put_T_item: "length s = n \<Longrightarrow> put_T s n b = put_item (LString s) b"
  by (simp add: put_T_def put_string_def)

lemma put_SourceFile_item: "put_SourceFile s b = put_item (LString s) b"
  by (simp add: put_SourceFile_def put_string_def)

lemma length_padded:
  assumes "0 \<le> v" "v < 10 ^ w" "0 < w"
  shows "length (padded w c v) = w"
proof -
  have "nat v < 10 ^ w" using assms by (simp add: nat_less_iff)
  then have "length (dec_nat (nat v)) \<le> w" using assms(3) by (rule length_dec_nat)
  then show ?thesis using assms(1) by (simp add: padded_def Let_def dec_int_def)
qed

lemma length_date_text:
  assumes "utc_fields_ok t" "- 900 \<le> tm_year t" "tm_year t < 8100"
  shows "length (date_text t) = 17"
proof -
  have "days_in_month y m \<le> 31" for y m by (simp add: days_in_month_def)
  then have "tm_mday t \<le> 31" using assms(1) order_trans unfolding utc_fields_ok_def valid_date_def by blast
  moreover have "0 \<le> tm_mday t" "0 \<le> tm_mon t + 1" "tm_mon t + 1 \<le> 12"
    using assms(1) by (auto simp: utc_fields_ok_def valid_date_def)
  ultimately show ?thesis using assms by (simp add: date_text_def length_padded utc_fields_ok_def)
qed

subsection \<open>What the thread remembers\<close>

definition log_thread_ok :: "time_zone \<Rightarrow> int \<Rightarrow> log_thread \<Rightarrow> bool" where
  "log_thread_ok zone gettid th \<longleftrightarrow>
     (t_lastSecond th \<noteq> 0 \<longrightarrow> (\<exists>t. time_of zone (t_lastSecond th) = Some t \<and> t_time th = date_text t)) \<and>
     (t_cachedTid th \<noteq> 0 \<longrightarrow> t_tidString th = tid_text gettid \<and> t_tidStringLength th = length (tid_text gettid))"

definition head_items :: "log_env \<Rightarrow> tm \<Rightarrow> LogLevel \<Rightarrow> log_item list" where
  "head_items env t level =
     [LString (date_text t), LString (''.'' @ padded 6 (CHR ''0'') (env_now env smod kMicroSecondsPerSecond)
        @ (if zone_valid (g_logTimeZone env) then '' '' else ''Z '')),
      LString (tid_text (env_gettid env)), LString (LogLevelName level)]"

definition errno_items :: "log_env \<Rightarrow> int \<Rightarrow> log_item list" where
  "errno_items env savedErrno =
     (if savedErrno \<noteq> 0
      then [LCstr (Some (env_strerror env savedErrno)), LCstr (Some '' (errno=''), LInt savedErrno, LCstr (Some '') '')]
      else [])"

definition tail_items :: "string \<Rightarrow> int \<Rightarrow> log_item list" where
  "tail_items file line = [LCstr (Some '' - ''), LString file, LChar (CHR '':''), LInt line, LChar (CHR 0x0A)]"

lemma snprintf_short: "length s < n \<Longrightarrow> snprintf_cut n s = s"
  by (simp add: snprintf_cut_def)

lemma length_tid_text: "0 < g \<Longrightarrow> g < 10 ^ 7 \<Longrightarrow> length (tid_text g) < 32"
proof -
  assume g: "0 < g" "g < 10 ^ 7"
  then have "length (dec_nat (nat g)) \<le> 7" by (intro length_dec_nat) (auto simp: nat_less_iff)
  with g show ?thesis by (simp add: tid_text_def padded_def Let_def dec_int_def)
qed

lemma length_LogLevelName: "length (LogLevelName level) = 6"
  by (cases level) simp_all

lemma micro_text:
  assumes "0 \<le> now"
  shows "length (padded 6 (CHR ''0'') (now smod kMicroSecondsPerSecond)) = 6"
proof -
  have "now smod kMicroSecondsPerSecond = now mod kMicroSecondsPerSecond"
    using assms by (simp add: smod_nonneg kMicroSecondsPerSecond_def)
  then show ?thesis by (intro length_padded) (auto simp: kMicroSecondsPerSecond_def)
qed

lemma formatTime_items:
  assumes ok: "log_thread_ok zone g th" and now: "kMicroSecondsPerSecond \<le> now"
    and t: "time_of zone (now sdiv kMicroSecondsPerSecond) = Some t" "length (date_text t) = 17"
  obtains th' where "log_thread_ok zone g th'"
    "\<And>b. formatTime zone now th b =
       do { b \<leftarrow> put_items [LString (date_text t), LString (''.'' @ padded 6 (CHR ''0'') (now smod kMicroSecondsPerSecond)
              @ (if zone_valid zone then '' '' else ''Z ''))] b; Some (th', b) }"
proof -
  let ?s = "now sdiv kMicroSecondsPerSecond"
  have "1 \<le> now div kMicroSecondsPerSecond"
    using now zdiv_mono1 [of kMicroSecondsPerSecond now kMicroSecondsPerSecond] by (simp add: kMicroSecondsPerSecond_def)
  then have s: "?s \<noteq> 0" using now sdiv_nonneg [of now kMicroSecondsPerSecond] by (simp add: kMicroSecondsPerSecond_def)
  let ?th = "if ?s \<noteq> t_lastSecond th then th\<lparr>t_lastSecond := ?s, t_time := date_text t\<rparr> else th"
  have tt: "t_time ?th = date_text t" using ok s t(1) by (auto simp: log_thread_ok_def)
  have ok': "log_thread_ok zone g ?th" using ok s t(1) by (auto simp: log_thread_ok_def)
  have step: "(if ?s \<noteq> t_lastSecond th then do {
         tm_time \<leftarrow> time_of zone ?s;
         require (length (date_text tm_time) = 17);
         Some (th\<lparr>t_lastSecond := ?s, t_time := snprintf_cut 32 (date_text tm_time)\<rparr>) }
       else Some th) = Some ?th"
    using t by (simp add: snprintf_short)
  have m: "length (padded 6 (CHR ''0'') (now smod kMicroSecondsPerSecond)) = 6"
    using now by (intro micro_text) (simp add: kMicroSecondsPerSecond_def)
  show thesis
  proof (rule that [OF ok'])
    fix b
    show "formatTime zone now th b =
       do { b \<leftarrow> put_items [LString (date_text t), LString (''.'' @ padded 6 (CHR ''0'') (now smod kMicroSecondsPerSecond)
              @ (if zone_valid zone then '' '' else ''Z ''))] b; Some (?th, b) }"
      unfolding formatTime_def Let_def step using m t(2) tt
      by (simp add: new_Fmt_def put_T_item bind_assoc)
  qed
qed

lemma tid_ok:
  assumes "log_thread_ok zone g th" "0 < g" "g < 10 ^ 7"
  shows "log_thread_ok zone g (snd (tid g th))" "t_tidString (snd (tid g th)) = tid_text g"
    "t_tidStringLength (snd (tid g th)) = length (tid_text g)"
  using assms length_tid_text [of g] by (auto simp: log_thread_ok_def tid_def cacheTid_def Let_def snprintf_short)

lemma new_Impl_items:
  assumes ok: "log_thread_ok (g_logTimeZone env) (env_gettid env) th" and now: "kMicroSecondsPerSecond \<le> env_now env"
    and t: "time_of (g_logTimeZone env) (env_now env sdiv kMicroSecondsPerSecond) = Some t" "length (date_text t) = 17"
    and g: "0 < env_gettid env" "env_gettid env < 10 ^ 7"
  obtains th' where "log_thread_ok (g_logTimeZone env) (env_gettid env) th'"
    "new_Impl env level savedErrno file line th =
       do { b \<leftarrow> put_items (head_items env t level @ errno_items env savedErrno) (new_FixedBuffer (env_garbage env));
            Some (th', \<lparr>l_stream = b, l_level = level, l_line = line, l_basename = file\<rparr>) }"
proof -
  from formatTime_items [OF ok now t] obtain th1 where th1: "log_thread_ok (g_logTimeZone env) (env_gettid env) th1"
    "\<And>b. formatTime (g_logTimeZone env) (env_now env) th b =
       do { b \<leftarrow> put_items [LString (date_text t), LString (''.'' @ padded 6 (CHR ''0'') (env_now env smod kMicroSecondsPerSecond)
              @ (if zone_valid (g_logTimeZone env) then '' '' else ''Z ''))] b; Some (th1, b) }" by blast
  note tid = tid_ok [OF th1(1) g]
  show thesis
  proof (rule that [OF tid(1)])
    show "new_Impl env level savedErrno file line th =
       do { b \<leftarrow> put_items (head_items env t level @ errno_items env savedErrno) (new_FixedBuffer (env_garbage env));
            Some (snd (tid (env_gettid env) th1), \<lparr>l_stream = b, l_level = level, l_line = line, l_basename = file\<rparr>) }"
      unfolding new_Impl_def Let_def th1(2) put_items_append
      by (simp add: head_items_def errno_items_def tid(2,3) put_T_item put_T_item [OF length_LogLevelName] bind_assoc)
  qed
qed

lemma finish_items:
  "finish l = put_items (tail_items (l_basename l) (l_line l)) (l_stream l)"
  by (simp add: finish_def tail_items_def put_SourceFile_item put_items_fun del: put_item.simps)

definition log_line_text :: "log_env \<Rightarrow> tm \<Rightarrow> LogLevel \<Rightarrow> int \<Rightarrow> string \<Rightarrow> int \<Rightarrow> log_item list \<Rightarrow> string" where
  "log_line_text env t level savedErrno file line items =
     concat (map item_text (head_items env t level @ errno_items env savedErrno @ items @ tail_items file line))"

lemma statement_items:
  assumes i: "\<And>b. new_Impl env level savedErrno file line th =
       do { b \<leftarrow> put_items xs b0; Some (th', \<lparr>l_stream = b, l_level = level, l_line = line, l_basename = file\<rparr>) }"
  shows "log_statement (new_Impl env level savedErrno file line) items th =
    do { b \<leftarrow> put_items (xs @ items @ tail_items file line) b0; Some (th', fb_toString b, level = FATAL) }"
  by (simp add: log_statement_def i put_items_append destroy_Logger_def finish_items bind_assoc)

text \<open>C40: a log line is laid out as documented and on time: with room for it, a statement writes, in this order,
  the second in the logging zone, the microseconds (with a Z for UTC), the thread, the level, the error if
  any, the message, the file, the line and one line end, whatever second the thread logged last; it asks the
  process to end exactly at level FATAL; and what the thread remembers stays right for the next line, as
  long as the zone stays.\<close>

theorem log_line_layout:
  assumes "log_thread_ok (g_logTimeZone env) (env_gettid env) th" "kMicroSecondsPerSecond \<le> env_now env"
    "time_of (g_logTimeZone env) (env_now env sdiv kMicroSecondsPerSecond) = Some t"
    "utc_fields_ok t" "- 900 \<le> tm_year t" "tm_year t < 8100" "0 < env_gettid env" "env_gettid env < 10 ^ 7"
    "length (env_garbage env) = kSmallBuffer" "list_all item_ok items" "item_ok (LInt line)" "item_ok (LInt savedErrno)"
    "length (log_line_text env t level savedErrno file line items) + 32 \<le> kSmallBuffer"
  shows "\<exists>th'. log_statement (new_Impl env level savedErrno file line) items th =
      Some (th', log_line_text env t level savedErrno file line items, level = FATAL) \<and>
    log_thread_ok (g_logTimeZone env) (env_gettid env) th'"
proof -
  let ?xs = "head_items env t level @ errno_items env savedErrno @ items @ tail_items file line"
  let ?b = "new_FixedBuffer (env_garbage env)"
  obtain th' where th': "log_thread_ok (g_logTimeZone env) (env_gettid env) th'"
    "new_Impl env level savedErrno file line th =
       do { b \<leftarrow> put_items (head_items env t level @ errno_items env savedErrno) ?b;
            Some (th', \<lparr>l_stream = b, l_level = level, l_line = line, l_basename = file\<rparr>) }"
    by (rule new_Impl_items [OF assms(1-3) length_date_text [OF assms(4-6)] assms(7,8)])
  have xs: "list_all item_ok ?xs" using assms(10-12) by (simp add: head_items_def errno_items_def tail_items_def)
  have b: "fb_ok ?b" "fb_avail ?b = int kSmallBuffer" "fb_toString ?b = []"
    using assms(9) by (simp_all add: fb_ok_def new_FixedBuffer_def fb_avail_def kSmallBuffer_def fb_toString_def)
  have "int (length (concat (map item_text ?xs))) + 32 \<le> fb_avail ?b"
    using assms(13) unfolding log_line_text_def b(2) by linarith
  from put_items_all [OF b(1) xs this] obtain b' where
    "put_items ?xs ?b = Some b'" "grown (concat (map item_text ?xs)) ?b b'" by blast
  then have "put_items ?xs ?b = Some b'" "fb_toString b' = log_line_text env t level savedErrno file line items"
    using b(3) unfolding grown_def log_line_text_def by (metis append_Nil)+
  moreover note statement_items [OF th'(2), of items]
  ultimately show ?thesis using th'(1) unfolding append_assoc by simp
qed

definition sample_env :: log_env where
  "sample_env = \<lparr>g_logTimeZone = None, env_now = 1500000000000042, env_gettid = 77, env_strerror = (\<lambda>e. ''?''),
     env_garbage = replicate 4000 (CHR ''x'')\<rparr>"

text \<open>A new zone shows only in the next second: within the second the thread logged last, the old text is used,
  now without the Z.\<close>

lemma zone_change_is_late:
  assumes "t_lastSecond th = now sdiv kMicroSecondsPerSecond" "length (t_time th) = 17" "0 \<le> now"
  shows "formatTime (Some zone) now th b =
    do { b \<leftarrow> put_items [LString (t_time th),
      LString (''.'' @ padded 6 (CHR ''0'') (now smod kMicroSecondsPerSecond) @ '' '')] b; Some (th, b) }"
  using assms micro_text [OF assms(3)]
  by (simp add: formatTime_def Let_def zone_valid_def new_Fmt_def put_T_item bind_assoc)

text \<open>A message that fills the stream leaves no room for the line end: the next line follows on the same one.\<close>

lemma full_line_loses_its_end:
  assumes "fb_ok (l_stream l)" "fb_avail (l_stream l) = 1" "l_basename l \<noteq> []" "item_ok (LInt (l_line l))"
  shows "finish l = Some (l_stream l)"
proof -
  have no: "put_item x (l_stream l) = Some (l_stream l)" if "x \<in> set (tail_items (l_basename l) (l_line l))" for x
  proof -
    have "item_ok x" "\<not> item_fits x (l_stream l)"
      using that assms by (auto simp: tail_items_def item_fits_def kMaxNumericSize_def Suc_le_eq)
    then show ?thesis using put_item_whole [OF assms(1), of x] by auto
  qed
  have "put_items xs (l_stream l) = Some (l_stream l)" if "set xs \<subseteq> set (tail_items (l_basename l) (l_line l))" for xs
    using that no by (induction xs) auto
  then show ?thesis by (simp add: finish_items)
qed

lemma sample_day: "yearMonthDay (Date_number 2457949) = \<lparr>ymd_year = 2017, ymd_month = 7, ymd_day = 14\<rparr>"
proof -
  have "getJulianDayNumber 2017 7 14 = 2457949"
    by (simp add: getJulianDayNumber_def signed_divide_int_def)
  then show ?thesis
    using getYearMonthDay_inverts [of 2017 7 14] by (simp add: yearMonthDay_def Date_number_def valid_date_def days_in_month_def)
qed

lemma sample_seconds:
  "1500000000 sdiv kSecondsPerDay = 17361" "1500000000 smod kSecondsPerDay = 9600" "to_int 17361 = 17361" "to_int 9600 = 9600"
  "kJulianDayOf1970_01_01 = 2440588"
  by (simp_all add: kSecondsPerDay_def sdiv_nonneg smod_nonneg to_int_def signed_take_bit_int_eq_self kJulianDayOf1970_01_01_def
      getJulianDayNumber_def signed_divide_int_def)

lemma sample_tm: "gmtime_r 1500000000 = \<lparr>tm_sec = 0, tm_min = 40, tm_hour = 2, tm_mday = 14, tm_mon = 6, tm_year = 117, tm_wday = 5,
    tm_yday = 194, tm_isdst = False, tm_gmtoff = 0, tm_zone = ''GMT''\<rparr>"
proof -
  have "weekDay (Date_number 2457949) = 5" "julianDayNumber (Date_number 2457949) = 2457949"
    "julianDayNumber (Date_of 2017 1 1) = 2457755"
    by (simp_all add: weekDay_def Date_number_def Date_of_def kDaysPerWeek_def getJulianDayNumber_def signed_divide_int_def
        signed_modulo_int_def)
  then show ?thesis
    by (simp add: gmtime_r_def toUtcTime_def sample_seconds sample_day fillHMS_def tm_zeroed_def)
qed

lemma sample_line: "log_line_text sample_env (gmtime_r 1500000000) INFO 0 ''a.cc'' 7 [LString ''hi'']
    = ''20170714 02:40:00.000042Z    77 INFO  hi - a.cc:7'' @ [CHR 0x0A]"
  unfolding sample_tm by code_simp

theorem log_line_layout_witness:
  "\<exists>th'. log_statement (new_Impl sample_env INFO 0 ''a.cc'' 7) [LString ''hi''] new_log_thread =
    Some (th', ''20170714 02:40:00.000042Z    77 INFO  hi - a.cc:7'' @ [CHR 0x0A], False)"
proof -
  have s: "env_now sample_env sdiv kMicroSecondsPerSecond = 1500000000" by code_simp
  have f: "utc_fields_ok (gmtime_r 1500000000)"
    using utc_roundtrip_fields [of 1500000000 True] by (simp add: gmtime_r_def time_ok_def kSecondsPerDay_def)
  have e: "log_thread_ok (g_logTimeZone sample_env) (env_gettid sample_env) new_log_thread"
    "kMicroSecondsPerSecond \<le> env_now sample_env" "0 < env_gettid sample_env" "env_gettid sample_env < 10 ^ 7"
    "length (env_garbage sample_env) = kSmallBuffer"
    "time_of (g_logTimeZone sample_env) (env_now sample_env sdiv kMicroSecondsPerSecond) = Some (gmtime_r 1500000000)"
    unfolding s by (simp_all add: sample_env_def new_log_thread_def log_thread_ok_def kMicroSecondsPerSecond_def kSmallBuffer_def
        time_of_def zone_valid_def)
  have y: "- 900 \<le> tm_year (gmtime_r 1500000000)" "tm_year (gmtime_r 1500000000) < 8100" by (simp_all add: sample_tm)
  have i: "list_all item_ok [LString ''hi'']" "item_ok (LInt 7)" "item_ok (LInt 0)" by simp_all
  have n: "length (log_line_text sample_env (gmtime_r 1500000000) INFO 0 ''a.cc'' 7 [LString ''hi'']) + 32 \<le> kSmallBuffer"
    by (simp add: sample_line kSmallBuffer_def)
  show ?thesis
    using log_line_layout [OF e(1,2,6) f y e(3-5) i n] by (auto simp: sample_line)
qed

text \<open>The texts of a time stamp with a year of four digits fit their arrays.\<close>

lemma toFormattedString_whole:
  assumes "0 \<le> t" "utc_fields_ok (gmtime_r (t sdiv kMicroSecondsPerSecond))"
    "- 900 \<le> tm_year (gmtime_r (t sdiv kMicroSecondsPerSecond))" "tm_year (gmtime_r (t sdiv kMicroSecondsPerSecond)) < 8100"
  shows "toFormattedString True t = date_text (gmtime_r (t sdiv kMicroSecondsPerSecond)) @ ''.''
    @ padded 6 (CHR ''0'') (t smod kMicroSecondsPerSecond)"
  using length_date_text [OF assms(2-4)] micro_text [OF assms(1)]
  by (simp add: toFormattedString_def snprintf_short)

end
