(* ===== verification/Common_Tools.thy ===== *)
theory Common_Tools
  imports Prelude "HOL-Library.Char_ord" "HOL-Library.List_Lexorder" "HOL-Library.Sublist"
begin

text \<open>
  muduo/base/common.h, common.cpp: helpers on strings and files. A std::string is a list of characters, a
  std::set of strings a strictly sorted list; characters compare as unsigned bytes, as in std::string. The
  file system is the map of the readable files' contents and the paths that can be opened for writing; mkdir
  and opendir are arguments.
\<close>

unbundle bit_operations_syntax

subsection \<open>Strings\<close>

definition find_first_not_of :: "char \<Rightarrow> string \<Rightarrow> nat option" where
  "find_first_not_of c s = (if \<exists>x \<in> set s. x \<noteq> c then Some (length (takeWhile (\<lambda>x. x = c) s)) else None)"

definition find_last_not_of :: "char \<Rightarrow> string \<Rightarrow> nat option" where
  "find_last_not_of c s = map_option (\<lambda>i. length s - 1 - i) (find_first_not_of c (rev s))"

definition stringTrimEx :: "string \<Rightarrow> char \<Rightarrow> string" where
  "stringTrimEx sInput c =
     (case find_first_not_of c sInput of
        None \<Rightarrow> sInput
      | Some first \<Rightarrow> (case find_last_not_of c sInput of
            None \<Rightarrow> sInput
          | Some final \<Rightarrow> take (final - first + 1) (drop first sInput)))"

definition find_last_of :: "char \<Rightarrow> string \<Rightarrow> nat option" where
  "find_last_of c s = (if c \<in> set s then Some (length s - 1 - length (takeWhile (\<lambda>x. x \<noteq> c) (rev s))) else None)"

definition remove_last_comma :: "string \<Rightarrow> string" where
  "remove_last_comma str = (case find_last_of (CHR '','') str of None \<Rightarrow> str | Some pos \<Rightarrow> take pos str)"

fun find_str :: "string \<Rightarrow> string \<Rightarrow> nat option" where
  "find_str c [] = (if c = [] then Some 0 else None)"
| "find_str c (x # xs) = (if take (length c) (x # xs) = c then Some 0 else map_option Suc (find_str c xs))"

text \<open>The loop of SplitString; \<open>rest\<close> is the text from \<open>pos1\<close> on.\<close>

partial_function (option) split_loop :: "string \<Rightarrow> string \<Rightarrow> string list \<Rightarrow> string list option" where
  "split_loop c rest v =
     (case find_str c rest of
        None \<Rightarrow> Some (if rest \<noteq> [] then sset_insert rest v else v)
      | Some pos \<Rightarrow> split_loop c (drop (pos + length c) rest) (sset_insert (take pos rest) v))"

definition join_terms :: "string list \<Rightarrow> string" where
  "join_terms v = concat (map (\<lambda>t. t @ '' '') v)"

text \<open>What it returns, and the set.\<close>

definition SplitString :: "string \<Rightarrow> string list \<Rightarrow> string \<Rightarrow> (string \<times> string list) option" where
  "SplitString s v c =
     (if find_str c s = None then Some (s, sset_insert s v)
      else do {
        v \<leftarrow> split_loop c s v;
        Some (stringTrimEx (join_terms v) (CHR '' ''), v) })"

definition holly_align :: "u64 \<Rightarrow> u64 \<Rightarrow> u64" where
  "holly_align bytes align = (bytes + (align - 1)) AND NOT (align - 1)"

subsection \<open>Directories\<close>

text \<open>The loop of mkpath over the text behind \<open>before\<close>; what mkdir returns, whether errno is EEXIST, and the
  kernel after it. \<open>mdret\<close> is not initialised before the first mkdir.\<close>

fun mkpath_loop :: "(string \<Rightarrow> 'k \<Rightarrow> int \<times> bool \<times> 'k) \<Rightarrow> string \<Rightarrow> string \<Rightarrow> int option \<Rightarrow> 'k \<Rightarrow> int option \<times> 'k" where
  "mkpath_loop mkdir before [] mdret k = (mdret, k)"
| "mkpath_loop mkdir before (x # rest) mdret k =
     (if x = CHR ''/'' \<and> before \<noteq> [] then
        (let (ret, eexist, k) = mkdir before k
         in if ret \<noteq> 0 \<and> \<not> eexist then (Some ret, k)
            else mkpath_loop mkdir (before @ [x]) rest (Some ret) k)
      else mkpath_loop mkdir (before @ [x]) rest mdret k)"

definition mkpath :: "(string \<Rightarrow> 'k \<Rightarrow> int \<times> bool \<times> 'k) \<Rightarrow> string \<Rightarrow> 'k \<Rightarrow> (int \<times> 'k) option" where
  "mkpath mkdir s k = do {
     require (s \<noteq> []);
     let s = (if last s \<noteq> CHR ''/'' then s @ ''/'' else s);
     let (mdret, k) = mkpath_loop mkdir [] s None k;
     ret \<leftarrow> mdret;
     Some (ret, k) }"

definition CreateFullDir :: "(string \<Rightarrow> 'k \<Rightarrow> bool) \<Rightarrow> (string \<Rightarrow> 'k \<Rightarrow> int \<times> bool \<times> 'k) \<Rightarrow> string \<Rightarrow> 'k \<Rightarrow> (bool \<times> 'k) option" where
  "CreateFullDir isPathExist mkdir dir k =
     (if isPathExist dir k then Some (True, k)
      else do { (ret, k) \<leftarrow> mkpath mkdir dir k; Some (if ret \<noteq> 0 then ''false'' \<noteq> [] else ''true'' \<noteq> [], k) })"

subsection \<open>Files\<close>

record file_system =
  files :: "string \<Rightarrow> string option"
  writable :: "string \<Rightarrow> bool"

definition save_file :: "string \<Rightarrow> string \<Rightarrow> file_system \<Rightarrow> bool \<times> file_system" where
  "save_file path sinput fs =
     (if writable fs path then (True, fs\<lparr>files := (files fs)(path \<mapsto> sinput)\<rparr>) else (False, fs))"

definition GetSmallFileContent :: "string \<Rightarrow> file_system \<Rightarrow> string option" where
  "GetSmallFileContent path fs = files fs path"

definition GetFileContent_string :: "string \<Rightarrow> file_system \<Rightarrow> string" where
  "GetFileContent_string path fs = (case GetSmallFileContent path fs of None \<Rightarrow> [] | Some pContent \<Rightarrow> pContent)"

definition GetFileSize :: "string \<Rightarrow> file_system \<Rightarrow> nat" where
  "GetFileSize path fs = (case files fs path of None \<Rightarrow> 0 | Some f \<Rightarrow> length f)"

definition CopyFileEx :: "string \<Rightarrow> string \<Rightarrow> file_system \<Rightarrow> bool \<times> file_system" where
  "CopyFileEx src dst fs =
     (let srcFileContent = GetFileContent_string src fs
      in if srcFileContent = [] then (False, fs) else save_file dst srcFileContent fs)"

text \<open>istream::getline into an array of 4096: a line of more than 4095 characters fails, as does the end.\<close>

definition get_line :: "string \<Rightarrow> (string \<times> string) option" where
  "get_line f =
     (let l = takeWhile (\<lambda>c. c \<noteq> CHR 0x0A) f
      in if f = [] \<or> 4096 \<le> length l then None else Some (l, drop (length l + 1) f))"

definition c_str :: "string \<Rightarrow> string" where
  "c_str s = takeWhile (\<lambda>c. c \<noteq> CHR 0x00) s"

definition replaced_line :: "string \<Rightarrow> string \<Rightarrow> string \<Rightarrow> string" where
  "replaced_line SpecifyLine newline line =
     (if find_str SpecifyLine (c_str line) = None then c_str line
      else newline @ drop (length SpecifyLine) (c_str line))"

function replace_loop :: "string \<Rightarrow> string \<Rightarrow> string \<Rightarrow> string" where
  "replace_loop SpecifyLine newline f =
     (case get_line f of
        None \<Rightarrow> []
      | Some (line, f) \<Rightarrow> replaced_line SpecifyLine newline line @ [CHR 0x0A] @ replace_loop SpecifyLine newline f)"
  by pat_completeness auto
termination
  by (relation "measure (\<lambda>(_, _, f). length f)") (auto simp: get_line_def Let_def split: if_splits)

declare replace_loop.simps [simp del]

definition ReplaceLineInFile :: "string \<Rightarrow> string \<Rightarrow> string \<Rightarrow> file_system \<Rightarrow> file_system" where
  "ReplaceLineInFile fileName SpecifyLine newline fs =
     (case files fs fileName of
        None \<Rightarrow> fs
      | Some f \<Rightarrow> snd (save_file fileName (replace_loop SpecifyLine newline f) fs))"

subsection \<open>Trimming and cutting\<close>

lemma stringTrimEx_trims:
  "stringTrimEx s c = (if \<forall>x \<in> set s. x = c then s else rev (dropWhile (\<lambda>x. x = c) (rev (dropWhile (\<lambda>x. x = c) s))))"
proof (cases "\<forall>x \<in> set s. x = c")
  case True
  then have "find_first_not_of c s = None" by (simp add: find_first_not_of_def)
  with True show ?thesis by (simp add: stringTrimEx_def)
next
  case False
  let ?P = "\<lambda>x. x = c"
  let ?a = "takeWhile ?P s" and ?d = "dropWhile ?P s" and ?b = "takeWhile ?P (rev s)"
  have f: "find_first_not_of c s = Some (length ?a)" "find_last_not_of c s = Some (length s - 1 - length ?b)"
    using False by (auto simp: find_first_not_of_def find_last_not_of_def)
  obtain x where x: "x \<in> set s" "x \<noteq> c" using False by blast
  have "x \<notin> set ?a" using x(2) set_takeWhileD [of x ?P s] by blast
  then have xd: "x \<in> set ?d" using x(1) by (metis Un_iff set_append takeWhile_dropWhile_id)
  have b: "?b = takeWhile ?P (rev ?d)"
  proof -
    have r: "rev s = rev ?d @ rev ?a" by (metis rev_append takeWhile_dropWhile_id)
    show ?thesis unfolding r by (rule takeWhile_append1) (use xd x(2) in auto)
  qed
  have "rev ?d = ?b @ dropWhile ?P (rev ?d)" unfolding b by simp
  then have "length (rev ?d) = length ?b + length (dropWhile ?P (rev ?d))" by (metis length_append)
  moreover have "dropWhile ?P (rev ?d) \<noteq> []" using xd x(2) by (auto simp: dropWhile_eq_Nil_conv)
  then have "0 < length (dropWhile ?P (rev ?d))" by (rule length_greater_0_conv [THEN iffD2])
  ultimately have lt: "length ?b < length ?d" unfolding length_rev by linarith
  have len: "length s = length ?a + length ?d" by (metis length_append takeWhile_dropWhile_id)
  have "length s - 1 - length ?b - length ?a + 1 = length ?d - length ?b" using lt len by linarith
  then have "take (length s - 1 - length ?b - length ?a + 1) ?d = take (length ?d - length ?b) ?d" by (simp only:)
  also have "\<dots> = rev (drop (length ?b) (rev ?d))" by (simp add: rev_drop)
  also have "drop (length ?b) (rev ?d) = dropWhile ?P (rev ?d)" unfolding b by (simp add: dropWhile_eq_drop)
  finally have "take (length s - 1 - length ?b - length ?a + 1) ?d = rev (dropWhile ?P (rev ?d))" .
  moreover have "drop (length ?a) s = ?d" by (simp add: dropWhile_eq_drop)
  ultimately show ?thesis unfolding if_not_P [OF False] by (simp add: stringTrimEx_def f)
qed

subsection \<open>Splitting\<close>

lemma find_str_Some:
  "find_str c s = Some i \<Longrightarrow> i + length c \<le> length s \<and> s = take i s @ c @ drop (i + length c) s \<and> find_str c (take i s @ c) = Some i"
proof (induction s arbitrary: i)
  case Nil
  then show ?case by (auto split: if_splits)
next
  case (Cons x xs)
  show ?case
  proof (cases "take (length c) (x # xs) = c")
    case True
    then have i: "i = 0" using Cons.prems by simp
    have "length c \<le> length (x # xs)" using True by (metis nat_le_linear take_all length_take min_def)
    moreover have "x # xs = c @ drop (length c) (x # xs)" using True by (metis append_take_drop_id)
    moreover have "find_str c c = Some 0" by (cases c) auto
    ultimately show ?thesis unfolding i by simp
  next
    case False
    then obtain j where j: "i = Suc j" "find_str c xs = Some j" using Cons.prems by auto
    note ih = Cons.IH [OF j(2)]
    have "take (length c) (x # take j xs @ c) = take (length c) (x # xs)"
    proof -
      have "take (j + length c) xs = take j xs @ c" using ih by (metis append_assoc append_eq_conv_conj length_append length_take min.absorb2 add_leD1)
      then have "x # take j xs @ c = take (Suc (j + length c)) (x # xs)" by simp
      then show ?thesis by (simp add: min_def del: take_Suc_Cons)
    qed
    then have "find_str c (x # take j xs @ c) = Some i" using False ih j by simp
    then show ?thesis using ih j by simp
  qed
qed

lemma find_str_Nil: "find_str [] s = Some 0"
  by (cases s) auto

definition join_with :: "string \<Rightarrow> string list \<Rightarrow> string" where
  "join_with c ps = concat (map (\<lambda>p. p @ c) (butlast ps)) @ last ps"

text \<open>The pieces of a text: nothing but the last runs on past the separator's first place.\<close>

definition pieces_of :: "string \<Rightarrow> string \<Rightarrow> string list \<Rightarrow> bool" where
  "pieces_of c s ps \<longleftrightarrow> ps \<noteq> [] \<and> join_with c ps = s \<and> (\<forall>p \<in> set (butlast ps). find_str c (p @ c) = Some (length p)) \<and>
     find_str c (last ps) = None"

lemma split_loop_pieces:
  assumes "c \<noteq> []" "strict v"
  shows "\<exists>ps v'. split_loop c s v = Some v' \<and> pieces_of c s ps \<and> strict v' \<and>
    set v' = set v \<union> set (butlast ps) \<union> (if last ps = [] then {} else {last ps})"
  using assms(2)
proof (induction "length s" arbitrary: s v rule: less_induct)
  case less
  show ?case
  proof (cases "find_str c s")
    case None
    then have "pieces_of c s [s]" by (simp add: pieces_of_def join_with_def)
    then show ?thesis using less.prems None by (intro exI [of _ "[s]"] exI [of _ "if s \<noteq> [] then sset_insert s v else v"]) (simp add: split_loop.simps)
  next
    case (Some i)
    note f = find_str_Some [OF Some]
    let ?r = "drop (i + length c) s"
    have "length ?r < length s" using conjunct1 [OF f] assms(1) by (cases c) auto
    from less.hyps [OF this, of "sset_insert (take i s) v"] less.prems
    obtain ps v' where h: "split_loop c ?r (sset_insert (take i s) v) = Some v'" "pieces_of c ?r ps" "strict v'"
      "set v' = insert (take i s) (set v) \<union> set (butlast ps) \<union> (if last ps = [] then {} else {last ps})" by auto
    have "split_loop c s v = Some v'" using h(1) Some by (simp add: split_loop.simps)
    moreover have "pieces_of c s (take i s # ps)"
      using h(2) f by (auto simp: pieces_of_def join_with_def)
    moreover have "ps \<noteq> []" using h(2) by (simp add: pieces_of_def)
    ultimately show ?thesis using h(3,4) by (intro exI [of _ "take i s # ps"] exI [of _ v']) auto
  qed
qed

text \<open>An empty separator is found everywhere: the loop then never ends.\<close>

lemma split_loop_empty: "split_loop [] s v = None"
proof -
  have "c \<noteq> []" if r: "split_loop c s v = Some r" for c r
  proof (rule split_loop.raw_induct [where P = "\<lambda>c s v r. c \<noteq> []", OF _ r])
    fix f c s v r
    assume ih: "\<And>c s v r. f c s v = Some r \<Longrightarrow> c \<noteq> []"
      and eq: "(case find_str c s of None \<Rightarrow> Some (if s \<noteq> [] then sset_insert s v else v)
        | Some pos \<Rightarrow> f c (drop (pos + length c) s) (sset_insert (take pos s) v)) = Some r"
    show "c \<noteq> []" using ih eq by (cases "c = []") (auto simp: find_str_Nil)
  qed
  then show ?thesis by (cases "split_loop [] s v") blast+
qed

lemma SplitString_pieces:
  assumes "strict v"
  shows "(SplitString s v c = None \<longleftrightarrow> c = []) \<and>
    (c \<noteq> [] \<longrightarrow> (\<exists>ps text_of v'. SplitString s v c = Some (text_of, v') \<and> pieces_of c s ps \<and> strict v' \<and>
       set v' = set v \<union> set (butlast ps) \<union> (if last ps = [] \<and> length ps \<noteq> 1 then {} else {last ps}) \<and>
       text_of = (if length ps = 1 then s else stringTrimEx (join_terms v') (CHR '' ''))))"
proof (cases "find_str c s")
  case None
  then have "c \<noteq> []" "pieces_of c s [s]" by (auto simp: find_str_Nil pieces_of_def join_with_def)
  then show ?thesis using None assms by (auto simp: SplitString_def intro!: exI [of _ "[s]"])
next
  case (Some i)
  show ?thesis
  proof (cases "c = []")
    case True
    then show ?thesis using Some by (simp add: SplitString_def split_loop_empty)
  next
    case False
    from split_loop_pieces [OF False assms, of s] obtain ps v' where h: "split_loop c s v = Some v'" "pieces_of c s ps" "strict v'"
      "set v' = set v \<union> set (butlast ps) \<union> (if last ps = [] then {} else {last ps})" by blast
    have "length ps \<noteq> 1"
      using h(2) Some by (cases ps) (auto simp: pieces_of_def join_with_def)
    then show ?thesis using h Some False by (simp add: SplitString_def) blast
  qed
qed

subsection \<open>Alignment\<close>

lemma holly_align_rounds_up:
  assumes "k < 64" "unat bytes + 2 ^ k \<le> 2 ^ 64"
  shows "unat (holly_align bytes (2 ^ k)) = (unat bytes + 2 ^ k - 1) div 2 ^ k * 2 ^ k"
proof -
  have "(2 :: nat) ^ k < 2 ^ 64" using assms(1) by (rule power_strict_increasing) simp
  then have "unat (of_nat (2 ^ k) :: u64) = 2 ^ k" by (simp add: unat_of_nat del: of_nat_power)
  then have p: "unat ((2 :: u64) ^ k) = 2 ^ k" by simp
  have "(1 :: u64) \<le> 2 ^ k" using p by (simp add: word_le_nat_alt)
  then have m: "unat ((2 :: u64) ^ k - 1) = 2 ^ k - 1" using unat_sub [of 1 "(2 :: u64) ^ k"] p by simp
  let ?x = "bytes + (2 ^ k - 1)"
  have one: "(1 :: nat) \<le> 2 ^ k" by simp
  then have lt: "unat bytes + (2 ^ k - 1) < 2 ^ 64" using assms(2) by linarith
  have x: "unat ?x = unat bytes + 2 ^ k - 1"
    unfolding unat_word_ariths(1) m using lt one by simp
  have "holly_align bytes (2 ^ k) = ?x AND NOT (mask k)"
    by (simp add: holly_align_def mask_eq_exp_minus_1)
  also have "\<dots> = push_bit k (drop_bit k ?x)"
    by (rule bit_word_eqI) (auto simp: bit_simps)
  finally have "unat (holly_align bytes (2 ^ k)) = take_bit 64 (unat ?x div 2 ^ k * 2 ^ k)"
    by (simp only: unsigned_push_bit_eq unat_drop_bit_eq push_bit_eq_mult [where 'a = nat] drop_bit_eq_div [where 'a = nat] len_num0
        len_bit0 len_bit1 len_num1) simp
  also have "\<dots> = unat ?x div 2 ^ k * 2 ^ k"
    using unsigned_less [of ?x, where ?'a = nat] le_less_trans [OF div_times_less_eq_dividend [of "unat ?x" "2 ^ k"]]
    by (simp add: take_bit_nat_eq_self)
  finally show ?thesis unfolding x .
qed

subsection \<open>Directories\<close>

text \<open>Whatever mkdir says, CreateFullDir returns true: it returns the literals \<open>"false"\<close> and \<open>"true"\<close>.\<close>

lemma CreateFullDir_always_true: "CreateFullDir ex mkdir dir k = Some (b, k') \<Longrightarrow> b"
  by (auto simp: CreateFullDir_def bind_Some_iff split: if_splits)

text \<open>When each mkdir makes its directory, or finds that it is there, all the directories of the path are there in the end.\<close>

lemma mkpath_loop_makes:
  assumes "\<And>d k ret e k'. mkdir d k = (ret, e, k') \<Longrightarrow> (ret = 0 \<or> e) \<and> there k' d \<and> (\<forall>d'. there k d' \<longrightarrow> there k' d')"
  shows "mkpath_loop mkdir before rest mdret k = (r, k') \<Longrightarrow> (\<forall>d'. there k d' \<longrightarrow> there k' d') \<and>
    (\<forall>i < length rest. rest ! i = CHR ''/'' \<longrightarrow> before @ take i rest \<noteq> [] \<longrightarrow> there k' (before @ take i rest))"
proof (induction rest arbitrary: before mdret k)
  case (Cons x rest)
  obtain ret e k1 where m: "mkdir before k = (ret, e, k1)" by (cases "mkdir before k") auto
  note mk = assms [OF m]
  define k2 where "k2 = (if x = CHR ''/'' \<and> before \<noteq> [] then k1 else k)"
  have "mkpath_loop mkdir (before @ [x]) rest (if x = CHR ''/'' \<and> before \<noteq> [] then Some ret else mdret) k2 = (r, k')"
    using Cons.prems m mk by (auto simp: k2_def split: if_splits)
  note ih = Cons.IH [OF this]
  have k2: "there k d' \<longrightarrow> there k2 d'" for d' using mk by (simp add: k2_def)
  show ?case
  proof (intro conjI allI impI)
    show "there k' d'" if "there k d'" for d' using that k2 ih by blast
    fix i assume i: "i < length (x # rest)" "(x # rest) ! i = CHR ''/''" "before @ take i (x # rest) \<noteq> []"
    show "there k' (before @ take i (x # rest))"
    proof (cases i)
      case 0
      then have "k2 = k1" using i by (simp add: k2_def)
      then show ?thesis using 0 mk ih by simp
    next
      case (Suc j)
      then show ?thesis using ih i by auto
    qed
  qed
qed simp

subsection \<open>Files\<close>

lemma save_then_read: "save_file path s fs = (True, fs') \<Longrightarrow> GetFileContent_string path fs' = s \<and> GetFileSize path fs' = length s"
  by (auto simp: save_file_def GetFileContent_string_def GetSmallFileContent_def GetFileSize_def split: if_splits)

text \<open>A copy has the content of its source; an empty file, though, is reported as missing and not copied.\<close>

lemma CopyFileEx_copies:
  "CopyFileEx src dst fs = (True, fs') \<longleftrightarrow>
     (\<exists>f. files fs src = Some f \<and> f \<noteq> [] \<and> writable fs dst \<and> fs' = fs\<lparr>files := (files fs)(dst \<mapsto> f)\<rparr>)"
  by (auto simp: CopyFileEx_def save_file_def GetFileContent_string_def GetSmallFileContent_def Let_def split: option.splits)

text \<open>ReplaceLineInFile edits each line, and gives each a line end; but at a line of more than 4095 characters it
  stops reading, and writes back only what came before.\<close>

definition short_line :: "string \<Rightarrow> bool" where
  "short_line l \<longleftrightarrow> CHR 0x0A \<notin> set l \<and> length l < 4096"

lemma get_line_short: "short_line l \<Longrightarrow> get_line (l @ CHR 0x0A # rest) = Some (l, rest)"
proof -
  assume l: "short_line l"
  then have "takeWhile (\<lambda>c. c \<noteq> CHR 0x0A) (l @ CHR 0x0A # rest) = l"
    by (subst takeWhile_append2) (auto simp: short_line_def)
  with l show ?thesis by (simp add: get_line_def short_line_def)
qed

lemma replace_loop_lines:
  assumes "\<forall>l \<in> set ls. short_line l"
  shows "replace_loop S N (concat (map (\<lambda>l. l @ [CHR 0x0A]) ls) @ rest) =
    concat (map (\<lambda>l. replaced_line S N l @ [CHR 0x0A]) ls) @ replace_loop S N rest"
  using assms
proof (induction ls)
  case (Cons l ls)
  then have "get_line (l @ CHR 0x0A # (concat (map (\<lambda>l. l @ [CHR 0x0A]) ls) @ rest))
      = Some (l, concat (map (\<lambda>l. l @ [CHR 0x0A]) ls) @ rest)" by (intro get_line_short) simp
  then have "replace_loop S N (l @ CHR 0x0A # (concat (map (\<lambda>l. l @ [CHR 0x0A]) ls) @ rest))
      = replaced_line S N l @ CHR 0x0A # replace_loop S N (concat (map (\<lambda>l. l @ [CHR 0x0A]) ls) @ rest)"
    by (subst replace_loop.simps) simp
  then show ?case using Cons by simp
qed simp

lemma ReplaceLineInFile_loses_the_rest:
  assumes "\<forall>l \<in> set ls. short_line l" "4096 \<le> length (takeWhile (\<lambda>c. c \<noteq> CHR 0x0A) rest) \<or> rest = []"
    "files fs name = Some (concat (map (\<lambda>l. l @ [CHR 0x0A]) ls) @ rest)" "writable fs name"
  shows "files (ReplaceLineInFile name S N fs) name = Some (concat (map (\<lambda>l. replaced_line S N l @ [CHR 0x0A]) ls))"
proof -
  have "get_line rest = None" using assms(2) by (auto simp: get_line_def Let_def)
  then have "replace_loop S N rest = []" by (subst replace_loop.simps) simp
  then show ?thesis using assms replace_loop_lines [OF assms(1), of S N rest]
    by (simp add: ReplaceLineInFile_def save_file_def)
qed

text \<open>The key is cut from the front of the line wherever it was found.\<close>

lemma replaced_in_the_middle: "replaced_line ''b='' ''x='' ''ab=1'' = ''x==1''"
  by code_simp

end
