(* ===== verification/Spec2Isabelle.thy ===== *)
theory Spec2Isabelle
  imports Http_Server Timer_Queue Pollers Event_Loop Sockets_Model Tcp_Server Io_Threads Thread_Pool Quick_Sort Time_Zone Tcp_Client Log_Stream Conn_Pool Murmur_Hash Text_Encoding Logger Common_Tools
begin

text \<open>
  A model of the network library under src/muduo (a reactor in C++: one event loop per thread, connections
  and timers living in their loop), of the echo server under src/examples/tstlesrv, which is written on
  libevent, of the library code of src/muduo/base (dates, time zones, formatting, logging, queues, thread and
  connection pools, text encodings, string and file helpers), and of the sorting program src/quicksort.cpp.

  \<^bold>\<open>How the code is read.\<close> The build files define no NDEBUG: a failing assertion or LOG_FATAL ends the process.
  A function that can do so returns an option, None for the aborted process (Prelude, \<open>require\<close>). Undefined
  behaviour the model can see (a freed timer, an index outside an array, a write over the end of a stack
  buffer) is None too. Machine integers are words where their width matters (Endian, Buffer, event masks,
  addresses, hash and bit operations); sizes and counts that no run can bring near their limits are nat or
  int. Strings and buffers are lists of bytes. What the kernel, the allocator, rand() or libevent answers is
  an argument of the operation. Code of one thread is a function on the state; code of several threads is
  a step relation whose steps are the stretches no other thread can look into (a critical section, one
  access to a shared variable), so that theorems over reachable states hold for every interleaving.

  \<^bold>\<open>The theories,\<close> in the order in which they build on each other:

  \<^item> Prelude: assertions, std::set and std::map as sorted lists, decimal printing, the collections
    \<open>run_simps\<close>, \<open>inv_intros\<close>, \<open>abs_simps\<close>.
  \<^item> Endian (net/Endian.h) and Net_Buffer (net/Buffer.h, Buffer.cc). The buffer's abstraction is its
    readable bytes; the locale \<open>byte_stream\<close> is the queue contract its clients use. Lemmas: the invariant
    \<open>buffer_ok\<close> is kept by every operation, each operation acts on the abstraction as its specification
    says, integers round trip through network order.
  \<^item> Http_Message (HttpRequest.h, HttpResponse), Http_Context (HttpContext.cc) and Http_Server
    (HttpServer.cc). The parser's loop is a partial function, as it need not end; \<open>parse_bytes\<close> is the
    grammar it implements. Lemmas: parsing refines the grammar; what the server answers to a first request does
    not depend on how it is cut into reads; a printed request parses back; when the loop spins; the answers
    the server sends.
  \<^item> Event_Channel (Channel.h, Channel.cc): event masks and the dispatch to callbacks, generic in the owner.
  \<^item> Tcp_Connection (TcpConnection.cpp) and Close_Once: the connection's life \<open>connecting - connected -
    disconnecting - disconnected\<close>, output backlog, queued functors, and the steps of calls under way in other
    threads. Lemmas: the bytes written and waiting are exactly the messages handed over that had hope, in
    order; shutdown waits for the backlog; callbacks come in the right order and once; what aborts.
  \<^item> Timer_Queue (Timestamp.h, Timer, TimerId, TimerQueue.cc): the two ordered sets, the timerfd and the heap of
    timers, with the identifiers that calls in other threads have still to read. Lemmas: the two sets agree and
    hold live timers only; exactly the due timers run; the alarm is never later than the earliest timer.
  \<^item> Pollers (Poller, PollPoller, EPollPoller): the locale \<open>poller\<close> is the contract of the two, both are
    interpretations; the registration tables agree under it and differ outside it.
  \<^item> Event_Loop (EventLoop.cpp): the loop as a step relation with other threads queueing functors and
    quitting. Lemmas: no wake-up is lost, functors run once and in order, waiting functors run.
  \<^item> Loop_Pool (EventLoopThreadPool, EventLoopThread): dealing loops round robin; the start handshake.
  \<^item> Connector_Model (Connector.cpp): connecting with retries; which calls keep it from aborting.
  \<^item> Sockets_Model (InetAddress, decisions of SocketsOps.cc, Acceptor) and Tcp_Server (TcpServer.cpp): the
    server composed of acceptor, pool and connections. Lemmas: no reachable state aborts; each connection
    has one name and one life.
  \<^item> Tcp_Client (TcpClient.cpp): the client composed of a connector and its one connection, with the
    destructor in either of the connection's states. Lemmas: no reachable state aborts, at most one connection
    is alive, a lost connection is retried exactly when asked.
  \<^item> Frame_Transport and Io_Threads (examples/tstlesrv: transports, client contexts, I/O threads): length
    framed messages over partial reads and writes, the recycling of contexts. Every event comes with its own
    answers of the kernel and of libevent.
  \<^item> Sync_Queues (BlockingQueue.h, BoundedBlockingQueue.h, CountDownLatch) and Thread_Pool (ThreadPool.cc):
    monitors with any wake-up order and spurious wake-ups; the locale \<open>monitor_queue\<close> is what the queues
    share. Lemmas: first in first out, no waiter is forgotten, each task runs once, stop lets all workers go.
  \<^item> Quick_Sort (quicksort.cpp): the sorting routines against the library's \<open>sort\<close>, the k least numbers
    and the bit map.
  \<^item> Calendar_Date (base/Date.cc) and Time_Zone (base/TimeZone.cc): civil dates against Julian day numbers,
    transition tables and their binary search, daylight saving around a change of the clocks.
  \<^item> Log_Stream (base/LogStream.cc): number conversion without snprintf and the fixed buffer it writes to.
    Lemmas: the conversions print the value; exactly the items that find room are stored, whole.
  \<^item> Logger (Logging.cc and the printing of Timestamp.cc): one log line from the constructor of a Logger to its
    destructor, with the cached second and thread id. Lemmas: the layout of the line; what a change of the zone
    and a full buffer do to it.
  \<^item> Conn_Pool (thrift_connection_pool.h): the pool as a step relation of callers that take, return and destroy
    connections, sleep and are woken; the vendored client and its transport are answers of the environment.
    Lemmas: a lent connection has one holder; the limits hold; who is woken, and who is not.
  \<^item> Murmur_Hash (murmurhash.h), Text_Encoding (convert.cpp) and Common_Tools (common.h, common.cpp): the hash on
    words; recognising and counting characters in UTF-8, GBK and UCS-2; trimming, splitting, paths and files.

  \<^bold>\<open>How the parts interact.\<close> A Channel's callbacks are functions on its owner's state, so that
  handleEvent of theory Event_Channel runs the handlers of Tcp_Connection, Connector_Model and Acceptor
  directly. A functor a component queues in a loop is kept in the component's state and run by a later step;
  Event_Loop shows that the loop does run every queued functor once and in order, which is what the
  relations \<open>conn_run\<close>, the connector's and the server's steps take for granted. Pollers proves the contract
  under which Channel::update and Channel::remove do not abort; Tcp_Connection, Close_Once and the owners show
  that a channel watches nothing and is registered when it is removed.

  \<^bold>\<open>What users have to keep,\<close> because the code does not check it; the relations of the models say it as
  conditions on steps, and for each a lemma shows what happens otherwise:

  \<^item> Tcp_Connection (\<open>calm\<close>): \<open>state_\<close> is tested and set without a lock. No close of the connection may come
    between the two in a call of shutdown, forceClose or forceCloseWithDelay in another thread
    (\<open>overtaken_close\<close>, and for the server \<open>overtaken_close_aborts_server\<close>); reading is started again only on a
    connection that is up (\<open>startRead_after_close_aborts\<close>). Tcp_Server and Tcp_Client take this over, for users
    that do not call startRead.
  \<^item> Timer_Queue: addTimer in another thread reads the timer after it handed it over
    (\<open>created_timer_freed_before_it_is_read\<close>).
  \<^item> Event_Loop: the thread of the loop queues nothing before \<open>loop()\<close> (\<open>calls_before_loop_are_lost\<close>).
  \<^item> Connector_Model: start and restart come when the connector is at rest (\<open>connector_aborts_undisciplined\<close>).
  \<^item> Pollers: a channel is updated before it is removed, descriptors of registered channels differ, and a loop
    has fewer than 342 channels (\<open>epoll_poll_overflows_its_buffer\<close>). The models of the owners of channels take
    the last two for granted; that a channel is registered when it is removed is part of \<open>channel_remove\<close>.
  \<^item> Frame_Transport: event_del is called on memory no event was assigned to whenever a connection that never
    waited to write is closed (\<open>close_deletes_unassigned_event\<close>). As what libevent finds there is not in the
    code, it is an answer of the environment, None when the process dies.

  \<^bold>\<open>Bounds and fuel.\<close> No definition uses fuel. Loops that end are functions with a measure; the two loops that
  may not end, parseRequest's and that of SplitString, are partial functions whose termination is
  characterised. Loops that are waits (take, put, startLoop, get_connection) are step relations with a measure
  or a progress theorem.

  \<^bold>\<open>Not modelled.\<close> Vendored code (src/thirdpart, src/poco, sigslot.h, concurrentqueue.h); thin wrappers of
  system calls and of library templates (Socket.cc, Mutex, Condition, Thread, Singleton, ThreadLocal, Atomic,
  Exception, StringPiece, duration, utils, Basic), which are arguments or steps of the models; the glue of
  libevent (event_watcher and libevent.h), whose behaviour is libevent's; thrift_helper.h and the helpers on
  rapidjson documents in common.cpp, which forward to vendored code; BinaryTree, which nothing uses; the
  demonstration programs main.cpp, cpp11fun.cpp, tstthreadpool.cpp. Exceptions thrown by user callbacks and by
  the allocator end the process and are left out.
\<close>

end
